(* ===== verification/Prelude.thy ===== *)
theory Prelude
  imports Main "HOL-Library.Word" "HOL-Library.List_Lexorder" "HOL-Library.Sublist"
begin

text \<open>
  Shared ground of the development.  Go's \<open>[]byte\<close> is a list of 8-bit words and
  \<open>bytes.Compare\<close> is the lexicographic order that \<open>HOL-Library.List_Lexorder\<close>
  gives to lists, a proper prefix being the smaller one.  \<open>uint64\<close> and \<open>int64\<close>
  are both \<open>64 word\<close>: \<open>unat\<close>/\<open>uint\<close> read the former and \<open>sint\<close> the latter, so
  the conversions \<open>uint64(x)\<close> and \<open>int64(x)\<close> of the source are the identity and
  all arithmetic wraps as it does in Go.

  The theory holds the part of \<open>encoding/binary\<close> that reads and writes big-endian
  numbers, lemmas on the lexicographic order, and the interface \<open>memcomparable\<close>:
  what it means for an encoding to be decodable in front of any continuation and to
  be ordered like the values it encodes.
\<close>

unbundle bit_operations_syntax

section \<open>Types and collections\<close>

type_synonym byte = "8 word"
type_synonym bytes = "byte list"
type_synonym u64 = "64 word"

named_theorems codec_simps \<open>decoders applied to what the encoders wrote\<close>
named_theorems lex_simps \<open>comparison of concatenated encodings\<close>
named_theorems len_simps \<open>lengths of encodings\<close>

text \<open>Go's \<open>bytes.HasPrefix\<close>.\<close>

abbreviation HasPrefix :: "bytes \<Rightarrow> bytes \<Rightarrow> bool" where
  "HasPrefix b p \<equiv> prefix p b"

text \<open>The extreme values of the 64-bit integer types (package \<open>math\<close>).\<close>

abbreviation MaxUint64 :: u64 where "MaxUint64 \<equiv> - 1"
abbreviation MaxInt64 :: u64 where "MaxInt64 \<equiv> 0x7FFFFFFFFFFFFFFF"
abbreviation MinInt64 :: u64 where "MinInt64 \<equiv> 0x8000000000000000"

section \<open>Errors as values\<close>

lemma sum_case_Inr_iff:
  "(case r of Inl e \<Rightarrow> Inl e | Inr x \<Rightarrow> f x) = Inr y \<longleftrightarrow> (\<exists>x. r = Inr x \<and> f x = Inr y)"
  by (auto split: sum.splits)

section \<open>The lexicographic order\<close>

lemma lex_append_same_length:
  fixes a b :: "'a::linorder list"
  shows "length a = length b \<Longrightarrow> a @ x < b @ y \<longleftrightarrow> a < b \<or> a = b \<and> x < y"
  by (induction a b rule: list_induct2) auto

lemma lex_append_left [lex_simps]:
  fixes a :: "'a::linorder list"
  shows "a @ x < a @ y \<longleftrightarrow> x < y"
  by (induction a) auto

lemma lex_append_left_le [lex_simps]:
  fixes a :: "'a::linorder list"
  shows "a @ x \<le> a @ y \<longleftrightarrow> x \<le> y"
  by (induction a) auto

lemma lex_less_append: "(x::'a::linorder list) < y \<Longrightarrow> \<not> prefix x y \<Longrightarrow> x @ u < y @ v"
proof (induction x arbitrary: y)
  case (Cons a x)
  then show ?case by (cases y) auto
qed simp

lemma prefix_lex_le: "prefix x y \<Longrightarrow> (x::'a::linorder list) \<le> y"
  by (induction x arbitrary: y) (auto elim!: prefixE)

section \<open>Big-endian numbers (\<open>encoding/binary\<close>)\<close>

text \<open>
  \<open>put_be n u\<close> is the list \<open>byte(u>>8(n-1)), \<dots>, byte(u>>8), byte(u)\<close>;
  \<open>binary.BigEndian.PutUint64\<close> writes it for \<open>n = 8\<close>.  \<open>be_step\<close> is the body of
  the reading loop, \<open>v = (v << 8) | uint64(c)\<close>.
\<close>

primrec put_be :: "nat \<Rightarrow> u64 \<Rightarrow> bytes" where
  "put_be 0 u = []"
| "put_be (Suc n) u = ucast (drop_bit (8 * n) u) # put_be n u"

definition be_step :: "u64 \<Rightarrow> byte \<Rightarrow> u64" where
  "be_step v c = push_bit 8 v OR ucast c"

definition PutUint64 :: "u64 \<Rightarrow> bytes" where
  "PutUint64 u = put_be 8 u"

definition Uint64 :: "bytes \<Rightarrow> u64" where
  "Uint64 b = foldl be_step 0 b"

text \<open>The number a byte string denotes in base 256.\<close>

definition be_val :: "bytes \<Rightarrow> nat" where
  "be_val bs = foldl (\<lambda>x b. x * 256 + unat b) 0 bs"

lemma length_put_be [simp]: "length (put_be n u) = n"
  by (induction n) auto

lemma length_PutUint64 [simp, len_simps]: "length (PutUint64 u) = 8"
  by (simp add: PutUint64_def)

lemma foldl_be: "foldl (\<lambda>x b. x * 256 + unat b) a (bs::bytes) = a * 256 ^ length bs + be_val bs"
proof (induction bs arbitrary: a)
  case Nil
  then show ?case by (simp add: be_val_def)
next
  case (Cons b bs)
  show ?case using Cons.IH [of "a * 256 + unat b"] Cons.IH [of "unat b"]
    by (simp add: be_val_def algebra_simps)
qed

lemma be_val_Nil [simp]: "be_val [] = 0"
  by (simp add: be_val_def)

lemma be_val_Cons [simp]: "be_val (b # bs) = unat b * 256 ^ length bs + be_val bs"
  using foldl_be [of "unat b" bs] by (simp add: be_val_def)

lemma unat_byte_less [simp]: "unat (b::byte) < 256"
  using unsigned_less [of b, where ?'a = nat] by simp

lemma be_val_less: "be_val bs < 256 ^ length bs"
proof (induction bs)
  case (Cons b bs)
  have "unat b * 256 ^ length bs + be_val bs < (unat b + 1) * 256 ^ length bs"
    using Cons by simp
  also have "\<dots> \<le> 256 * 256 ^ length bs"
    using unat_byte_less [of b] by (intro mult_right_mono) linarith+
  finally show ?case by simp
qed simp

lemma unat_byte_of: "unat (ucast (drop_bit (8 * n) u) :: byte) = (unat u div 256 ^ n) mod 256"
proof -
  have "unat (ucast (drop_bit (8 * n) u) :: byte) = take_bit 8 (drop_bit (8 * n) (unat u))"
    by (simp add: unsigned_ucast_eq unat_drop_bit_eq)
  then show ?thesis by (simp add: drop_bit_eq_div take_bit_eq_mod power_mult)
qed

lemma be_val_put_be: "be_val (put_be n u) = unat u mod 256 ^ n"
proof (induction n)
  case (Suc n)
  have "unat u mod (256 ^ n * 256) = 256 ^ n * (unat u div 256 ^ n mod 256) + unat u mod 256 ^ n"
    by (rule mod_mult2_eq)
  then show ?case using Suc
    by (simp only: put_be.simps be_val_Cons length_put_be unat_byte_of power_Suc2
        mult.commute [of "256 ^ n"])
qed simp

lemma unat_be_step: "unat (be_step v c) = (unat v * 256 + unat c) mod 2 ^ 64"
proof -
  have "push_bit 8 v OR ucast c = push_bit 8 v + ucast c"
    by (rule disjunctive_add_eq_or [symmetric])
      (auto intro!: bit_word_eqI simp: bit_simps dest!: bit_imp_le_length [of c])
  then show ?thesis
    by (simp add: be_step_def push_bit_eq_mult unat_word_ariths unsigned_ucast_eq
        take_bit_eq_mod mod_simps)
qed

lemma unat_foldl_be_step:
  "unat (foldl be_step v bs) = (unat v * 256 ^ length bs + be_val bs) mod 2 ^ 64"
proof (induction bs arbitrary: v)
  case Nil
  then show ?case using unsigned_less [of v, where ?'a = nat] by simp
next
  case (Cons b bs)
  have "((unat v * 256 + unat b) mod 2 ^ 64 * 256 ^ length bs + be_val bs) mod 2 ^ 64
      = ((unat v * 256 + unat b) * 256 ^ length bs + be_val bs) mod 2 ^ 64"
    by (metis mod_add_left_eq mod_mult_left_eq)
  then show ?case by (simp add: Cons unat_be_step algebra_simps)
qed

lemma Uint64_PutUint64 [simp, codec_simps]: "Uint64 (PutUint64 u) = u"
proof -
  have "unat (Uint64 (PutUint64 u)) = unat u"
    using unsigned_less [of u, where ?'a = nat]
    by (simp add: Uint64_def PutUint64_def unat_foldl_be_step be_val_put_be)
  then show ?thesis by (simp add: word_unat_eq_iff)
qed

lemma be_val_mono: "length xs = length ys \<Longrightarrow> xs < ys \<longleftrightarrow> be_val xs < be_val ys"
proof (induction xs ys rule: list_induct2)
  case (Cons x xs y ys)
  have bx: "be_val xs < 256 ^ length ys" and bY: "be_val ys < 256 ^ length ys"
    using be_val_less [of xs] be_val_less [of ys] Cons.hyps by auto
  consider "unat x < unat y" | "unat y < unat x" | "x = y"
    by (metis linorder_neqE_nat word_unat_eq_iff)
  then show ?case
  proof cases
    case 1
    then have "(unat x + 1) * 256 ^ length ys \<le> unat y * 256 ^ length ys"
      by (intro mult_right_mono) auto
    with 1 bx show ?thesis using Cons by (auto simp: word_less_nat_alt)
  next
    case 2
    then have "(unat y + 1) * 256 ^ length ys \<le> unat x * 256 ^ length ys"
      by (intro mult_right_mono) auto
    with 2 bY show ?thesis using Cons by (auto simp: word_less_nat_alt)
  next
    case 3
    then show ?thesis using Cons by simp
  qed
qed simp

lemma put_be_less_iff: "put_be n u < put_be n v \<longleftrightarrow> unat u mod 256 ^ n < unat v mod 256 ^ n"
  by (simp add: be_val_mono be_val_put_be)

lemma PutUint64_less_iff [lex_simps]: "PutUint64 u < PutUint64 v \<longleftrightarrow> u < v"
  using unsigned_less [of u, where ?'a = nat] unsigned_less [of v, where ?'a = nat]
  by (simp add: PutUint64_def put_be_less_iff word_less_nat_alt)

lemma PutUint64_eq_iff [simp]: "PutUint64 u = PutUint64 v \<longleftrightarrow> u = v"
  by (metis Uint64_PutUint64)

lemma PutUint64_append_less_iff [lex_simps]:
  "PutUint64 u @ x < PutUint64 v @ y \<longleftrightarrow> u < v \<or> u = v \<and> x < y"
  by (simp add: lex_append_same_length PutUint64_less_iff)

lemma PutUint64_Uint64: "length b = 8 \<Longrightarrow> PutUint64 (Uint64 b) = b"
proof -
  assume len: "length b = 8"
  have "be_val (PutUint64 (Uint64 b)) = be_val b"
    using be_val_less [of b] len
    by (simp add: PutUint64_def Uint64_def be_val_put_be unat_foldl_be_step)
  then show ?thesis using be_val_mono [of "PutUint64 (Uint64 b)" b]
      be_val_mono [of b "PutUint64 (Uint64 b)"] len
    by (metis length_PutUint64 less_irrefl linorder_neqE)
qed

section \<open>Words of 64 bits\<close>

lemma unat_m1: "unat (- 1 :: u64) = 2 ^ 64 - 1"
  by (simp add: unsigned_minus_1_eq_mask mask_eq_exp_minus_1)

lemma unat_not: "unat (NOT u :: u64) = 2 ^ 64 - 1 - unat u"
proof -
  have "NOT u = - 1 - u" by (simp add: not_eq_complement)
  then show ?thesis by (simp only: unat_sub [OF word_n1_ge] unat_m1)
qed
lemma unat_u64_less [simp]: "unat (u::u64) < 2 ^ 64"
  using unsigned_less [of u, where ?'a = nat] by simp

lemma or_push_bit_add:
  fixes x :: u64
  assumes "unat x < 2 ^ s"
  shows "x OR push_bit s y = x + push_bit s y"
proof (rule disjunctive_add_eq_or [symmetric], rule bit_word_eqI)
  fix n
  have "\<not> bit x n" if "s \<le> n"
  proof -
    have "unat x < 2 ^ n" using assms that
      by (meson order_less_le_trans power_increasing one_le_numeral)
    then have "\<not> bit (unat x) n" by (simp add: bit_iff_odd)
    then show ?thesis by (auto simp: bit_unsigned_iff bit_imp_le_length possible_bit_def)
  qed
  then show "bit (x AND push_bit s y) n \<longleftrightarrow> bit 0 n" by (auto simp: bit_simps)
qed

lemma unat_ucast_byte: "unat (ucast (b::byte) :: u64) = unat b"
proof -
  have "unat b < 2 ^ 64" using unat_byte_less [of b] by (rule less_trans) simp
  then show ?thesis by (simp only: unsigned_ucast_eq take_bit_eq_mod) simp
qed
lemma unat_to_byte: "unat (ucast (x::u64) :: byte) = unat x mod 256"
  by (simp add: unsigned_ucast_eq take_bit_eq_mod)

lemma unat_push_bit: "unat (push_bit s y :: u64) = (2 ^ s * unat y) mod 2 ^ 64"
  by (simp only: unsigned_push_bit_eq) (simp add: push_bit_eq_mult take_bit_eq_mod mult.commute)

section \<open>The interface of a memory-comparable encoding\<close>

text \<open>Lists of values in the order of their first difference, a proper prefix first.\<close>

fun lexl :: "('v \<Rightarrow> 'v \<Rightarrow> bool) \<Rightarrow> 'v list \<Rightarrow> 'v list \<Rightarrow> bool" where
  "lexl lt xs [] = False"
| "lexl lt [] (y # ys) = True"
| "lexl lt (x # xs) (y # ys) = (lt x y \<or> x = y \<and> lexl lt xs ys)"

text \<open>
  The callers of \<open>util/codec\<close> rely on two promises of each \<open>Encode\<dots>/Decode\<dots>\<close>
  pair: the decoder reads the value back from the front of any longer byte string
  and returns exactly the bytes that follow, and comparing encodings with
  \<open>bytes.Compare\<close>, whatever follows them, orders them like the values.  \<open>ok\<close>
  delimits the values the promise is made for and \<open>lt\<close> is their order.
\<close>

locale memcomparable =
  fixes ok :: "'v \<Rightarrow> bool"
    and lt :: "'v \<Rightarrow> 'v \<Rightarrow> bool"
    and enc :: "'v \<Rightarrow> bytes"
    and dec :: "bytes \<Rightarrow> 'e + bytes \<times> 'v"
  assumes lt_total: "ok v \<Longrightarrow> ok w \<Longrightarrow> v \<noteq> w \<Longrightarrow> lt v w \<or> lt w v"
    and dec_enc: "ok v \<Longrightarrow> dec (enc v @ rest) = Inr (rest, v)"
    and enc_mono: "ok v \<Longrightarrow> ok w \<Longrightarrow> lt v w \<Longrightarrow> enc v @ x < enc w @ y"
begin

lemma enc_append_eq_iff:
  assumes "ok v" "ok w" shows "enc v @ x = enc w @ y \<longleftrightarrow> v = w \<and> x = y"
proof
  assume "enc v @ x = enc w @ y"
  then have "Inr (x, v) = (Inr (y, w) :: 'e + bytes \<times> 'v)"
    using dec_enc [OF assms(1), of x] dec_enc [OF assms(2), of y] by metis
  then show "v = w \<and> x = y" by blast
qed simp

lemma enc_less_iff:
  assumes "ok v" "ok w" shows "enc v @ x < enc w @ y \<longleftrightarrow> lt v w \<or> v = w \<and> x < y"
proof (cases "v = w")
  case True
  moreover have "\<not> lt v v" using enc_mono [OF assms(1,1), of x x] by auto
  ultimately show ?thesis by (simp add: lex_append_left)
next
  case False
  then consider "lt v w" | "lt w v" using lt_total assms by blast
  then show ?thesis
  proof cases
    case 1
    with enc_mono [OF assms] show ?thesis by blast
  next
    case 2
    then have "\<not> lt v w" using enc_mono [OF assms(2,1) 2] enc_mono [OF assms] less_asym by blast
    moreover have "\<not> enc v @ x < enc w @ y" using enc_mono [OF assms(2,1) 2, of y x] by auto
    ultimately show ?thesis using False by blast
  qed
qed

lemma enc_inj: "ok v \<Longrightarrow> ok w \<Longrightarrow> enc v = enc w \<longleftrightarrow> v = w"
  using enc_append_eq_iff [of v w "[]" "[]"] by simp

lemma enc_order: "ok v \<Longrightarrow> ok w \<Longrightarrow> enc v < enc w \<longleftrightarrow> lt v w"
  using enc_less_iff [of v w "[]" "[]"] by simp

lemma enc_prefix_free: "ok v \<Longrightarrow> ok w \<Longrightarrow> prefix (enc v) (enc w @ x) \<Longrightarrow> v = w"
  by (metis prefixE append_assoc enc_append_eq_iff)

text \<open>A column list is encoded by concatenation; its order is the lexicographic one.\<close>

lemma concat_enc_inj:
  assumes "\<And>v. ok v \<Longrightarrow> enc v \<noteq> []"
  shows "list_all ok vs \<Longrightarrow> list_all ok ws \<Longrightarrow>
    concat (map enc vs) = concat (map enc ws) \<longleftrightarrow> vs = ws"
proof (induction vs arbitrary: ws)
  case Nil
  then show ?case using assms by (cases ws) auto
next
  case (Cons v vs)
  then show ?case using assms by (cases ws) (auto simp: enc_append_eq_iff)
qed

lemma concat_enc_less_iff:
  assumes "\<And>v. ok v \<Longrightarrow> enc v \<noteq> []"
  shows "list_all ok vs \<Longrightarrow> list_all ok ws \<Longrightarrow>
    concat (map enc vs) < concat (map enc ws) \<longleftrightarrow> lexl lt vs ws"
proof (induction vs arbitrary: ws)
  case Nil
  show ?case
  proof (cases ws)
    case (Cons w ws')
    with Nil assms have "enc w \<noteq> []" by simp
    then show ?thesis using Cons by (cases "enc w") auto
  qed simp
next
  case (Cons v vs)
  then show ?case by (cases ws) (auto simp: enc_less_iff)
qed

end

text \<open>Two encodings in sequence compare like pairs.\<close>

definition dec_pair ::
  "(bytes \<Rightarrow> 'e + bytes \<times> 'a) \<Rightarrow> (bytes \<Rightarrow> 'e + bytes \<times> 'b) \<Rightarrow> bytes \<Rightarrow> 'e + bytes \<times> ('a \<times> 'b)" where
  "dec_pair decA decB b =
     (case decA b of
        Inl e \<Rightarrow> Inl e
      | Inr (r, v) \<Rightarrow> (case decB r of Inl e \<Rightarrow> Inl e | Inr (r', w) \<Rightarrow> Inr (r', v, w)))"

locale memcomparable_pair =
  A: memcomparable okA ltA encA decA + B: memcomparable okB ltB encB decB
  for okA :: "'a \<Rightarrow> bool" and ltA encA and decA :: "bytes \<Rightarrow> 'e + bytes \<times> 'a"
    and okB :: "'b \<Rightarrow> bool" and ltB encB and decB :: "bytes \<Rightarrow> 'e + bytes \<times> 'b"

sublocale memcomparable_pair \<subseteq> pair: memcomparable
  "\<lambda>(a, b). okA a \<and> okB b"
  "\<lambda>(a, b) (a', b'). ltA a a' \<or> a = a' \<and> ltB b b'"
  "\<lambda>(a, b). encA a @ encB b"
  "dec_pair decA decB"
proof (unfold_locales, goal_cases)
  case (1 v w)
  then show ?case using A.lt_total B.lt_total by (cases v; cases w) auto
next
  case (2 v rest)
  then show ?case by (cases v) (simp add: dec_pair_def A.dec_enc B.dec_enc)
next
  case (3 v w x y)
  then show ?case
    by (cases v; cases w) (auto simp: A.enc_less_iff B.enc_less_iff)
qed

end
