(* ===== verification/Number_Codec.thy ===== *)
theory Number_Codec
  imports Prelude
begin

text \<open>
  \<open>src/util/codec/number.go\<close>: fixed-width memory-comparable integers, the
  \<open>encoding/binary\<close> varints they are stored with in values, and the
  memory-comparable varints.  A Go result \<open>(leftover, value, err)\<close> is a value of
  \<open>codec_err + bytes \<times> value\<close>; on the error branches the source returns a nil
  slice and zero, which no caller reads.
\<close>

section \<open>Errors of package codec\<close>

text \<open>
  \<open>Panic\<close> stands for a run-time panic of the Go code (an index or slice bound out
  of range); the other constructors are the errors it returns.
\<close>

datatype codec_err =
    InsufficientBytes
  | LargerThan64Bits
  | DecodeInvalid
  | InvalidMarker bytes
  | InvalidPadding bytes
  | InvalidEncodedKey
  | InvalidKeyFlag byte
  | UnsupportedKind
  | Panic

section \<open>Fixed-width integers\<close>

definition signMask :: u64 where
  "signMask = 0x8000000000000000"

definition EncodeIntToCmpUint :: "u64 \<Rightarrow> u64" where
  "EncodeIntToCmpUint v = v XOR signMask"

definition DecodeCmpUintToInt :: "u64 \<Rightarrow> u64" where
  "DecodeCmpUintToInt u = u XOR signMask"

definition EncodeInt :: "bytes \<Rightarrow> u64 \<Rightarrow> bytes" where
  "EncodeInt b v = b @ PutUint64 (EncodeIntToCmpUint v)"

definition EncodeIntDesc :: "bytes \<Rightarrow> u64 \<Rightarrow> bytes" where
  "EncodeIntDesc b v = b @ PutUint64 (NOT (EncodeIntToCmpUint v))"

definition DecodeInt :: "bytes \<Rightarrow> codec_err + bytes \<times> u64" where
  "DecodeInt b =
     (if length b < 8 then Inl InsufficientBytes
      else Inr (drop 8 b, DecodeCmpUintToInt (Uint64 (take 8 b))))"

definition DecodeIntDesc :: "bytes \<Rightarrow> codec_err + bytes \<times> u64" where
  "DecodeIntDesc b =
     (if length b < 8 then Inl InsufficientBytes
      else Inr (drop 8 b, DecodeCmpUintToInt (NOT (Uint64 (take 8 b)))))"

definition EncodeUint :: "bytes \<Rightarrow> u64 \<Rightarrow> bytes" where
  "EncodeUint b v = b @ PutUint64 v"

definition EncodeUintDesc :: "bytes \<Rightarrow> u64 \<Rightarrow> bytes" where
  "EncodeUintDesc b v = b @ PutUint64 (NOT v)"

definition DecodeUint :: "bytes \<Rightarrow> codec_err + bytes \<times> u64" where
  "DecodeUint b =
     (if length b < 8 then Inl InsufficientBytes else Inr (drop 8 b, Uint64 (take 8 b)))"

definition DecodeUintDesc :: "bytes \<Rightarrow> codec_err + bytes \<times> u64" where
  "DecodeUintDesc b =
     (if length b < 8 then Inl InsufficientBytes else Inr (drop 8 b, NOT (Uint64 (take 8 b))))"

section \<open>Varints of encoding/binary\<close>

text \<open>
  \<open>PutUvarint\<close> and \<open>Uvarint\<close> of the Go standard library.  \<open>Uvarint\<close> returns the
  value and the number of bytes read; 0 means the buffer was too small and a
  negative number that the value overflows 64 bits.  The loop carries \<open>i\<close>, \<open>x\<close>
  and \<open>s\<close> as the Go loop does.
\<close>

function PutUvarint :: "u64 \<Rightarrow> bytes" where
  "PutUvarint x =
     (if 0x80 \<le> x then (ucast x OR 0x80) # PutUvarint (drop_bit 7 x) else [ucast x])"
  by pat_completeness auto
termination
proof (relation "measure unat")
  fix x :: u64
  assume "0x80 \<le> x"
  then have "0x80 \<le> unat x" by (simp add: word_le_nat_alt)
  then have "unat x div 128 < unat x" by simp
  then show "(drop_bit 7 x, x) \<in> measure unat"
    by (simp only: in_measure unat_drop_bit_eq) (simp add: drop_bit_eq_div)
qed simp

declare PutUvarint.simps [simp del]

fun Uvarint_loop :: "bytes \<Rightarrow> nat \<Rightarrow> u64 \<Rightarrow> nat \<Rightarrow> u64 \<times> int" where
  "Uvarint_loop [] i x s = (0, 0)"
| "Uvarint_loop (b # buf) i x s =
     (if b < 0x80 then
        (if i > 9 \<or> i = 9 \<and> b > 1 then (0, - (int i + 1))
         else (x OR push_bit s (ucast b), int i + 1))
      else Uvarint_loop buf (i + 1) (x OR push_bit s (ucast (b AND 0x7f))) (s + 7))"

definition Uvarint :: "bytes \<Rightarrow> u64 \<times> int" where
  "Uvarint buf = Uvarint_loop buf 0 0 0"

definition PutVarint :: "u64 \<Rightarrow> bytes" where
  "PutVarint x = (let ux = push_bit 1 x in PutUvarint (if sint x < 0 then NOT ux else ux))"

definition Varint :: "bytes \<Rightarrow> u64 \<times> int" where
  "Varint buf =
     (let (ux, n) = Uvarint buf; x = drop_bit 1 ux in (if ux AND 1 \<noteq> 0 then NOT x else x, n))"

definition EncodeVarint :: "bytes \<Rightarrow> u64 \<Rightarrow> bytes" where
  "EncodeVarint b v = b @ PutVarint v"

definition DecodeVarint :: "bytes \<Rightarrow> codec_err + bytes \<times> u64" where
  "DecodeVarint b =
     (let (v, n) = Varint b in
      if n > 0 then Inr (drop (nat n) b, v)
      else if n < 0 then Inl LargerThan64Bits
      else Inl InsufficientBytes)"

definition EncodeUvarint :: "bytes \<Rightarrow> u64 \<Rightarrow> bytes" where
  "EncodeUvarint b v = b @ PutUvarint v"

definition DecodeUvarint :: "bytes \<Rightarrow> codec_err + bytes \<times> u64" where
  "DecodeUvarint b =
     (let (v, n) = Uvarint b in
      if n > 0 then Inr (drop (nat n) b, v)
      else if n < 0 then Inl LargerThan64Bits
      else Inl InsufficientBytes)"

section \<open>Memory-comparable varints\<close>

definition negativeTagEnd :: nat where "negativeTagEnd = 8"
definition positiveTagStart :: nat where "positiveTagStart = 0xff - 8"

text \<open>
  \<open>byte(v>>8k)\<close> of a signed \<open>v\<close> shifts arithmetically; \<open>put_be_signed n v\<close> is
  \<open>byte(v>>8(n-1)), \<dots>, byte(v)\<close> with that shift.
\<close>

primrec put_be_signed :: "nat \<Rightarrow> u64 \<Rightarrow> bytes" where
  "put_be_signed 0 v = []"
| "put_be_signed (Suc n) v = ucast (signed_drop_bit (8 * n) v) # put_be_signed n v"

definition EncodeComparableUvarint :: "bytes \<Rightarrow> u64 \<Rightarrow> bytes" where
  "EncodeComparableUvarint b v =
     (if unat v \<le> positiveTagStart - negativeTagEnd then b @ [ucast v + of_nat negativeTagEnd]
      else if v \<le> 0xff then b @ of_nat (positiveTagStart + 1) # put_be 1 v
      else if v \<le> 0xffff then b @ of_nat (positiveTagStart + 2) # put_be 2 v
      else if v \<le> 0xffffff then b @ of_nat (positiveTagStart + 3) # put_be 3 v
      else if v \<le> 0xffffffff then b @ of_nat (positiveTagStart + 4) # put_be 4 v
      else if v \<le> 0xffffffffff then b @ of_nat (positiveTagStart + 5) # put_be 5 v
      else if v \<le> 0xffffffffffff then b @ of_nat (positiveTagStart + 6) # put_be 6 v
      else if v \<le> 0xffffffffffffff then b @ of_nat (positiveTagStart + 7) # put_be 7 v
      else b @ of_nat (positiveTagStart + 8) # put_be 8 v)"

definition EncodeComparableVarint :: "bytes \<Rightarrow> u64 \<Rightarrow> bytes" where
  "EncodeComparableVarint b v =
     (if sint v < 0 then
        (if sint v \<ge> - 0xff then b @ of_nat (negativeTagEnd - 1) # put_be_signed 1 v
         else if sint v \<ge> - 0xffff then b @ of_nat (negativeTagEnd - 2) # put_be_signed 2 v
         else if sint v \<ge> - 0xffffff then b @ of_nat (negativeTagEnd - 3) # put_be_signed 3 v
         else if sint v \<ge> - 0xffffffff then b @ of_nat (negativeTagEnd - 4) # put_be_signed 4 v
         else if sint v \<ge> - 0xffffffffff then b @ of_nat (negativeTagEnd - 5) # put_be_signed 5 v
         else if sint v \<ge> - 0xffffffffffff then b @ of_nat (negativeTagEnd - 6) # put_be_signed 6 v
         else if sint v \<ge> - 0xffffffffffffff then b @ of_nat (negativeTagEnd - 7) # put_be_signed 7 v
         else b @ of_nat (negativeTagEnd - 8) # put_be_signed 8 v)
      else EncodeComparableUvarint b v)"

definition DecodeComparableUvarint :: "bytes \<Rightarrow> codec_err + bytes \<times> u64" where
  "DecodeComparableUvarint b =
     (case b of
        [] \<Rightarrow> Inl InsufficientBytes
      | first # b' \<Rightarrow>
          if unat first < negativeTagEnd then Inl DecodeInvalid
          else if unat first \<le> positiveTagStart then Inr (b', ucast first - of_nat negativeTagEnd)
          else let length' = unat first - positiveTagStart in
            if length b' < length' then Inl InsufficientBytes
            else Inr (drop length' b', foldl be_step 0 (take length' b')))"

text \<open>In the single-byte case the source returns \<open>b\<close> with its first byte still in place.\<close>

definition DecodeComparableVarint :: "bytes \<Rightarrow> codec_err + bytes \<times> u64" where
  "DecodeComparableVarint b =
     (case b of
        [] \<Rightarrow> Inl InsufficientBytes
      | first # b' \<Rightarrow>
          if unat first \<ge> negativeTagEnd \<and> unat first \<le> positiveTagStart
          then Inr (b, ucast first - of_nat negativeTagEnd)
          else let
              length' = (if unat first < negativeTagEnd then negativeTagEnd - unat first
                         else unat first - positiveTagStart);
              v0 = (if unat first < negativeTagEnd then MaxUint64 else 0)
            in if length b' < length' then Inl InsufficientBytes
            else let v = foldl be_step v0 (take length' b') in
              if unat first > positiveTagStart \<and> v > MaxInt64 then Inl DecodeInvalid
              else if unat first < negativeTagEnd \<and> v \<le> MaxInt64 then Inl DecodeInvalid
              else Inr (drop length' b', v))"

section \<open>Fixed-width integers are memory-comparable\<close>

lemma signMask_push_bit: "signMask = push_bit 63 1"
  by (simp add: signMask_def push_bit_eq_mult)

lemma bit_signMask: "bit signMask n \<longleftrightarrow> n = 63"
  unfolding signMask_push_bit by (simp only: bit_simps) auto

lemma xor_signMask: "v XOR signMask = v + signMask"
proof (cases "bit v 63")
  case False
  then show ?thesis
    by (intro disjunctive_add_eq_xor [symmetric] bit_word_eqI) (auto simp: bit_simps bit_signMask)
next
  case True
  have "(v XOR signMask) + signMask = (v XOR signMask) XOR signMask"
    using True by (intro disjunctive_add_eq_xor bit_word_eqI) (auto simp: bit_simps bit_signMask)
  also have "\<dots> = v" by (simp add: xor.assoc)
  finally have "v XOR signMask = v - signMask" by (simp add: eq_diff_eq)
  also have "\<dots> = v + signMask" by (simp add: signMask_def)
  finally show ?thesis .
qed

lemma uint_add_signMask: "uint (v + signMask) = sint v + 2 ^ 63"
  by (simp add: sint_uint signed_take_bit_eq_take_bit_shift uint_word_ariths take_bit_eq_mod signMask_def)

lemma cmp_uint_less_iff: "EncodeIntToCmpUint v < EncodeIntToCmpUint w \<longleftrightarrow> sint v < sint w"
  by (simp add: EncodeIntToCmpUint_def xor_signMask word_less_def uint_add_signMask)

lemma DecodeCmp_EncodeCmp [simp, codec_simps]: "DecodeCmpUintToInt (EncodeIntToCmpUint v) = v"
  by (simp add: DecodeCmpUintToInt_def EncodeIntToCmpUint_def xor.assoc)

lemma EncodeCmp_DecodeCmp [simp, codec_simps]: "EncodeIntToCmpUint (DecodeCmpUintToInt v) = v"
  by (simp add: DecodeCmpUintToInt_def EncodeIntToCmpUint_def xor.assoc)

lemma sint_total: "v \<noteq> w \<Longrightarrow> sint (v::u64) < sint w \<or> sint w < sint v"
  by (metis linorder_neqE signed_word_eqI)

lemma not_less_not_iff: "NOT (u::u64) < NOT v \<longleftrightarrow> v < u"
  using unsigned_less [of u, where ?'a = nat] unsigned_less [of v, where ?'a = nat]
  by (auto simp: word_less_nat_alt unat_not)

interpretation cmp_int: memcomparable "\<lambda>_. True" "\<lambda>v w. sint v < sint w" "EncodeInt []" DecodeInt
  by unfold_locales
    (auto simp: EncodeInt_def DecodeInt_def lex_simps cmp_uint_less_iff dest: sint_total)

interpretation cmp_int_desc: memcomparable "\<lambda>_. True" "\<lambda>v w. sint w < sint v" "EncodeIntDesc []" DecodeIntDesc
  by unfold_locales
    (auto simp: EncodeIntDesc_def DecodeIntDesc_def lex_simps cmp_uint_less_iff not_less_not_iff dest: sint_total)

interpretation cmp_uint: memcomparable "\<lambda>_. True" "(<)" "EncodeUint []" DecodeUint
  by unfold_locales (auto simp: EncodeUint_def DecodeUint_def lex_simps)

interpretation cmp_uint_desc: memcomparable "\<lambda>_. True" "(>)" "EncodeUintDesc []" DecodeUintDesc
  by unfold_locales (auto simp: EncodeUintDesc_def DecodeUintDesc_def lex_simps not_less_not_iff)


section \<open>Varints decode\<close>

lemma bit_numeral_0x80: "bit (0x80 :: byte) n \<longleftrightarrow> n = 7"
proof -
  have "(0x80 :: byte) = push_bit 7 1" by (simp add: push_bit_eq_mult)
  then show ?thesis by (simp only: bit_simps) auto
qed
lemma bit_numeral_0x7f: "bit (0x7f :: byte) n \<longleftrightarrow> n < 7"
proof -
  have "(0x7f :: byte) = mask 7" by (simp add: mask_eq_exp_minus_1)
  then show ?thesis by (simp only: bit_simps) auto
qed
lemma cont_byte_low: "(ucast (x::u64) OR 0x80 :: byte) AND 0x7f = ucast (take_bit 7 x)"
  by (rule bit_word_eqI, simp only: bit_numeral_0x80 bit_numeral_0x7f bit_and_iff bit_or_iff bit_ucast_iff
      bit_take_bit_iff) auto
lemma cont_byte_high: "\<not> ucast (x::u64) OR (0x80 :: byte) < 0x80"
proof -
  have "0x80 = (ucast x OR 0x80) AND (0x80 :: byte)" by (rule bit_word_eqI) (auto simp: bit_simps)
  also have "\<dots> \<le> ucast x OR 0x80" by (rule word_and_le2)
  finally show ?thesis by simp
qed
lemma ucast_take_bit: "ucast (ucast (take_bit 7 x :: u64) :: byte) = take_bit 7 x"
  by (rule bit_word_eqI) (auto simp: bit_simps)
lemma unat_take_bit7: "unat (take_bit 7 (x::u64)) = unat x mod 128"
  by (simp only: unsigned_take_bit_eq) (simp add: take_bit_eq_mod)

lemma unat_eq_add_lt: "unat a + unat (b::u64) < 2 ^ 64 \<Longrightarrow> unat (a + b) = unat a + unat b"
  by (simp add: unat_word_ariths)

lemma varint_index_bound:
  assumes "2 ^ (7 * i) * n < (2::nat) ^ 64" "i = 0 \<or> 0 < n"
  shows "i \<le> 9 \<and> (i = 9 \<longrightarrow> n \<le> 1)"
proof (cases "i = 0")
  case False
  with assms(2) have n: "0 < n" by simp
  have "i \<le> 9"
  proof (rule ccontr)
    assume "\<not> i \<le> 9"
    then have "(2::nat) ^ 64 \<le> 2 ^ (7 * i)" by (intro power_increasing) auto
    also have "\<dots> \<le> 2 ^ (7 * i) * n" using n by simp
    finally show False using assms(1) by simp
  qed
  with assms(1) show ?thesis by auto
qed simp

lemma Uvarint_loop_PutUvarint:
  assumes "unat acc < 2 ^ (7 * i)" "unat acc + 2 ^ (7 * i) * unat x < 2 ^ 64" "i = 0 \<or> 0 < unat x"
  shows "Uvarint_loop (PutUvarint x @ rest) i acc (7 * i)
       = (acc + push_bit (7 * i) x, int i + int (length (PutUvarint x)))"
  using assms
proof (induction x arbitrary: acc i rule: PutUvarint.induct)
  case (1 x)
  show ?case
  proof (cases "0x80 \<le> x")
    case False
    then have x: "unat x < 128" by (simp add: word_le_nat_alt)
    have c: "ucast (ucast x :: byte) = x"
      using x by (simp add: word_unat_eq_iff unat_ucast_byte unat_to_byte)
    have b: "(ucast x :: byte) < 0x80" using x by (simp add: word_less_nat_alt unat_to_byte)
    have "i \<le> 9 \<and> (i = 9 \<longrightarrow> unat x \<le> 1)"
      using "1.prems"(2,3) by (intro varint_index_bound) auto
    then have "\<not> (9 < i \<or> i = 9 \<and> (1::byte) < ucast x)"
      using x by (auto simp: word_less_nat_alt unat_to_byte)
    then show ?thesis
      using False b c "1.prems"(1) by (simp add: PutUvarint.simps [of x] or_push_bit_add)
  next
    case True
    let ?low = "push_bit (7 * i) (take_bit 7 x)"
    let ?acc = "acc + ?low"
    have x128: "128 \<le> unat x" using True by (simp add: word_le_nat_alt)
    have p: "(2::nat) ^ (7 * Suc i) = 2 ^ (7 * i) * 128" by (simp add: power_add)
    have eq: "2 ^ (7 * i) * unat x
        = 2 ^ (7 * i) * (unat x mod 128) + 2 ^ (7 * Suc i) * (unat x div 128)"
      unfolding p mult.assoc distrib_left [symmetric] by simp
    have hi: "unat (drop_bit 7 x) = unat x div 128"
      by (simp only: unat_drop_bit_eq) (simp add: drop_bit_eq_div)
    have low: "unat ?low = 2 ^ (7 * i) * (unat x mod 128)"
      using "1.prems"(2) eq by (simp add: unat_push_bit unat_take_bit7)
    have acc: "unat ?acc = unat acc + 2 ^ (7 * i) * (unat x mod 128)"
      using "1.prems"(2) eq by (subst unat_eq_add_lt) (auto simp: low)
    have "2 ^ (7 * i) * (unat x mod 128) \<le> 2 ^ (7 * i) * 127" by (intro mult_left_mono) auto
    then have "unat ?acc < 2 ^ (7 * Suc i)" unfolding acc p using "1.prems"(1) by linarith
    moreover have "unat ?acc + 2 ^ (7 * Suc i) * unat (drop_bit 7 x) < 2 ^ 64"
      using "1.prems"(2) eq acc hi by simp
    moreover have "0 < unat (drop_bit 7 x)" using x128 by (simp only: hi)
    ultimately have IH: "Uvarint_loop (PutUvarint (drop_bit 7 x) @ rest) (Suc i) ?acc (7 * Suc i) =
       (?acc + push_bit (7 * Suc i) (drop_bit 7 x), int (Suc i) + int (length (PutUvarint (drop_bit 7 x))))"
      using "1.IH" [OF True, of ?acc "Suc i"] by blast
    have "push_bit (7 * i) x = ?low + push_bit (7 * Suc i) (drop_bit 7 x)"
    proof -
      have "x = push_bit 7 (drop_bit 7 x) + take_bit 7 x" by (simp only: bits_ident)
      then have "push_bit (7 * i) x = push_bit (7 * i) (push_bit 7 (drop_bit 7 x) + take_bit 7 x)"
        by (rule arg_cong)
      then show ?thesis by (simp only: push_bit_add push_bit_push_bit) (simp add: add.commute)
    qed
    then show ?thesis using True IH "1.prems"(1) cont_byte_high [of x]
      by (simp add: PutUvarint.simps [of x] cont_byte_low ucast_take_bit or_push_bit_add add_ac)
  qed
qed

lemma Uvarint_PutUvarint [simp, codec_simps]:
  "Uvarint (PutUvarint x @ rest) = (x, int (length (PutUvarint x)))"
  using Uvarint_loop_PutUvarint [of 0 0 x rest] unat_u64_less [of x] by (simp add: Uvarint_def)

lemma PutUvarint_not_Nil [simp]: "PutUvarint x \<noteq> []"
  by (subst PutUvarint.simps) simp

lemma sint_neg_iff_bit: "sint (x::u64) < 0 \<longleftrightarrow> bit x 63"
  by (simp add: sint_uint signed_take_bit_negative_iff bit_uint_iff)

lemma lt64_cases: "n < 64 \<longleftrightarrow> n < 63 \<or> n = (63::nat)"
  by auto

lemma zigzag_pos: "\<not> bit x 63 \<Longrightarrow> drop_bit 1 (push_bit 1 x) = (x::u64) \<and> push_bit 1 x AND 1 = 0"
  by (intro conjI bit_word_eqI; simp only: bit_simps o_apply) (auto simp: possible_bit_def lt64_cases)

lemma zigzag_neg:
  "bit x 63 \<Longrightarrow> NOT (drop_bit 1 (NOT (push_bit 1 (x::u64)))) = x \<and> NOT (push_bit 1 x) AND 1 \<noteq> 0"
proof
  assume b: "bit x 63"
  show "NOT (drop_bit 1 (NOT (push_bit 1 x))) = x"
    using b by (intro bit_word_eqI; simp only: bit_simps o_apply) (auto simp: possible_bit_def lt64_cases)
  have "bit (NOT (push_bit 1 x) AND 1) 0" by (simp only: bit_simps) (simp add: possible_bit_def)
  then show "NOT (push_bit 1 x) AND 1 \<noteq> 0" by (metis bit_0_eq bot_apply bot_bool_def)
qed

lemma Varint_PutVarint [simp, codec_simps]:
  "Varint (PutVarint x @ rest) = (x, int (length (PutVarint x)))"
  by (auto simp: Varint_def PutVarint_def Let_def sint_neg_iff_bit dest: zigzag_pos zigzag_neg)

section \<open>Comparable varints: round trip and order\<close>

lemma put_be_signed_eq: "n \<le> 8 \<Longrightarrow> put_be_signed n v = put_be n v"
proof (induction n)
  case (Suc n)
  have "ucast (signed_drop_bit (8 * n) v) = (ucast (drop_bit (8 * n) v) :: byte)"
    using Suc.prems by (intro bit_word_eqI) (auto simp: bit_ucast_iff bit_signed_drop_bit_iff bit_drop_bit_eq)
  then show ?case using Suc by simp
qed simp

definition cv_lo :: "nat \<Rightarrow> nat" where
  "cv_lo n = (if n = 1 then 240 else 256 ^ (n - 1))"

lemma EncodeComparableUvarint_cases:
  obtains
    (small) "unat v \<le> 239" "unat (ucast v + 8 :: byte) = unat v + 8"
      "\<And>b. EncodeComparableUvarint b v = b @ [ucast v + 8]"
  | (big) n t where "1 \<le> n" "n \<le> 8" "cv_lo n \<le> unat v" "unat v < 256 ^ n" "unat (t::byte) = 247 + n"
      "\<And>b. EncodeComparableUvarint b v = b @ t # put_be n v"
proof -
  note defs = EncodeComparableUvarint_def positiveTagStart_def negativeTagEnd_def word_le_nat_alt cv_lo_def
  have v: "unat v < 256 ^ 8" using unat_u64_less [of v] by simp
  consider (0) "unat v \<le> 239" | (1) "240 \<le> unat v" "unat v < 256 ^ 1"
    | (2) "256 ^ 1 \<le> unat v" "unat v < 256 ^ 2" | (3) "256 ^ 2 \<le> unat v" "unat v < 256 ^ 3"
    | (4) "256 ^ 3 \<le> unat v" "unat v < 256 ^ 4" | (5) "256 ^ 4 \<le> unat v" "unat v < 256 ^ 5"
    | (6) "256 ^ 5 \<le> unat v" "unat v < 256 ^ 6" | (7) "256 ^ 6 \<le> unat v" "unat v < 256 ^ 7"
    | (8) "256 ^ 7 \<le> unat v"
    by linarith
  then show thesis
  proof cases
    case 0
    then show ?thesis by (intro small) (simp_all add: defs unat_word_ariths unat_to_byte)
  next
    case 1 then show ?thesis by (intro big [of 1 248]) (simp_all add: defs)
  next
    case 2 then show ?thesis by (intro big [of 2 249]) (simp_all add: defs)
  next
    case 3 then show ?thesis by (intro big [of 3 250]) (simp_all add: defs)
  next
    case 4 then show ?thesis by (intro big [of 4 251]) (simp_all add: defs)
  next
    case 5 then show ?thesis by (intro big [of 5 252]) (simp_all add: defs)
  next
    case 6 then show ?thesis by (intro big [of 6 253]) (simp_all add: defs)
  next
    case 7 then show ?thesis by (intro big [of 7 254]) (simp_all add: defs)
  next
    case 8 then show ?thesis using v by (intro big [of 8 255]) (simp_all add: defs)
  qed
qed

lemma EncodeComparableVarint_neg_cases:
  assumes "sint v < 0"
  obtains n t where "1 \<le> n" "n \<le> 8" "256 ^ (n - 1) \<le> - sint v" "- sint v < 256 ^ n"
    "unat (t::byte) = 8 - n" "\<And>b. EncodeComparableVarint b v = b @ t # put_be n v"
proof -
  note defs = EncodeComparableVarint_def negativeTagEnd_def put_be_signed_eq
  have v: "- sint v < 256 ^ 8" using sint_ge [of v] by simp
  consider (1) "- sint v < 256 ^ 1"
    | (2) "256 ^ 1 \<le> - sint v" "- sint v < 256 ^ 2" | (3) "256 ^ 2 \<le> - sint v" "- sint v < 256 ^ 3"
    | (4) "256 ^ 3 \<le> - sint v" "- sint v < 256 ^ 4" | (5) "256 ^ 4 \<le> - sint v" "- sint v < 256 ^ 5"
    | (6) "256 ^ 5 \<le> - sint v" "- sint v < 256 ^ 6" | (7) "256 ^ 6 \<le> - sint v" "- sint v < 256 ^ 7"
    | (8) "256 ^ 7 \<le> - sint v"
    by linarith
  then show thesis
  proof cases
    case 1 then show ?thesis using assms by (intro that [of 1 7]) (simp_all add: defs)
  next
    case 2 then show ?thesis using assms by (intro that [of 2 6]) (simp_all add: defs)
  next
    case 3 then show ?thesis using assms by (intro that [of 3 5]) (simp_all add: defs)
  next
    case 4 then show ?thesis using assms by (intro that [of 4 4]) (simp_all add: defs)
  next
    case 5 then show ?thesis using assms by (intro that [of 5 3]) (simp_all add: defs)
  next
    case 6 then show ?thesis using assms by (intro that [of 6 2]) (simp_all add: defs)
  next
    case 7 then show ?thesis using assms by (intro that [of 7 1]) (simp_all add: defs)
  next
    case 8 then show ?thesis using assms v by (intro that [of 8 0]) (simp_all add: defs)
  qed
qed

lemma sint_shift: "sint (v::u64) = (uint v + 2 ^ 63) mod 2 ^ 64 - 2 ^ 63"
  by (simp add: sint_uint signed_take_bit_eq_take_bit_shift take_bit_eq_mod)

lemma shift_mod:
  fixes x :: int
  assumes "0 \<le> x" "x < 2 ^ 64"
  shows "(x + 2 ^ 63) mod 2 ^ 64 - 2 ^ 63 = (if x < 2 ^ 63 then x else x - 2 ^ 64)"
proof (cases "x < 2 ^ 63")
  case True
  with assms show ?thesis by simp
next
  case False
  have "(x + 2 ^ 63) mod 2 ^ 64 = (x + 2 ^ 63 - 2 ^ 64) mod 2 ^ 64" by (simp only: minus_mod_self2)
  also have "\<dots> = x + 2 ^ 63 - 2 ^ 64" using False assms by (intro mod_pos_pos_trivial) auto
  finally show ?thesis using False by simp
qed

lemma sint_if: "sint (v::u64) = (if uint v < 2 ^ 63 then uint v else uint v - 2 ^ 64)"
  unfolding sint_shift using uint_lt2p [of v] uint_ge_0 [of v] by (intro shift_mod) auto

lemma sint_nonneg_unat: "0 \<le> sint (v::u64) \<Longrightarrow> sint v = int (unat v)"
  using uint_lt2p [of v] by (auto simp: sint_if split: if_splits)

lemma sint_neg_unat: "sint (v::u64) < 0 \<Longrightarrow> sint v = int (unat v) - 2 ^ 64"
  using uint_ge_0 [of v] by (auto simp: sint_if split: if_splits)

lemma pow256_dvd: "n \<le> 8 \<Longrightarrow> (256::nat) ^ n dvd 2 ^ 64"
proof -
  assume "n \<le> 8"
  then have "(256::nat) ^ n dvd 256 ^ 8" by (rule le_imp_power_dvd)
  then show ?thesis by simp
qed

lemma neg_low_digits:
  fixes v :: u64
  assumes "sint v < 0" "- sint v < 256 ^ n" "n \<le> 8"
  shows "int (unat v mod 256 ^ n) = 256 ^ n + sint v"
proof -
  obtain k where "(2::nat) ^ 64 = 256 ^ n * k" using pow256_dvd [OF assms(3)] by (rule dvdE)
  then have k: "(2::int) ^ 64 = 256 ^ n * int k" by (metis of_nat_mult of_nat_numeral of_nat_power)
  have "int (unat v) = (256 ^ n + sint v) + 256 ^ n * (int k - 1)"
    unfolding sint_neg_unat [OF assms(1)] k by (simp add: right_diff_distrib del: of_nat_unat)
  then have "int (unat v) mod 256 ^ n = (256 ^ n + sint v) mod 256 ^ n"
    by (simp only: mod_mult_self2)
  also have "\<dots> = 256 ^ n + sint v"
    using assms(1,2) by (intro mod_pos_pos_trivial) auto
  finally show ?thesis by (simp only: zmod_int of_nat_power of_nat_numeral)
qed

lemma neg_decode:
  assumes "sint v < 0" "- sint v < 256 ^ n" "n \<le> 8"
  shows "foldl be_step (- 1) (put_be n v) = v"
proof -
  have "int (unat (foldl be_step (- 1) (put_be n v))) =
      ((2 ^ 64 - 1) * 256 ^ n + int (unat v mod 256 ^ n)) mod 2 ^ 64"
    by (simp add: unat_foldl_be_step unat_m1 be_val_put_be zmod_int del: of_nat_unat)
  also have "(2 ^ 64 - 1) * 256 ^ n + int (unat v mod 256 ^ n) = int (unat v) + 2 ^ 64 * (256 ^ n - 1)"
    unfolding neg_low_digits [OF assms] sint_neg_unat [OF assms(1)]
    by (simp add: left_diff_distrib right_diff_distrib del: of_nat_unat)
  also have "(int (unat v) + 2 ^ 64 * (256 ^ n - 1)) mod 2 ^ 64 = int (unat v)"
    unfolding mod_mult_self2 using uint_lt2p [of v] uint_ge_0 [of v] by simp
  finally show ?thesis unfolding word_unat_eq_iff of_nat_eq_iff .
qed

lemma pos_decode: "unat v < 256 ^ n \<Longrightarrow> foldl be_step 0 (put_be n v) = v"
  using unat_u64_less [of v] by (simp add: word_unat_eq_iff unat_foldl_be_step be_val_put_be)

lemma DecodeComparableUvarint_Encode [codec_simps]:
  "DecodeComparableUvarint (EncodeComparableUvarint [] v @ rest) = Inr (rest, v)"
proof (cases v rule: EncodeComparableUvarint_cases)
  case small
  then have "ucast (ucast v + 8 :: byte) - 8 = v"
    by (simp add: word_unat_eq_iff unat_ucast_byte unat_sub_if_size)
  then show ?thesis using small
    by (simp add: DecodeComparableUvarint_def negativeTagEnd_def positiveTagStart_def)
next
  case (big n t)
  then show ?thesis
    by (simp add: DecodeComparableUvarint_def negativeTagEnd_def positiveTagStart_def pos_decode)
qed

lemma cv_lo_mono: "1 \<le> n \<Longrightarrow> n < m \<Longrightarrow> 256 ^ n \<le> cv_lo m"
  by (auto simp: cv_lo_def intro: power_increasing)

lemma cv_lo_ge: "240 \<le> cv_lo n" if "1 \<le> n"
proof (cases "n = 1")
  case False
  with that have "(256::nat) ^ 1 \<le> 256 ^ (n - 1)" by (intro power_increasing) auto
  then show ?thesis using False by (simp add: cv_lo_def)
qed (simp add: cv_lo_def)

lemma EncodeComparableUvarint_mono:
  assumes "v < w"
  shows "EncodeComparableUvarint [] v @ x < EncodeComparableUvarint [] w @ y"
proof -
  have lt: "unat v < unat w" using assms by (simp add: word_less_nat_alt)
  show ?thesis
  proof (cases v rule: EncodeComparableUvarint_cases)
    case v: small
    show ?thesis
      using v lt by (cases w rule: EncodeComparableUvarint_cases) (simp_all add: word_less_nat_alt)
  next
    case v: (big n t)
    show ?thesis
    proof (cases w rule: EncodeComparableUvarint_cases)
      case small
      then show ?thesis using v(3) lt cv_lo_ge [OF v(1)] by linarith
    next
      case w: (big m t')
      show ?thesis
      proof (cases "n = m")
        case True
        then have "t = t'" using v(5) w(5) by (simp add: word_unat_eq_iff)
        then show ?thesis using v(4,6) w(4,6) lt True by (simp add: lex_append_same_length put_be_less_iff)
      next
        case False
        have "n < m"
          using False cv_lo_mono [of m n] v(3) w(1,4) lt by (metis leD le_trans linorder_neqE_nat order_less_trans)
        then have "t < t'" using v(5) w(5) by (simp add: word_less_nat_alt)
        then show ?thesis using v(6) w(6) by simp
      qed
    qed
  qed
qed

lemma EncodeComparableVarint_nonneg: "0 \<le> sint v \<Longrightarrow> EncodeComparableVarint b v = EncodeComparableUvarint b v"
  by (simp add: EncodeComparableVarint_def)

lemma sint_le_MaxInt64: "v \<le> (MaxInt64::u64) \<longleftrightarrow> 0 \<le> sint v"
  using uint_lt2p [of v] by (auto simp: sint_if word_le_def)

lemma EncodeComparableVarint_mono:
  assumes "sint v < sint w"
  shows "EncodeComparableVarint [] v @ x < EncodeComparableVarint [] w @ y"
proof (cases "0 \<le> sint v")
  case True
  then have "v < w" using assms sint_nonneg_unat [of v] sint_nonneg_unat [of w]
    by (simp add: word_less_nat_alt del: of_nat_unat)
  then show ?thesis using True assms by (simp add: EncodeComparableVarint_nonneg EncodeComparableUvarint_mono)
next
  case False
  then have neg: "sint v < 0" by simp
  then obtain n t where v: "1 \<le> n" "n \<le> 8" "256 ^ (n - 1) \<le> - sint v" "- sint v < 256 ^ n"
    "unat (t::byte) = 8 - n" "\<And>b. EncodeComparableVarint b v = b @ t # put_be n v"
    by (rule EncodeComparableVarint_neg_cases) blast
  show ?thesis
  proof (cases "0 \<le> sint w")
    case True
    then show ?thesis using v
      by (cases w rule: EncodeComparableUvarint_cases) (auto simp: EncodeComparableVarint_nonneg word_less_nat_alt)
  next
    case False
    then have negw: "sint w < 0" by simp
    then obtain m t' where w: "1 \<le> m" "m \<le> 8" "256 ^ (m - 1) \<le> - sint w" "- sint w < 256 ^ m"
      "unat (t'::byte) = 8 - m" "\<And>b. EncodeComparableVarint b w = b @ t' # put_be m w"
      by (rule EncodeComparableVarint_neg_cases) blast
    show ?thesis
    proof (cases "m = n")
      case True
      then have "t = t'" using v(5) w(5) by (simp add: word_unat_eq_iff)
      moreover have "int (unat v mod 256 ^ n) < int (unat w mod 256 ^ n)"
        unfolding neg_low_digits [OF neg v(4,2)] neg_low_digits [OF negw w(4,2), unfolded True] using assms by simp
      ultimately show ?thesis using v(6) w(6) True
        by (simp add: lex_append_same_length put_be_less_iff)
    next
      case False
      have "m < n"
      proof (rule ccontr)
        assume "\<not> m < n"
        then have "(256::int) ^ n \<le> 256 ^ (m - 1)" using False by (intro power_increasing) auto
        then show False using v(4) w(3) assms by linarith
      qed
      then have "t < t'" using v(2,5) w(1,5) by (simp add: word_less_nat_alt)
      then show ?thesis using v(6) w(6) by simp
    qed
  qed
qed

interpretation cmp_uvarint: memcomparable "\<lambda>_. True" "(<)" "EncodeComparableUvarint []" DecodeComparableUvarint
  by unfold_locales (auto simp: codec_simps EncodeComparableUvarint_mono)

lemma DecodeVarint_Encode [codec_simps]: "DecodeVarint (EncodeVarint [] v @ rest) = Inr (rest, v)"
proof -
  have "PutVarint v \<noteq> []" using PutUvarint_not_Nil by (simp add: PutVarint_def Let_def)
  then show ?thesis by (simp add: DecodeVarint_def EncodeVarint_def)
qed

lemma DecodeUvarint_Encode [codec_simps]: "DecodeUvarint (EncodeUvarint [] v @ rest) = Inr (rest, v)"
  by (simp add: DecodeUvarint_def EncodeUvarint_def)

lemma sint_of_nat_u64: "n < 2 ^ 63 \<Longrightarrow> sint (of_nat n :: u64) = int n"
  by (simp add: sint_if unsigned_of_nat take_bit_nat_eq_self)

section \<open>Properties\<close>

text \<open>Comparable varints of signed integers compare byte-wise exactly as the integers do,
  whatever bytes follow them, so columns encoded with them can be concatenated in a key.\<close>

lemma EncodeComparableVarint_order:
  "EncodeComparableVarint [] v @ x < EncodeComparableVarint [] w @ y \<longleftrightarrow>
     sint v < sint w \<or> v = w \<and> x < y"
  using EncodeComparableVarint_mono [of v w x y] EncodeComparableVarint_mono [of w v y x] sint_total [of v w]
  by (cases "v = w") (auto simp: lex_append_left)

text \<open>C40: Decoding an encoded comparable varint returns the value, but for values between
  0 and 239 the decoder hands back its whole input as the remainder: the tag byte is not consumed.\<close>

theorem DecodeComparableVarint_remainder:
  "DecodeComparableVarint (EncodeComparableVarint [] v @ rest) =
     Inr (if 0 \<le> sint v \<and> sint v \<le> 239 then EncodeComparableVarint [] v @ rest else rest, v)"
proof (cases "0 \<le> sint v")
  case True
  note nn = sint_nonneg_unat [OF True]
  show ?thesis
  proof (cases v rule: EncodeComparableUvarint_cases)
    case small
    then have "ucast (ucast v + 8 :: byte) - 8 = v"
      by (simp add: word_unat_eq_iff unat_ucast_byte unat_sub_if_size)
    then show ?thesis using small True nn
      by (simp add: DecodeComparableVarint_def EncodeComparableVarint_nonneg negativeTagEnd_def positiveTagStart_def del: of_nat_unat)
  next
    case (big n t)
    have "\<not> sint v \<le> 239" using cv_lo_ge [OF big(1)] big(3) nn by linarith
    moreover have "\<not> MaxInt64 < v" using True by (simp add: not_less sint_le_MaxInt64)
    ultimately show ?thesis using big(1,2,4,5,6) True
      by (simp add: DecodeComparableVarint_def EncodeComparableVarint_nonneg negativeTagEnd_def positiveTagStart_def pos_decode)
  qed
next
  case False
  then have neg: "sint v < 0" by simp
  then obtain n t where c: "1 \<le> n" "n \<le> 8" "- sint v < 256 ^ n"
    "unat (t::byte) = 8 - n" "\<And>b. EncodeComparableVarint b v = b @ t # put_be n v"
    by (rule EncodeComparableVarint_neg_cases) blast
  have "\<not> v \<le> MaxInt64" using False by (simp add: sint_le_MaxInt64)
  then show ?thesis using c False
    by (simp add: DecodeComparableVarint_def negativeTagEnd_def positiveTagStart_def neg_decode [OF neg c(3,2)])
qed

text \<open>The fixed-width integer encodings, ascending and descending, compare as the signed and
  unsigned integers do, and decode to the integer and the bytes that follow it.\<close>

lemma EncodeInt_memcomparable:
  "(EncodeInt [] v @ x < EncodeInt [] w @ y \<longleftrightarrow> sint v < sint w \<or> v = w \<and> x < y) \<and>
   (EncodeIntDesc [] v @ x < EncodeIntDesc [] w @ y \<longleftrightarrow> sint w < sint v \<or> v = w \<and> x < y) \<and>
   (EncodeUint [] v @ x < EncodeUint [] w @ y \<longleftrightarrow> v < w \<or> v = w \<and> x < y) \<and>
   (EncodeUintDesc [] v @ x < EncodeUintDesc [] w @ y \<longleftrightarrow> w < v \<or> v = w \<and> x < y) \<and>
   DecodeInt (EncodeInt [] v @ x) = Inr (x, v) \<and> DecodeIntDesc (EncodeIntDesc [] v @ x) = Inr (x, v) \<and>
   DecodeUint (EncodeUint [] v @ x) = Inr (x, v) \<and> DecodeUintDesc (EncodeUintDesc [] v @ x) = Inr (x, v)"
  by (simp add: cmp_int.enc_less_iff cmp_int_desc.enc_less_iff cmp_uint.enc_less_iff cmp_uint_desc.enc_less_iff
      cmp_int.dec_enc cmp_int_desc.dec_enc cmp_uint.dec_enc cmp_uint_desc.dec_enc)

text \<open>Varints, signed and unsigned, decode to the value that was encoded and leave the
  bytes after it.\<close>

lemma DecodeVarint_roundtrip:
  "DecodeVarint (EncodeVarint [] v @ rest) = Inr (rest, v) \<and>
   DecodeUvarint (EncodeUvarint [] v @ rest) = Inr (rest, v)"
  by (simp add: DecodeVarint_Encode DecodeUvarint_Encode)

end
