(* ===== verification/Bytes_Codec.thy ===== *)
theory Bytes_Codec
  imports Number_Codec
begin

text \<open>
  \<open>src/util/codec/bytes.go\<close>: the memory-comparable group encoding of byte strings,
  ascending and descending, and the compact length-prefixed encoding.  The \<open>buf\<close>
  argument of the decoders and \<open>reallocBytes\<close> only choose where the result is stored;
  the model keeps the bytes.
\<close>

unbundle bit_operations_syntax

section \<open>Operations\<close>

definition encGroupSize :: nat where "encGroupSize = 8"
definition encMarker :: byte where "encMarker = 0xFF"
definition encPad :: byte where "encPad = 0"

text \<open>The loop of \<open>EncodeBytes\<close>; \<open>rest\<close> is \<open>data[idx:]\<close>.\<close>

function EncodeBytes_loop :: "bytes \<Rightarrow> bytes \<Rightarrow> bytes" where
  "EncodeBytes_loop result rest =
     (let remain = length rest in
      if remain \<ge> encGroupSize
      then EncodeBytes_loop (result @ take encGroupSize rest @ [encMarker]) (drop encGroupSize rest)
      else let padCount = encGroupSize - remain
        in result @ rest @ replicate padCount encPad @ [encMarker - of_nat padCount])"
  by pat_completeness auto
termination
  by (relation "measure (\<lambda>(_, rest). length rest)") (auto simp: encGroupSize_def)

declare EncodeBytes_loop.simps [simp del]

definition EncodeBytes :: "bytes \<Rightarrow> bytes \<Rightarrow> bytes" where
  "EncodeBytes b data = EncodeBytes_loop b data"

text \<open>
  \<open>fastReverseBytes\<close> reads the slice as machine words (little endian, eight bytes on
  amd64), complements each word, and finishes byte by byte; \<open>safeReverseBytes\<close> goes
  byte by byte.  \<open>reverseBytes\<close> picks one by architecture.
\<close>

definition wordSize :: nat where "wordSize = 8"

definition load_word :: "bytes \<Rightarrow> u64" where "load_word b = Uint64 (rev b)"
definition store_word :: "u64 \<Rightarrow> bytes" where "store_word w = rev (PutUint64 w)"

definition safeReverseBytes :: "bytes \<Rightarrow> bytes" where
  "safeReverseBytes b = map NOT b"

fun fastReverseWords :: "nat \<Rightarrow> bytes \<Rightarrow> bytes" where
  "fastReverseWords 0 b = safeReverseBytes b"
| "fastReverseWords (Suc w) b =
     store_word (NOT (load_word (take wordSize b))) @ fastReverseWords w (drop wordSize b)"

definition fastReverseBytes :: "bytes \<Rightarrow> bytes" where
  "fastReverseBytes b = fastReverseWords (length b div wordSize) b"

definition reverseBytes :: "bool \<Rightarrow> bytes \<Rightarrow> bytes" where
  "reverseBytes supportsUnaligned b = (if supportsUnaligned then fastReverseBytes b else safeReverseBytes b)"

function decodeBytes_loop :: "bytes \<Rightarrow> bytes \<Rightarrow> bool \<Rightarrow> codec_err + bytes \<times> bytes" where
  "decodeBytes_loop b buf reverse =
     (if length b < encGroupSize + 1 then Inl InsufficientBytes
      else let
          groupBytes = take (encGroupSize + 1) b;
          group = take encGroupSize groupBytes;
          marker = groupBytes ! encGroupSize;
          padCount = (if reverse then marker else encMarker - marker)
        in if unat padCount > encGroupSize then Inl (InvalidMarker groupBytes)
        else let
            realGroupSize = encGroupSize - unat padCount;
            buf' = buf @ take realGroupSize group;
            b' = drop (encGroupSize + 1) b
          in if padCount \<noteq> 0
             then (if \<forall>v \<in> set (drop realGroupSize group). v = (if reverse then encMarker else encPad)
                   then Inr (b', buf') else Inl (InvalidPadding groupBytes))
             else decodeBytes_loop b' buf' reverse)"
  by pat_completeness auto
termination
  by (relation "measure (\<lambda>(b, _, _). length b)") (auto simp: encGroupSize_def)

declare decodeBytes_loop.simps [simp del]

definition decodeBytes :: "bool \<Rightarrow> bytes \<Rightarrow> bool \<Rightarrow> codec_err + bytes \<times> bytes" where
  "decodeBytes supportsUnaligned b reverse =
     (case decodeBytes_loop b [] reverse of
        Inl e \<Rightarrow> Inl e
      | Inr (b', buf) \<Rightarrow> Inr (b', if reverse then reverseBytes supportsUnaligned buf else buf))"

definition DecodeBytes :: "bytes \<Rightarrow> codec_err + bytes \<times> bytes" where
  "DecodeBytes b = decodeBytes True b False"

definition EncodeBytesDesc :: "bytes \<Rightarrow> bytes \<Rightarrow> bytes" where
  "EncodeBytesDesc b data =
     (let n = length b; b' = EncodeBytes b data in take n b' @ reverseBytes True (drop n b'))"

definition DecodeBytesDesc :: "bytes \<Rightarrow> codec_err + bytes \<times> bytes" where
  "DecodeBytesDesc b = decodeBytes True b True"

definition EncodeCompactBytes :: "bytes \<Rightarrow> bytes \<Rightarrow> bytes" where
  "EncodeCompactBytes b data = EncodeVarint b (of_nat (length data)) @ data"

text \<open>A negative length passes the guard and the slice expression \<open>b[n:]\<close> panics.\<close>

definition DecodeCompactBytes :: "bytes \<Rightarrow> codec_err + bytes \<times> bytes" where
  "DecodeCompactBytes b =
     (case DecodeVarint b of
        Inl e \<Rightarrow> Inl e
      | Inr (b', n) \<Rightarrow>
          if int (length b') < sint n then Inl InsufficientBytes
          else if sint n < 0 then Inl Panic
          else Inr (drop (nat (sint n)) b', take (nat (sint n)) b'))"

section \<open>The word-at-a-time complement\<close>

lemma put_be_not: "n \<le> 8 \<Longrightarrow> put_be n (NOT v) = map NOT (put_be n v)"
proof (induction n)
  case (Suc n)
  have "ucast (drop_bit (8 * n) (NOT v)) = NOT (ucast (drop_bit (8 * n) v) :: byte)"
    using Suc.prems
    by (intro bit_word_eqI) (simp only: bit_ucast_iff bit_not_iff bit_drop_bit_eq o_apply, auto)
  then show ?case using Suc by simp
qed simp

lemma PutUint64_not: "PutUint64 (NOT v) = map NOT (PutUint64 v)"
  by (simp add: PutUint64_def put_be_not)

lemma store_not_load: "length b = 8 \<Longrightarrow> store_word (NOT (load_word b)) = safeReverseBytes b"
  by (simp add: store_word_def load_word_def safeReverseBytes_def PutUint64_not PutUint64_Uint64 rev_map)

lemma fastReverseWords_eq: "w * 8 \<le> length b \<Longrightarrow> fastReverseWords w b = safeReverseBytes b"
proof (induction w arbitrary: b)
  case (Suc w)
  have "fastReverseWords (Suc w) b = safeReverseBytes (take 8 b) @ safeReverseBytes (drop 8 b)"
    using Suc by (simp add: wordSize_def store_not_load)
  then show ?case by (simp add: safeReverseBytes_def take_map drop_map flip: map_append)
qed simp

lemma fastReverseBytes_eq: "fastReverseBytes b = map NOT b"
  by (simp add: fastReverseBytes_def fastReverseWords_eq wordSize_def safeReverseBytes_def)

lemma reverseBytes_eq [codec_simps]: "reverseBytes u b = map NOT b"
  by (simp add: reverseBytes_def fastReverseBytes_eq safeReverseBytes_def)

section \<open>Group encoding: shape, round trip, order\<close>

text \<open>\<open>pad n d\<close> is the group of \<open>n\<close> bytes that \<open>d\<close> starts with, zero padded.\<close>

fun pad :: "nat \<Rightarrow> bytes \<Rightarrow> bytes" where
  "pad 0 d = []"
| "pad (Suc n) [] = 0 # pad n []"
| "pad (Suc n) (x # xs) = x # pad n xs"

lemma pad_Nil: "pad n [] = replicate n 0"
  by (induction n) auto

lemma pad_eq: "pad n d = take n d @ replicate (n - length d) 0"
  by (induction n d rule: pad.induct) (auto simp: pad_Nil)

lemma length_pad [simp, len_simps]: "length (pad n d) = n"
  by (simp add: pad_eq)

text \<open>The encoding without the accumulator: one padded group and its marker at a time.\<close>

function groups :: "bytes \<Rightarrow> bytes" where
  "groups d = pad 8 d @ (if length d < 8 then [247 + of_nat (length d)] else 255 # groups (drop 8 d))"
  by pat_completeness auto
termination
  by (relation "measure length") auto

declare groups.simps [simp del]

lemma pad_marker: "n \<le> 8 \<Longrightarrow> 0xFF - of_nat (8 - n) = (247 + of_nat n :: byte)"
  by (simp add: of_nat_diff)

lemma EncodeBytes_loop_groups: "EncodeBytes_loop b d = b @ groups d"
proof (induction b d rule: EncodeBytes_loop.induct)
  case (1 result rest)
  show ?case
  proof (cases "length rest \<ge> encGroupSize")
    case True
    then have "EncodeBytes_loop result rest = result @ take 8 rest @ 255 # groups (drop 8 rest)"
      using 1 [OF refl True] by (simp add: EncodeBytes_loop.simps [of result rest] encGroupSize_def encMarker_def)
    then show ?thesis using True by (simp add: groups.simps [of rest] pad_eq encGroupSize_def)
  next
    case False
    then show ?thesis
      by (simp add: EncodeBytes_loop.simps [of result rest] groups.simps [of rest] pad_eq pad_marker
          encGroupSize_def encMarker_def encPad_def Let_def)
  qed
qed

lemma EncodeBytes_groups [codec_simps]: "EncodeBytes b d = b @ groups d"
  unfolding EncodeBytes_def by (rule EncodeBytes_loop_groups)

lemma EncodeBytesDesc_groups [codec_simps]: "EncodeBytesDesc b d = b @ map NOT (groups d)"
  by (simp add: EncodeBytesDesc_def EncodeBytes_groups reverseBytes_eq)

lemma length_groups [len_simps]: "length (groups d) = (length d div 8 + 1) * 9"
proof (induction d rule: groups.induct)
  case (1 d)
  show ?case
  proof (cases "length d < 8")
    case False
    then have "length d div 8 = Suc ((length d - 8) div 8)" by (simp add: le_div_geq)
    then show ?thesis using 1 [OF False] False by (subst groups.simps) simp
  qed (subst groups.simps, simp)
qed

text \<open>Stored complemented or not, the decoder reads back what was encoded.\<close>

lemma map_not_not [simp]: "map (NOT \<circ> NOT) (d::bytes) = d"
  by (simp add: comp_def)

lemma not_byte: "NOT (m::byte) = 255 - m"
  by (simp add: not_eq_complement) 

definition stored :: "bool \<Rightarrow> bytes \<Rightarrow> bytes" where
  "stored reverse d = (if reverse then map NOT d else d)"

lemma stored_append: "stored r (xs @ ys) = stored r xs @ stored r ys"
  by (simp add: stored_def)

lemma decode_group:
  assumes "length g = 8"
  shows "decodeBytes_loop (g @ m # b) buf r =
    (let pc = (if r then m else 255 - m) in
     if unat pc > 8 then Inl (InvalidMarker (g @ [m]))
     else if pc \<noteq> 0
       then (if \<forall>v \<in> set (drop (8 - unat pc) g). v = (if r then 255 else 0)
             then Inr (b, buf @ take (8 - unat pc) g) else Inl (InvalidPadding (g @ [m])))
       else decodeBytes_loop b (buf @ take (8 - unat pc) g) r)"
proof -
  have "take (8 + 1) (g @ m # b) = g @ [m]" "drop (8 + 1) (g @ m # b) = b" "(g @ [m]) ! 8 = m"
    "\<not> length (g @ m # b) < 8 + 1" "take 8 (g @ [m]) = g"
    using assms by (simp_all add: nth_append)
  then show ?thesis
    unfolding decodeBytes_loop.simps [of "g @ m # b"] encGroupSize_def encMarker_def encPad_def Let_def
    by (simp only: if_False)
qed

lemma decode_last:
  assumes "length g = 8" "p = (if r then m else 255 - m)" "unat p \<le> 8" "unat p \<noteq> 0"
    "set (drop (8 - unat p) g) \<subseteq> {if r then 255 else 0}"
  shows "decodeBytes_loop (g @ m # b) buf r = Inr (b, buf @ take (8 - unat p) g)"
proof -
  have "p \<noteq> 0" using assms(4) by auto
  moreover have "\<forall>v \<in> set (drop (8 - unat p) g). v = (if r then 255 else 0)" using assms(5) by blast
  ultimately show ?thesis
    unfolding decode_group [OF assms(1)] Let_def assms(2) [symmetric] using assms(3) by simp
qed

lemma unat_pad_count: "n \<le> 8 \<Longrightarrow> unat (8 - of_nat n :: byte) = 8 - n"
proof -
  assume n: "n \<le> 8"
  have "(8 - of_nat n :: byte) = of_nat (8 - n)" using n by (simp add: of_nat_diff)
  then show ?thesis by (simp add: unat_of_nat)
qed

lemma decode_groups: "decodeBytes_loop (stored r (groups d) @ rest) buf r = Inr (rest, buf @ stored r d)"
proof (induction d arbitrary: buf rule: groups.induct)
  case (1 d)
  let ?f = "\<lambda>x::byte. if r then NOT x else x"
  have f: "stored r = map ?f" by (auto simp: stored_def fun_eq_iff)
  have flip: "(if r then NOT m else 255 - m) = 255 - m" for m :: byte by (simp add: not_byte)
  have m: "(if r then ?f m else 255 - ?f m) = 255 - m" for m by (simp add: not_byte)
  show ?case
  proof (cases "length d < 8")
    case True
    have "decodeBytes_loop (stored r (groups d) @ rest) buf r =
      decodeBytes_loop (map ?f (pad 8 d) @ ?f (247 + of_nat (length d)) # rest) buf r"
      using True by (simp add: groups.simps [of d] f)
    also have "\<dots> = Inr (rest, buf @ stored r d)"
      using True by (subst decode_last [OF _ m [symmetric]])
        (auto simp: unat_pad_count pad_eq f not_byte drop_map take_map)
    finally show ?thesis .
  next
    case False
    have "decodeBytes_loop (stored r (groups d) @ rest) buf r =
      decodeBytes_loop (map ?f (pad 8 d) @ ?f 255 # stored r (groups (drop 8 d)) @ rest) buf r"
      using False by (simp add: groups.simps [of d] f)
    also have "\<dots> = decodeBytes_loop (stored r (groups (drop 8 d)) @ rest) (buf @ stored r (take 8 d)) r"
      using False m [of 255] by (subst decode_group) (simp_all add: Let_def pad_eq f)
    also have "\<dots> = Inr (rest, buf @ stored r (take 8 d @ drop 8 d))"
      using 1 [OF False] by (simp only: stored_append append_assoc)
    finally show ?thesis by simp
  qed
qed

lemma DecodeBytes_groups [codec_simps]: "DecodeBytes (groups d @ rest) = Inr (rest, d)"
  using decode_groups [of False d rest "[]"] by (simp add: DecodeBytes_def decodeBytes_def stored_def)

lemma DecodeBytesDesc_groups [codec_simps]: "DecodeBytesDesc (map NOT (groups d) @ rest) = Inr (rest, d)"
  using decode_groups [of True d rest "[]"]
  by (simp add: DecodeBytesDesc_def decodeBytes_def stored_def reverseBytes_eq)

lemma pad_less:
  "d < d' \<Longrightarrow> pad n d < pad n d' \<or> pad n d = pad n d' \<and>
     (length d < n \<and> length d < length d' \<or>
      n \<le> length d \<and> n \<le> length d' \<and> drop n d < drop n d')"
proof (induction n arbitrary: d d')
  case (Suc n)
  show ?case
  proof (cases d)
    case Nil
    then obtain y ys where d': "d' = y # ys" using Suc.prems by (cases d') auto
    have "pad n [] \<le> pad n ys"
      using Suc.IH [of "[]" ys] by (cases ys) (auto simp: le_less)
    then show ?thesis using Nil d' by (cases "y = 0") (auto simp: le_less word_neq_0_conv)
  next
    case (Cons x xs)
    then obtain y ys where "d' = y # ys" using Suc.prems by (cases d') auto
    then show ?thesis using Cons Suc.prems Suc.IH [of xs ys] by auto
  qed
qed simp

lemma unat_not_byte: "unat (NOT p :: byte) = 255 - unat p"
proof -
  have "unat p \<le> 255" using unat_byte_less [of p] by linarith
  then have "p \<le> 255" by (simp add: word_le_nat_alt)
  then show ?thesis by (simp add: not_byte unat_sub)
qed

lemma not_byte_less: "NOT (p::byte) < NOT q \<longleftrightarrow> q < p"
  unfolding word_less_nat_alt unat_not_byte using unat_byte_less [of p] by linarith

lemma marker_less: "n < 8 \<Longrightarrow> n < m \<Longrightarrow> m \<le> 8 \<Longrightarrow> (247 + of_nat n :: byte) < 247 + of_nat m"
proof -
  assume "n < 8" "n < m" "m \<le> 8"
  moreover have "unat (247 + of_nat k :: byte) = 247 + k" if "k \<le> 8" for k
    using that by (simp add: unat_word_ariths unat_of_nat)
  ultimately show ?thesis by (simp add: word_less_nat_alt)
qed

lemma groups_mono: "d < d' \<Longrightarrow> groups d @ x < groups d' @ y"
proof (induction d arbitrary: d' rule: groups.induct)
  case (1 d)
  from pad_less [OF 1(2), of 8]
  consider (lt) "pad 8 d < pad 8 d'"
    | (shorter) "pad 8 d = pad 8 d'" "length d < 8" "length d < length d'"
    | (more) "pad 8 d = pad 8 d'" "8 \<le> length d" "8 \<le> length d'" "drop 8 d < drop 8 d'"
    by blast
  then show ?case
  proof cases
    case lt
    then show ?thesis by (simp add: groups.simps [of d] groups.simps [of d'] lex_append_same_length)
  next
    case shorter
    then show ?thesis
      using marker_less [of "length d" "length d'"] marker_less [of "length d" 8]
      by (simp add: groups.simps [of d] groups.simps [of d'] lex_append_same_length)
  next
    case more
    then show ?thesis
      using 1(1) [of "drop 8 d'"]
      by (simp add: groups.simps [of d] groups.simps [of d'] lex_append_same_length)
  qed
qed

text \<open>Complementing every byte turns an order that is decided inside the codes around.\<close>

lemma map_not_mono:
  assumes "\<And>x y. a @ x < b @ y"
  shows "map NOT b @ u < map NOT a @ (v :: bytes)"
  using assms
proof (induction a arbitrary: b)
  case Nil
  from Nil [of b "[]"] show ?case by simp
next
  case (Cons p a)
  show ?case
  proof (cases b)
    case Nil
    with Cons.prems [of "[]" "p # a"] show ?thesis by simp
  next
    case b: (Cons q b')
    have "p < q \<or> p = q \<and> a @ x < b' @ y" for x y using Cons.prems [of x y] b by auto
    then show ?thesis
      using b Cons.IH [of b'] by (cases "p = q") (auto simp: not_byte_less)
  qed
qed

interpretation cmp_bytes: memcomparable "\<lambda>_. True" "(<)" "EncodeBytes []" DecodeBytes
  by unfold_locales (auto simp: codec_simps groups_mono)

interpretation cmp_bytes_desc: memcomparable "\<lambda>_. True" "(>)" "EncodeBytesDesc []" DecodeBytesDesc
  by unfold_locales (auto simp: codec_simps intro!: map_not_mono groups_mono)

section \<open>Compact bytes\<close>

lemma DecodeCompactBytes_Encode [codec_simps]:
  assumes "length d < 2 ^ 63"
  shows "DecodeCompactBytes (EncodeCompactBytes [] d @ rest) = Inr (rest, d)"
proof -
  have "sint (of_nat (length d) :: u64) = int (length d)"
    using assms by (rule sint_of_nat_u64)
  then show ?thesis
    using DecodeVarint_Encode [of "of_nat (length d)" "d @ rest"]
    by (simp add: DecodeCompactBytes_def EncodeCompactBytes_def)
qed

section \<open>Properties\<close>

text \<open>C34: Encoded byte strings compare as the strings do and encoded descending byte
  strings in the opposite order, whatever follows; both decode to the string and what follows.\<close>

theorem EncodeBytes_memcomparable:
  "(EncodeBytes [] d @ x < EncodeBytes [] e @ y \<longleftrightarrow> d < e \<or> d = e \<and> x < y) \<and>
   (EncodeBytesDesc [] d @ x < EncodeBytesDesc [] e @ y \<longleftrightarrow> e < d \<or> d = e \<and> x < y) \<and>
   DecodeBytes (EncodeBytes [] d @ x) = Inr (x, d) \<and>
   DecodeBytesDesc (EncodeBytesDesc [] d @ x) = Inr (x, d)"
  by (simp add: cmp_bytes.enc_less_iff cmp_bytes_desc.enc_less_iff cmp_bytes.dec_enc cmp_bytes_desc.dec_enc)

text \<open>The word-at-a-time complement of \<open>fastReverseBytes\<close> equals the byte-wise one on
  every slice, whatever its length.\<close>

lemma fastReverseBytes_safe: "fastReverseBytes b = safeReverseBytes b"
  by (simp add: fastReverseBytes_eq safeReverseBytes_def)

end
