(* ===== verification/Float_Codec.thy ===== *)
theory Float_Codec
  imports Number_Codec
begin

text \<open>
  \<open>src/util/codec/float.go\<close>: memory-comparable \<open>float64\<close>.  A Go \<open>float64\<close> is its IEEE 754
  bit pattern, so \<open>math.Float64bits\<close> and \<open>math.Float64frombits\<close> are the identity; the
  comparison \<open>f >= 0\<close> is the IEEE one (false on NaN, true on negative zero).
\<close>

unbundle bit_operations_syntax

section \<open>IEEE 754 binary64\<close>

definition float_sign :: "u64 \<Rightarrow> bool" where "float_sign f = (2 ^ 63 \<le> unat f)"
definition float_exp :: "u64 \<Rightarrow> nat" where "float_exp f = unat f div 2 ^ 52 mod 2 ^ 11"
definition float_frac :: "u64 \<Rightarrow> nat" where "float_frac f = unat f mod 2 ^ 52"

definition float_isNaN :: "u64 \<Rightarrow> bool" where
  "float_isNaN f = (float_exp f = 2047 \<and> float_frac f \<noteq> 0)"

text \<open>The magnitude in units of the smallest subnormal, \<open>2^-1074\<close>; infinity reads as \<open>2^1024\<close>.\<close>

definition float_mag :: "u64 \<Rightarrow> nat" where
  "float_mag f = (if float_exp f = 0 then float_frac f
                  else (2 ^ 52 + float_frac f) * 2 ^ (float_exp f - 1))"

definition float_val :: "u64 \<Rightarrow> int" where
  "float_val f = (if float_sign f then - int (float_mag f) else int (float_mag f))"

definition float_ge0 :: "u64 \<Rightarrow> bool" where
  "float_ge0 f = (\<not> float_isNaN f \<and> float_val f \<ge> 0)"

section \<open>Operations\<close>

definition encodeFloatToCmpUint64 :: "u64 \<Rightarrow> u64" where
  "encodeFloatToCmpUint64 f = (let u = f in if float_ge0 f then u OR signMask else NOT u)"

definition decodeCmpUintToFloat :: "u64 \<Rightarrow> u64" where
  "decodeCmpUintToFloat u = (if u AND signMask > 0 then u AND NOT signMask else NOT u)"

definition EncodeFloat :: "bytes \<Rightarrow> u64 \<Rightarrow> bytes" where
  "EncodeFloat b v = (let u = encodeFloatToCmpUint64 v in EncodeUint b u)"

definition DecodeFloat :: "bytes \<Rightarrow> codec_err + bytes \<times> u64" where
  "DecodeFloat b = (case DecodeUint b of Inl e \<Rightarrow> Inl e | Inr (b', u) \<Rightarrow> Inr (b', decodeCmpUintToFloat u))"

definition EncodeFloatDesc :: "bytes \<Rightarrow> u64 \<Rightarrow> bytes" where
  "EncodeFloatDesc b v = (let u = encodeFloatToCmpUint64 v in EncodeUintDesc b u)"

definition DecodeFloatDesc :: "bytes \<Rightarrow> codec_err + bytes \<times> u64" where
  "DecodeFloatDesc b = (case DecodeUintDesc b of Inl e \<Rightarrow> Inl e | Inr (b', u) \<Rightarrow> Inr (b', decodeCmpUintToFloat u))"

section \<open>Order of the bit patterns\<close>

abbreviation low63 :: "u64 \<Rightarrow> nat" where "low63 f \<equiv> unat f mod 2 ^ 63"

lemma float_exp_low: "float_exp f = low63 f div 2 ^ 52"
proof -
  have "low63 f = 2 ^ 52 * (unat f div 2 ^ 52 mod 2 ^ 11) + unat f mod 2 ^ 52"
    using mod_mult2_eq [of "unat f" "2 ^ 52" "2 ^ 11"] by simp
  then show ?thesis unfolding float_exp_def by simp
qed

lemma float_frac_low: "float_frac f = low63 f mod 2 ^ 52"
  unfolding float_frac_def by (rule mod_mod_cancel [symmetric]) (simp add: dvd_def)

definition mag_of :: "nat \<Rightarrow> nat" where
  "mag_of x = (if x div 2 ^ 52 = 0 then x mod 2 ^ 52 else (2 ^ 52 + x mod 2 ^ 52) * 2 ^ (x div 2 ^ 52 - 1))"

lemma mag_of_upper: "mag_of x < 2 ^ 52 * 2 ^ (x div 2 ^ 52)"
proof (cases "x div 2 ^ 52 = 0")
  case False
  then obtain e where e: "x div 2 ^ 52 = Suc e" by (cases "x div 2 ^ 52") auto
  have "2 ^ 52 + x mod 2 ^ 52 < 2 ^ 52 * 2" using mod_less_divisor [of "2 ^ 52" x] by simp
  then have "(2 ^ 52 + x mod 2 ^ 52) * 2 ^ e < 2 ^ 52 * 2 * 2 ^ e" by (intro mult_strict_right_mono) auto
  then show ?thesis unfolding mag_of_def e by (simp add: mult.assoc)
qed (simp add: mag_of_def)

lemma mag_of_lower: "x div 2 ^ 52 \<noteq> 0 \<Longrightarrow> 2 ^ 52 * 2 ^ (x div 2 ^ 52 - 1) \<le> mag_of x"
  by (simp add: mag_of_def)

lemma mag_of_mono:
  assumes "a < b" shows "mag_of a < mag_of b"
proof (cases "a div 2 ^ 52 = b div 2 ^ 52")
  case True
  moreover have "a mod 2 ^ 52 < b mod 2 ^ 52"
    using assms True by (metis add_less_cancel_left div_mult_mod_eq)
  moreover note assms
  ultimately show ?thesis unfolding mag_of_def by simp
next
  case False
  then have less: "a div 2 ^ 52 < b div 2 ^ 52" using assms div_le_mono [of a b "2 ^ 52"] by linarith
  have "mag_of a < 2 ^ 52 * 2 ^ (a div 2 ^ 52)" by (rule mag_of_upper)
  also have "a div 2 ^ 52 \<le> b div 2 ^ 52 - 1" using less by linarith
  then have "(2::nat) ^ 52 * 2 ^ (a div 2 ^ 52) \<le> 2 ^ 52 * 2 ^ (b div 2 ^ 52 - 1)"
    by (intro mult_left_mono power_increasing) (assumption, rule one_le_numeral, rule zero_le)
  also have "\<dots> \<le> mag_of b" using less by (intro mag_of_lower) linarith
  finally show ?thesis .
qed

lemma float_mag_low: "float_mag f = mag_of (low63 f)"
  by (simp only: float_mag_def mag_of_def float_exp_low float_frac_low)

lemma mag_of_less_iff: "mag_of a < mag_of b \<longleftrightarrow> a < b"
  using mag_of_mono by (metis linorder_neqE_nat order_less_asym)

lemma mag_of_eq_iff: "mag_of a = mag_of b \<longleftrightarrow> a = b"
  using mag_of_mono by (metis linorder_neqE_nat order_less_irrefl)

lemma mag_of_0 [simp]: "mag_of 0 = 0"
  by (simp add: mag_of_def)

section \<open>Order and round trip\<close>

text \<open>Negative zero and the NaNs are the patterns that share a code or do not come back.\<close>

definition float_canonical :: "u64 \<Rightarrow> bool" where
  "float_canonical f = (\<not> float_isNaN f \<and> f \<noteq> signMask)"

lemma unat_signMask: "unat signMask = 2 ^ 63"
  by (simp add: signMask_def)

lemma float_sign_bit: "float_sign f \<longleftrightarrow> bit f 63"
proof -
  have "(2 ^ 63 \<le> unat f) = (int (2 ^ 63) \<le> int (unat f))" by (rule zle_int [symmetric])
  also have "\<dots> = (2 ^ 63 \<le> uint f)" by simp
  also have "\<dots> = (sint f < 0)" using uint_lt2p [of f] uint_ge_0 [of f] by (simp add: sint_if)
  finally show ?thesis by (simp add: float_sign_def sint_neg_iff_bit)
qed

lemma or_signMask: "\<not> float_sign f \<Longrightarrow> f OR signMask = f + signMask"
  by (intro disjunctive_add_eq_or [symmetric] bit_word_eqI) (auto simp: bit_simps bit_signMask float_sign_bit)

lemma low63_sign: "float_sign f \<Longrightarrow> unat f = 2 ^ 63 + low63 f" "\<not> float_sign f \<Longrightarrow> unat f = low63 f"
proof -
  show "\<not> float_sign f \<Longrightarrow> unat f = low63 f" by (simp add: float_sign_def)
  assume "float_sign f"
  then have "low63 f = (unat f - 2 ^ 63) mod 2 ^ 63" unfolding float_sign_def by (rule le_mod_geq)
  also have "unat f < 2 ^ 63 + 2 ^ 63" using unat_u64_less [of f] by simp
  then have "(unat f - 2 ^ 63) mod 2 ^ 63 = unat f - 2 ^ 63" by (intro mod_less) linarith
  finally show "unat f = 2 ^ 63 + low63 f" using \<open>float_sign f\<close> by (simp add: float_sign_def)
qed

lemma float_ge0_canonical: "float_canonical f \<Longrightarrow> float_ge0 f \<longleftrightarrow> \<not> float_sign f"
proof -
  assume c: "float_canonical f"
  have "low63 f \<noteq> 0" if "float_sign f"
    using low63_sign(1) [OF that] c by (auto simp: float_canonical_def word_unat_eq_iff unat_signMask)
  then have "float_mag f \<noteq> 0" if "float_sign f"
    using that mag_of_eq_iff [of "low63 f" 0] by (simp add: float_mag_low)
  then show ?thesis using c by (auto simp: float_ge0_def float_val_def float_canonical_def)
qed

lemma unat_encodeFloat:
  assumes "float_canonical f"
  shows "int (unat (encodeFloatToCmpUint64 f)) =
    (if float_sign f then 2 ^ 63 - 1 - int (low63 f) else 2 ^ 63 + int (low63 f))"
proof (cases "float_sign f")
  case True
  then have "int (unat (encodeFloatToCmpUint64 f)) = int (2 ^ 64 - 1 - unat f)"
    using assms by (simp add: encodeFloatToCmpUint64_def float_ge0_canonical unat_not del: of_nat_unat)
  also have "\<dots> = 2 ^ 63 - 1 - int (low63 f)"
    using low63_sign(1) [OF True] mod_less_divisor [of "2 ^ 63" "unat f"] by (simp del: of_nat_unat)
  finally show ?thesis using True by simp
next
  case False
  then show ?thesis
    using assms low63_sign(2) [OF False] mod_less_divisor [of "2 ^ 63" "unat f"]
    by (simp add: encodeFloatToCmpUint64_def float_ge0_canonical or_signMask unat_word_ariths unat_signMask del: of_nat_unat)
qed

lemma float_val_low: "float_val f = (if float_sign f then - int (mag_of (low63 f)) else int (mag_of (low63 f)))"
  by (simp add: float_val_def float_mag_low)

lemma canonical_low63: "float_canonical f \<Longrightarrow> float_sign f \<Longrightarrow> 0 < mag_of (low63 f)"
proof -
  assume "float_canonical f" "float_sign f"
  then have "low63 f \<noteq> 0"
    using low63_sign(1) [of f] by (auto simp: float_canonical_def word_unat_eq_iff unat_signMask)
  then show ?thesis using mag_of_less_iff [of 0] by simp
qed

lemma encodeFloat_less_iff:
  assumes "float_canonical f" "float_canonical h"
  shows "encodeFloatToCmpUint64 f < encodeFloatToCmpUint64 h \<longleftrightarrow> float_val f < float_val h"
proof -
  have "encodeFloatToCmpUint64 f < encodeFloatToCmpUint64 h \<longleftrightarrow>
      int (unat (encodeFloatToCmpUint64 f)) < int (unat (encodeFloatToCmpUint64 h))"
    by (simp only: word_less_nat_alt of_nat_less_iff)
  also have "\<dots> \<longleftrightarrow> float_val f < float_val h"
    unfolding unat_encodeFloat [OF assms(1)] unat_encodeFloat [OF assms(2)] float_val_low
    using canonical_low63 [OF assms(1)] canonical_low63 [OF assms(2)]
      mag_of_less_iff [of "low63 f" "low63 h"] mag_of_less_iff [of "low63 h" "low63 f"]
      mod_less_divisor [of "2 ^ 63" "unat f"] mod_less_divisor [of "2 ^ 63" "unat h"]
    by (cases "float_sign f"; cases "float_sign h") auto
  finally show ?thesis .
qed

lemma and_signMask_pos: "u AND signMask > 0 \<longleftrightarrow> bit u 63"
proof -
  have "u AND signMask = (if bit u 63 then signMask else 0)"
    by (rule bit_word_eqI) (auto simp: bit_simps bit_signMask)
  then show ?thesis by (simp add: signMask_def)
qed

lemma signMask_pos [simp]: "0 < signMask"
  by (simp add: signMask_def)

lemma decode_encodeFloat: "float_canonical f \<Longrightarrow> decodeCmpUintToFloat (encodeFloatToCmpUint64 f) = f"
proof (cases "float_sign f")
  case True
  moreover assume "float_canonical f"
  ultimately show ?thesis
    by (simp add: encodeFloatToCmpUint64_def decodeCmpUintToFloat_def float_ge0_canonical and_signMask_pos
        float_sign_bit bit_not_iff)
next
  case False
  moreover assume "float_canonical f"
  moreover have "(f OR signMask) AND NOT signMask = f"
    using False by (intro bit_word_eqI) (auto simp: bit_simps bit_signMask float_sign_bit)
  moreover have "bit (f OR signMask) 63" by (simp add: bit_or_iff bit_signMask)
  ultimately show ?thesis
    by (simp add: encodeFloatToCmpUint64_def decodeCmpUintToFloat_def float_ge0_canonical and_signMask_pos)
qed

lemma float_val_total:
  assumes "float_canonical f" "float_canonical h" "f \<noteq> h"
  shows "float_val f < float_val h \<or> float_val h < float_val f"
  using assms encodeFloat_less_iff decode_encodeFloat by (metis linorder_neqE)

interpretation cmp_float: memcomparable float_canonical "\<lambda>f h. float_val f < float_val h" "EncodeFloat []" DecodeFloat
  by unfold_locales (auto simp: EncodeFloat_def DecodeFloat_def cmp_uint.dec_enc decode_encodeFloat
      encodeFloat_less_iff cmp_uint.enc_mono dest: float_val_total)

interpretation cmp_float_desc: memcomparable float_canonical "\<lambda>f h. float_val h < float_val f" "EncodeFloatDesc []" DecodeFloatDesc
  by unfold_locales (auto simp: EncodeFloatDesc_def DecodeFloatDesc_def cmp_uint_desc.dec_enc decode_encodeFloat
      encodeFloat_less_iff cmp_uint_desc.enc_mono dest: float_val_total)

text \<open>Negative zero is encoded as positive zero.\<close>

lemma encodeFloat_neg_zero: "encodeFloatToCmpUint64 signMask = encodeFloatToCmpUint64 0"
  by (simp add: encodeFloatToCmpUint64_def float_ge0_def float_isNaN_def float_val_def float_sign_def float_mag_def
      float_exp_def float_frac_def unat_signMask)

end
