(* ===== verification/Datum_Codec.thy ===== *)
theory Datum_Codec
  imports Bytes_Codec Float_Codec
begin

text \<open>
  \<open>src/util/codec/codec.go\<close>: flagged encodings of \<open>types.Datum\<close> values, for keys (memory
  comparable) and for row values (compact), the decoders, and the functions that cut an
  encoded value off a byte string without decoding it.
\<close>

unbundle bit_operations_syntax

section \<open>Datums\<close>

text \<open>
  \<open>types.Datum\<close> is a tagged union; a constructor per kind carries the field the kind uses.
  The kinds whose payload is an \<open>interface{}\<close> carry nothing: no modelled operation reads it.
  A float datum holds its bit pattern.
\<close>

datatype datum =
    KindNull
  | KindInt64 u64
  | KindUint64 u64
  | KindFloat32 u64
  | KindFloat64 u64
  | KindString bytes
  | KindBytes bytes
  | KindBinaryLiteral bytes
  | KindMysqlBit bytes
  | KindMysqlSet
  | KindMysqlTime
  | KindInterface
  | KindMinNotNull
  | KindMaxValue
  | KindRaw bytes
  | KindMysqlJSON

section \<open>Encoding\<close>

definition NilFlag :: byte where "NilFlag = 0"
definition bytesFlag :: byte where "bytesFlag = 1"
definition compactBytesFlag :: byte where "compactBytesFlag = 2"
definition intFlag :: byte where "intFlag = 3"
definition uintFlag :: byte where "uintFlag = 4"
definition floatFlag :: byte where "floatFlag = 5"
definition durationFlag :: byte where "durationFlag = 7"
definition varintFlag :: byte where "varintFlag = 8"
definition uvarintFlag :: byte where "uvarintFlag = 9"
definition maxFlag :: byte where "maxFlag = 250"

lemmas flag_defs = NilFlag_def bytesFlag_def compactBytesFlag_def intFlag_def uintFlag_def floatFlag_def
  durationFlag_def varintFlag_def uvarintFlag_def maxFlag_def

definition MaxVarintLen64 :: nat where "MaxVarintLen64 = 10"

definition encodeBytes :: "bytes \<Rightarrow> bytes \<Rightarrow> bool \<Rightarrow> bytes" where
  "encodeBytes b v comparable =
     (if comparable then EncodeBytes (b @ [bytesFlag]) v
      else EncodeCompactBytes (b @ [compactBytesFlag]) v)"

definition encodeSignedInt :: "bytes \<Rightarrow> u64 \<Rightarrow> bool \<Rightarrow> bytes" where
  "encodeSignedInt b v comparable =
     (if comparable then EncodeInt (b @ [intFlag]) v else EncodeVarint (b @ [varintFlag]) v)"

definition encodeUnsignedInt :: "bytes \<Rightarrow> u64 \<Rightarrow> bool \<Rightarrow> bytes" where
  "encodeUnsignedInt b v comparable =
     (if comparable then EncodeUint (b @ [uintFlag]) v else EncodeUvarint (b @ [uvarintFlag]) v)"

definition sizeInt :: "bool \<Rightarrow> nat" where
  "sizeInt comparable = (if comparable then 9 else 1 + MaxVarintLen64)"

definition sizeBytes :: "bytes \<Rightarrow> bool \<Rightarrow> nat" where
  "sizeBytes v comparable =
     (if comparable then 1 + (length v div encGroupSize + 1) * (encGroupSize + 1)
      else 1 + (MaxVarintLen64 + length v))"

text \<open>The number of bytes \<open>preRealloc\<close> makes room for; \<open>None\<close> when it gives up on a kind.\<close>

fun preRealloc_size :: "datum list \<Rightarrow> bool \<Rightarrow> nat \<Rightarrow> nat option" where
  "preRealloc_size [] comparable sz = Some sz"
| "preRealloc_size (v # vals) comparable sz =
     (case v of
        KindInt64 _ \<Rightarrow> preRealloc_size vals comparable (sz + sizeInt comparable)
      | KindUint64 _ \<Rightarrow> preRealloc_size vals comparable (sz + sizeInt comparable)
      | KindString s \<Rightarrow> preRealloc_size vals comparable (sz + sizeBytes s comparable)
      | KindBytes s \<Rightarrow> preRealloc_size vals comparable (sz + sizeBytes s comparable)
      | KindFloat32 _ \<Rightarrow> preRealloc_size vals comparable (sz + 9)
      | KindFloat64 _ \<Rightarrow> preRealloc_size vals comparable (sz + 9)
      | KindNull \<Rightarrow> preRealloc_size vals comparable (sz + 1)
      | KindMinNotNull \<Rightarrow> preRealloc_size vals comparable (sz + 1)
      | KindMaxValue \<Rightarrow> preRealloc_size vals comparable (sz + 1)
      | _ \<Rightarrow> None)"

fun encode :: "bytes \<Rightarrow> datum list \<Rightarrow> bool \<Rightarrow> codec_err + bytes" where
  "encode b [] comparable = Inr b"
| "encode b (v # vals) comparable =
     (case v of
        KindInt64 i \<Rightarrow> encode (encodeSignedInt b i comparable) vals comparable
      | KindUint64 u \<Rightarrow> encode (encodeUnsignedInt b u comparable) vals comparable
      | KindFloat32 f \<Rightarrow> encode (EncodeFloat (b @ [floatFlag]) f) vals comparable
      | KindFloat64 f \<Rightarrow> encode (EncodeFloat (b @ [floatFlag]) f) vals comparable
      | KindString s \<Rightarrow> encode (encodeBytes b s comparable) vals comparable
      | KindBytes s \<Rightarrow> encode (encodeBytes b s comparable) vals comparable
      | KindNull \<Rightarrow> encode (b @ [NilFlag]) vals comparable
      | KindMinNotNull \<Rightarrow> encode (b @ [bytesFlag]) vals comparable
      | KindMaxValue \<Rightarrow> encode (b @ [maxFlag]) vals comparable
      | _ \<Rightarrow> Inl UnsupportedKind)"

definition EncodeKey :: "bytes \<Rightarrow> datum list \<Rightarrow> codec_err + bytes" where
  "EncodeKey b v = encode b v True"

definition EncodeValue :: "bytes \<Rightarrow> datum list \<Rightarrow> codec_err + bytes" where
  "EncodeValue b v = encode b v False"

section \<open>Size estimates\<close>

function sizeOfSignedInt_loop :: "nat \<Rightarrow> u64 \<Rightarrow> nat" where
  "sizeOfSignedInt_loop sz v =
     (if sint v > 0 then sizeOfSignedInt_loop (sz + 1) (signed_drop_bit 7 v) else sz)"
  by pat_completeness auto
termination
proof (relation "measure (\<lambda>(_, v). nat (sint v))")
  fix sz and v :: u64
  assume "0 < sint v"
  then show "((sz + 1, signed_drop_bit 7 v), sz, v) \<in> measure (\<lambda>(_, v). nat (sint v))"
    by (simp add: sint_signed_drop_bit_eq drop_bit_eq_div int_div_less_self)
qed simp

declare sizeOfSignedInt_loop.simps [simp del]

definition valueSizeOfSignedInt :: "u64 \<Rightarrow> nat" where
  "valueSizeOfSignedInt v =
     (let v' = (if sint v < 0 then 0 - v - 1 else v) in sizeOfSignedInt_loop 2 (signed_drop_bit 6 v'))"

function sizeOfUnsignedInt_loop :: "nat \<Rightarrow> u64 \<Rightarrow> nat" where
  "sizeOfUnsignedInt_loop sz v =
     (if v > 0 then sizeOfUnsignedInt_loop (sz + 1) (drop_bit 7 v) else sz)"
  by pat_completeness auto
termination
proof (relation "measure (\<lambda>(_, v). unat v)")
  fix sz and v :: u64
  assume "0 < v"
  then have "0 < unat v" by (simp add: word_less_nat_alt)
  then show "((sz + 1, drop_bit 7 v), sz, v) \<in> measure (\<lambda>(_, v). unat v)"
    by (simp only: in_measure prod.case unat_drop_bit_eq) (simp add: drop_bit_eq_div)
qed simp

declare sizeOfUnsignedInt_loop.simps [simp del]

definition valueSizeOfUnsignedInt :: "u64 \<Rightarrow> nat" where
  "valueSizeOfUnsignedInt v = sizeOfUnsignedInt_loop 2 (drop_bit 7 v)"

definition valueSizeOfBytes :: "bytes \<Rightarrow> nat" where
  "valueSizeOfBytes v = valueSizeOfSignedInt (of_nat (length v)) + length v"

definition EstimateValueSize :: "datum \<Rightarrow> codec_err + nat" where
  "EstimateValueSize val =
     (case val of
        KindInt64 i \<Rightarrow> Inr (valueSizeOfSignedInt i)
      | KindUint64 u \<Rightarrow> Inr (valueSizeOfUnsignedInt u)
      | KindFloat32 _ \<Rightarrow> Inr 9
      | KindFloat64 _ \<Rightarrow> Inr 9
      | KindString s \<Rightarrow> Inr (valueSizeOfBytes s)
      | KindBytes s \<Rightarrow> Inr (valueSizeOfBytes s)
      | KindNull \<Rightarrow> Inr 1
      | KindMinNotNull \<Rightarrow> Inr 1
      | KindMaxValue \<Rightarrow> Inr 1
      | _ \<Rightarrow> Inl UnsupportedKind)"

section \<open>Decoding\<close>

definition DecodeOne :: "bytes \<Rightarrow> codec_err + bytes \<times> datum" where
  "DecodeOne b =
     (case b of
        [] \<Rightarrow> Inl InvalidEncodedKey
      | flag # b' \<Rightarrow>
          if flag = intFlag then map_sum id (apsnd KindInt64) (DecodeInt b')
          else if flag = uintFlag then map_sum id (apsnd KindUint64) (DecodeUint b')
          else if flag = varintFlag then map_sum id (apsnd KindInt64) (DecodeVarint b')
          else if flag = uvarintFlag then map_sum id (apsnd KindUint64) (DecodeUvarint b')
          else if flag = floatFlag then map_sum id (apsnd KindFloat64) (DecodeFloat b')
          else if flag = bytesFlag then map_sum id (apsnd KindBytes) (DecodeBytes b')
          else if flag = compactBytesFlag then map_sum id (apsnd KindBytes) (DecodeCompactBytes b')
          else if flag = NilFlag then Inr (b', KindNull)
          else Inl (InvalidKeyFlag flag))"

lemma map_sum_Inr_iff: "map_sum f g x = Inr y \<longleftrightarrow> (\<exists>z. x = Inr z \<and> y = g z)"
  by (cases x) auto

lemma DecodeUint_length: "DecodeUint b = Inr (r, v) \<Longrightarrow> r = drop 8 b \<and> 8 \<le> length b"
  by (auto simp: DecodeUint_def split: if_splits)

lemma DecodeInt_length: "DecodeInt b = Inr (r, v) \<Longrightarrow> r = drop 8 b \<and> 8 \<le> length b"
  by (auto simp: DecodeInt_def split: if_splits)

lemma DecodeFloat_length: "DecodeFloat b = Inr (r, v) \<Longrightarrow> r = drop 8 b \<and> 8 \<le> length b"
  by (auto simp: DecodeFloat_def split: sum.splits dest: DecodeUint_length)

lemma DecodeVarint_length: "DecodeVarint b = Inr (r, v) \<Longrightarrow> length r \<le> length b"
  by (auto simp: DecodeVarint_def split: prod.splits if_splits)

lemma DecodeUvarint_length: "DecodeUvarint b = Inr (r, v) \<Longrightarrow> length r \<le> length b"
  by (auto simp: DecodeUvarint_def split: prod.splits if_splits)

lemma DecodeCompactBytes_length: "DecodeCompactBytes b = Inr (r, v) \<Longrightarrow> length r \<le> length b"
  by (fastforce simp: DecodeCompactBytes_def split: sum.splits if_splits dest: DecodeVarint_length)

lemma decodeBytes_loop_length: "decodeBytes_loop b buf rv = Inr (r, v) \<Longrightarrow> length r \<le> length b"
proof (induction "length b" arbitrary: b buf rule: less_induct)
  case less
  have "length r \<le> length b" if "decodeBytes_loop (drop (encGroupSize + 1) b) buf' rv = Inr (r, v)"
    "\<not> length b < encGroupSize + 1" for buf'
  proof -
    have "length (drop (encGroupSize + 1) b) < length b" using that(2) by (simp add: encGroupSize_def)
    from less.hyps [OF this that(1)] show ?thesis by simp
  qed
  with less.prems show ?case
    unfolding decodeBytes_loop.simps [of b buf] by (auto simp: Let_def split: if_splits)
qed

lemma DecodeBytes_length: "DecodeBytes b = Inr (r, v) \<Longrightarrow> length r \<le> length b"
  by (auto simp: DecodeBytes_def decodeBytes_def split: sum.splits dest: decodeBytes_loop_length)

lemma DecodeOne_length: "DecodeOne b = Inr (r, d) \<Longrightarrow> length r < length b"
  by (auto simp: DecodeOne_def map_sum_Inr_iff split: list.splits if_splits
      dest!: DecodeInt_length DecodeUint_length DecodeFloat_length DecodeVarint_length DecodeUvarint_length
        DecodeCompactBytes_length DecodeBytes_length)

text \<open>\<open>Decode\<close> and \<open>DecodeRange\<close>: their \<open>size\<close> argument is the capacity of the result slice.\<close>

function Decode_loop :: "bytes \<Rightarrow> datum list \<Rightarrow> codec_err + datum list" where
  "Decode_loop b values =
     (if length b > 0 then
        (case DecodeOne b of
           Inl e \<Rightarrow> Inl e
         | Inr (b', d) \<Rightarrow> Decode_loop b' (values @ [d]))
      else Inr values)"
  by pat_completeness auto
termination
  by (relation "measure (\<lambda>(b, _). length b)") (auto dest: DecodeOne_length)

declare Decode_loop.simps [simp del]

definition Decode :: "bytes \<Rightarrow> codec_err + datum list" where
  "Decode b = (if length b < 1 then Inl InvalidEncodedKey else Decode_loop b [])"

function DecodeRange_loop :: "bytes \<Rightarrow> datum list \<Rightarrow> codec_err + bytes \<times> datum list" where
  "DecodeRange_loop b values =
     (if length b > 1 then
        (case DecodeOne b of
           Inl e \<Rightarrow> Inl e
         | Inr (b', d) \<Rightarrow> DecodeRange_loop b' (values @ [d]))
      else Inr (b, values))"
  by pat_completeness auto
termination
  by (relation "measure (\<lambda>(b, _). length b)") (auto dest: DecodeOne_length)

declare DecodeRange_loop.simps [simp del]

definition DecodeRange :: "bytes \<Rightarrow> codec_err + datum list" where
  "DecodeRange b =
     (if length b < 1 then Inl InvalidEncodedKey
      else case DecodeRange_loop b [] of
        Inl e \<Rightarrow> Inl e
      | Inr (b', values) \<Rightarrow>
          (case b' of
             [] \<Rightarrow> Inr values
           | flag # _ \<Rightarrow>
               if flag = NilFlag then Inr (values @ [KindNull])
               else if flag = bytesFlag then Inr (values @ [KindMinNotNull])
               else if flag = maxFlag \<or> flag = maxFlag + 1 then Inr (values @ [KindMaxValue])
               else Inl (InvalidKeyFlag flag)))"

section \<open>Cutting without decoding\<close>

text \<open>Lengths are Go \<open>int\<close>s, 64-bit words read as signed; additions wrap.\<close>

function peekBytes_loop :: "bytes \<Rightarrow> nat \<Rightarrow> codec_err + nat" where
  "peekBytes_loop b offset =
     (if length b < offset + encGroupSize + 1 then Inl InsufficientBytes
      else let
          marker = b ! (offset + encGroupSize);
          padCount = encMarker - marker;
          offset' = offset + (encGroupSize + 1)
        in if padCount \<noteq> 0 then Inr offset' else peekBytes_loop b offset')"
  by pat_completeness auto
termination
  by (relation "measure (\<lambda>(b, off). length b - off)") (auto simp: encGroupSize_def)

declare peekBytes_loop.simps [simp del]

definition peekBytes :: "bytes \<Rightarrow> codec_err + u64" where
  "peekBytes b = map_sum id of_nat (peekBytes_loop b 0)"

definition peekCompactBytes :: "bytes \<Rightarrow> codec_err + u64" where
  "peekCompactBytes b =
     (let (v, n) = Varint b; vi = v in
      if n < 0 then Inl LargerThan64Bits
      else if n = 0 then Inl InsufficientBytes
      else if int (length b) < sint (vi + of_int n) then Inl InsufficientBytes
      else Inr (of_int n + vi))"

definition peekVarint :: "bytes \<Rightarrow> codec_err + u64" where
  "peekVarint b = (let (_, n) = Varint b in if n < 0 then Inl LargerThan64Bits else Inr (of_int n))"

definition peekUvarint :: "bytes \<Rightarrow> codec_err + u64" where
  "peekUvarint b = (let (_, n) = Uvarint b in if n < 0 then Inl LargerThan64Bits else Inr (of_int n))"

definition peek :: "bytes \<Rightarrow> codec_err + u64" where
  "peek b =
     (case b of
        [] \<Rightarrow> Inl InvalidEncodedKey
      | flag # b' \<Rightarrow>
          (let r =
             (if flag = NilFlag then Inr 0
              else if flag = intFlag \<or> flag = uintFlag \<or> flag = floatFlag \<or> flag = durationFlag then Inr 8
              else if flag = bytesFlag then peekBytes b'
              else if flag = compactBytesFlag then peekCompactBytes b'
              else if flag = varintFlag then peekVarint b'
              else if flag = uvarintFlag then peekUvarint b'
              else Inl (InvalidKeyFlag flag))
           in map_sum id (\<lambda>l. 1 + l) r))"

text \<open>\<open>b[:l], b[l:]\<close>, which panics when \<open>l\<close> is out of range.\<close>

definition slice_at :: "bytes \<Rightarrow> u64 \<Rightarrow> codec_err + bytes \<times> bytes" where
  "slice_at b l =
     (if sint l < 0 \<or> int (length b) < sint l then Inl Panic
      else Inr (take (nat (sint l)) b, drop (nat (sint l)) b))"

definition CutOne :: "bytes \<Rightarrow> codec_err + bytes \<times> bytes" where
  "CutOne b = (case peek b of Inl e \<Rightarrow> Inl e | Inr l \<Rightarrow> slice_at b l)"

definition CutColumnID :: "bytes \<Rightarrow> codec_err + bytes \<times> u64" where
  "CutColumnID b = (if length b < 1 then Inl InvalidEncodedKey else DecodeVarint (drop 1 b))"

fun SetRawValues :: "bytes \<Rightarrow> datum list \<Rightarrow> codec_err + datum list" where
  "SetRawValues data [] = Inr []"
| "SetRawValues data (_ # values) =
     (case peek data of
        Inl e \<Rightarrow> Inl e
      | Inr l \<Rightarrow>
          (case slice_at data l of
             Inl e \<Rightarrow> Inl e
           | Inr (d, data') \<Rightarrow> map_sum id ((#) (KindRaw d)) (SetRawValues data' values)))"

section \<open>Shape of the encodings\<close>

fun encodable :: "datum \<Rightarrow> bool" where
  "encodable KindNull = True"
| "encodable (KindInt64 _) = True"
| "encodable (KindUint64 _) = True"
| "encodable (KindFloat32 _) = True"
| "encodable (KindFloat64 _) = True"
| "encodable (KindString _) = True"
| "encodable (KindBytes _) = True"
| "encodable KindMinNotNull = True"
| "encodable KindMaxValue = True"
| "encodable _ = False"

text \<open>The bytes one datum contributes.\<close>

fun code :: "bool \<Rightarrow> datum \<Rightarrow> bytes" where
  "code c KindNull = [NilFlag]"
| "code c (KindInt64 i) = encodeSignedInt [] i c"
| "code c (KindUint64 u) = encodeUnsignedInt [] u c"
| "code c (KindFloat32 f) = floatFlag # EncodeFloat [] f"
| "code c (KindFloat64 f) = floatFlag # EncodeFloat [] f"
| "code c (KindString s) = encodeBytes [] s c"
| "code c (KindBytes s) = encodeBytes [] s c"
| "code c KindMinNotNull = [bytesFlag]"
| "code c KindMaxValue = [maxFlag]"
| "code c _ = []"

lemma encodeSignedInt_append: "encodeSignedInt b v c = b @ encodeSignedInt [] v c"
  by (simp add: encodeSignedInt_def EncodeInt_def EncodeVarint_def)

lemma encodeUnsignedInt_append: "encodeUnsignedInt b v c = b @ encodeUnsignedInt [] v c"
  by (simp add: encodeUnsignedInt_def EncodeUint_def EncodeUvarint_def)

lemma encodeBytes_append: "encodeBytes b v c = b @ encodeBytes [] v c"
  by (simp add: encodeBytes_def EncodeBytes_groups EncodeCompactBytes_def EncodeVarint_def)

lemma EncodeFloat_append: "EncodeFloat b v = b @ EncodeFloat [] v"
  by (simp add: EncodeFloat_def EncodeUint_def)

lemmas code_append = encodeSignedInt_append encodeUnsignedInt_append encodeBytes_append EncodeFloat_append

lemma encode_code:
  "encode b vs c = (if list_all encodable vs then Inr (b @ concat (map (code c) vs)) else Inl UnsupportedKind)"
proof (induction vs arbitrary: b)
  case (Cons v vs)
  show ?case
    by (cases v) (simp_all add: Cons code_append [of "b @ _"] encodeSignedInt_append [of b]
        encodeUnsignedInt_append [of b] encodeBytes_append [of b])
qed simp

lemma code_not_Nil: "encodable v \<Longrightarrow> code c v \<noteq> []"
  by (cases v) (simp_all add: encodeSignedInt_def encodeUnsignedInt_def encodeBytes_def EncodeInt_def
      EncodeUint_def EncodeVarint_def EncodeUvarint_def EncodeBytes_groups EncodeCompactBytes_def)

section \<open>Sizes\<close>

lemma unat_drop7: "unat (drop_bit 7 x :: u64) = unat x div 2 ^ 7"
  by (simp only: unat_drop_bit_eq) (simp only: drop_bit_eq_div)

lemma length_PutUvarint_le: "unat x < 2 ^ (7 * n) \<Longrightarrow> 0 < n \<Longrightarrow> length (PutUvarint x) \<le> n"
proof (induction n arbitrary: x)
  case (Suc n)
  show ?case
  proof (cases "0x80 \<le> x")
    case True
    then have "128 \<le> unat x" by (simp add: word_le_nat_alt)
    then have n: "0 < n" using Suc.prems by (cases n) auto
    have "unat (drop_bit 7 x) < 2 ^ (7 * n)"
      using Suc.prems unfolding unat_drop7 by (intro less_mult_imp_div_less) (simp add: power_add mult.commute)
    then show ?thesis using Suc.IH n True by (subst PutUvarint.simps) simp
  qed (subst PutUvarint.simps, simp)
qed simp

lemma length_PutUvarint_10: "length (PutUvarint x) \<le> 10"
  using unat_u64_less [of x] by (intro length_PutUvarint_le) auto

lemma length_PutVarint_10: "length (PutVarint x) \<le> 10"
  by (simp add: PutVarint_def Let_def length_PutUvarint_10)

fun size_of :: "bool \<Rightarrow> datum \<Rightarrow> nat" where
  "size_of c (KindInt64 _) = sizeInt c"
| "size_of c (KindUint64 _) = sizeInt c"
| "size_of c (KindString s) = sizeBytes s c"
| "size_of c (KindBytes s) = sizeBytes s c"
| "size_of c (KindFloat32 _) = 9"
| "size_of c (KindFloat64 _) = 9"
| "size_of c _ = 1"

lemma preRealloc_size_eq:
  "preRealloc_size vs c n = (if list_all encodable vs then Some (n + sum_list (map (size_of c) vs)) else None)"
proof (induction vs arbitrary: n)
  case (Cons v vs)
  show ?case by (cases v) (simp_all add: Cons)
qed simp

lemma length_code:
  assumes "encodable v"
  shows "length (code True v) = size_of True v" "length (code c v) \<le> size_of c v"
proof -
  show *: "length (code True v) = size_of True v"
    using assms by (cases v) (simp_all add: encodeSignedInt_def encodeUnsignedInt_def encodeBytes_def EncodeInt_def
      EncodeUint_def EncodeBytes_groups EncodeFloat_def sizeInt_def sizeBytes_def len_simps encGroupSize_def)
  show "length (code c v) \<le> size_of c v"
  proof (cases c)
    case False
    show ?thesis using assms False length_PutVarint_10 length_PutUvarint_10
      by (cases v) (simp_all add: encodeSignedInt_def encodeUnsignedInt_def encodeBytes_def 
        EncodeVarint_def EncodeUvarint_def EncodeCompactBytes_def EncodeUint_def EncodeFloat_def sizeInt_def sizeBytes_def len_simps MaxVarintLen64_def)
  qed (use * in simp)
qed

lemma drop7_eq_0: "drop_bit 7 (v::u64) = 0 \<longleftrightarrow> \<not> 0x80 \<le> v"
proof -
  have "unat (drop_bit 7 v) = 0 \<longleftrightarrow> unat v < 128" unfolding unat_drop7 by (simp add: div_eq_0_iff)
  then show ?thesis by (simp add: word_le_nat_alt not_le unat_eq_zero)
qed

lemma length_PutUvarint_drop7:
  "length (PutUvarint v) = Suc (if drop_bit 7 v = 0 then 0 else length (PutUvarint (drop_bit 7 v)))"
  unfolding drop7_eq_0 by (subst PutUvarint.simps) simp

lemma sizeOfUnsignedInt_loop_eq:
  "sizeOfUnsignedInt_loop n v = n + (if v = 0 then 0 else length (PutUvarint v))"
proof (induction n v rule: sizeOfUnsignedInt_loop.induct)
  case (1 n v)
  show ?case
  proof (cases "v = 0")
    case False
    then have "0 < v" by (simp add: word_neq_0_conv)
    then show ?thesis
      unfolding sizeOfUnsignedInt_loop.simps [of n v] length_PutUvarint_drop7 [of v]
      using 1 False by simp
  qed (subst sizeOfUnsignedInt_loop.simps, simp)
qed

lemma valueSizeOfUnsignedInt_eq: "valueSizeOfUnsignedInt v = Suc (length (PutUvarint v))"
  by (simp only: valueSizeOfUnsignedInt_def sizeOfUnsignedInt_loop_eq length_PutUvarint_drop7 [of v])

lemma signed_drop_bit_nonneg:
  assumes "0 \<le> sint (v::u64)" shows "signed_drop_bit n v = drop_bit n v"
proof -
  have "\<not> bit v 63" using assms by (simp add: sint_neg_iff_bit flip: not_less)
  then show ?thesis
    by (intro bit_word_eqI) (auto simp: bit_signed_drop_bit_iff bit_drop_bit_eq dest: bit_imp_le_length)
qed

lemma sint_drop_bit_nonneg: "0 \<le> sint (v::u64) \<Longrightarrow> 0 \<le> sint (drop_bit n v)"
  by (simp add: sint_signed_drop_bit_eq flip: signed_drop_bit_nonneg)

lemma sizeOfSignedInt_loop_eq:
  "0 \<le> sint v \<Longrightarrow> sizeOfSignedInt_loop n v = sizeOfUnsignedInt_loop n v"
proof (induction n v rule: sizeOfSignedInt_loop.induct)
  case (1 n v)
  have "0 < sint v \<longleftrightarrow> 0 < v"
    using "1.prems" by (metis word_neq_0_conv order_le_less signed_0 signed_word_eqI less_irrefl)
  then show ?case
    using 1 sint_drop_bit_nonneg [OF "1.prems"] sizeOfSignedInt_loop.simps [of n v] sizeOfUnsignedInt_loop.simps [of n v]
    by (simp add: signed_drop_bit_nonneg [OF "1.prems"])
qed

lemma zigzag_drop7:
  "drop_bit 7 (if sint v < 0 then NOT (push_bit 1 v) else push_bit 1 (v::u64)) =
   drop_bit 6 (if sint v < 0 then NOT v else v)"
proof (rule bit_word_eqI)
  fix n
  assume "n < LENGTH(64)"
  have 63: "sint v < 0 \<longleftrightarrow> bit v 63" by (simp add: sint_neg_iff_bit)
  have n: "6 + n = 63 \<or> 6 + n < 63 \<or> 63 < 6 + n" by linarith
  show "bit (drop_bit 7 (if sint v < 0 then NOT (push_bit 1 v) else push_bit 1 v)) n =
      bit (drop_bit 6 (if sint v < 0 then NOT v else v)) n"
    using n 63 by (cases "sint v < 0")
      (simp_all only: if_True if_False bit_drop_bit_eq o_apply bit_not_iff bit_push_bit_iff, auto dest: bit_imp_le_length)
qed

lemma valueSizeOfSignedInt_eq: "valueSizeOfSignedInt v = Suc (length (PutVarint v))"
proof -
  let ?v = "if sint v < 0 then NOT v else v"
  let ?u = "if sint v < 0 then NOT (push_bit 1 v) else push_bit 1 v"
  have "\<not> sint ?v < 0"
    using sint_neg_iff_bit [of v] sint_neg_iff_bit [of "NOT v"] by (auto simp: bit_not_iff)
  then have nn: "0 \<le> sint ?v" by linarith
  have "(if sint v < 0 then 0 - v - 1 else v) = ?v" by (simp add: not_eq_complement)
  then have "valueSizeOfSignedInt v = sizeOfUnsignedInt_loop 2 (drop_bit 6 ?v)"
    using nn by (simp add: valueSizeOfSignedInt_def signed_drop_bit_nonneg sizeOfSignedInt_loop_eq sint_drop_bit_nonneg Let_def)
  also have "\<dots> = valueSizeOfUnsignedInt ?u"
    by (simp only: valueSizeOfUnsignedInt_def zigzag_drop7)
  finally show ?thesis by (simp only: valueSizeOfUnsignedInt_eq PutVarint_def Let_def)
qed

section \<open>Round trips\<close>

text \<open>
  What comes back from a decoder: floats as \<open>KindFloat64\<close>, strings as \<open>KindBytes\<close>.  The
  values that come back at all: no bound markers, canonical floats, lengths that fit an \<open>int64\<close>.
\<close>

fun norm :: "datum \<Rightarrow> datum" where
  "norm (KindFloat32 f) = KindFloat64 f"
| "norm (KindString s) = KindBytes s"
| "norm d = d"

fun storable :: "datum \<Rightarrow> bool" where
  "storable KindNull = True"
| "storable (KindInt64 _) = True"
| "storable (KindUint64 _) = True"
| "storable (KindFloat32 f) = float_canonical f"
| "storable (KindFloat64 f) = float_canonical f"
| "storable (KindString s) = (length s < 2 ^ 63)"
| "storable (KindBytes s) = (length s < 2 ^ 63)"
| "storable _ = False"

lemma storable_encodable: "storable d \<Longrightarrow> encodable d"
  by (cases d) auto

lemma storable_all_encodable: "list_all storable vs \<Longrightarrow> list_all encodable vs"
  by (auto simp: list_all_iff storable_encodable)

lemma DecodeOne_code [codec_simps]:
  assumes "storable d"
  shows "DecodeOne (code c d @ rest) = Inr (rest, norm d)"
proof -
  have i: "DecodeOne (encodeSignedInt [] v c @ rest) = Inr (rest, KindInt64 v)" for v
    using cmp_int.dec_enc [of v rest] DecodeVarint_Encode [of v rest]
    by (simp add: DecodeOne_def encodeSignedInt_def flag_defs EncodeInt_def EncodeVarint_def)
  have u: "DecodeOne (encodeUnsignedInt [] v c @ rest) = Inr (rest, KindUint64 v)" for v
    using cmp_uint.dec_enc [of v rest] DecodeUvarint_Encode [of v rest]
    by (simp add: DecodeOne_def encodeUnsignedInt_def flag_defs EncodeUint_def EncodeUvarint_def)
  have f: "DecodeOne (floatFlag # EncodeFloat [] v @ rest) = Inr (rest, KindFloat64 v)" if "float_canonical v" for v
    using cmp_float.dec_enc [OF that, of rest] by (simp add: DecodeOne_def flag_defs)
  have b: "DecodeOne (encodeBytes [] s c @ rest) = Inr (rest, KindBytes s)" if "length s < 2 ^ 63" for s
    using DecodeCompactBytes_Encode [OF that, of rest]
    by (simp add: DecodeOne_def encodeBytes_def flag_defs EncodeBytes_groups DecodeBytes_groups EncodeCompactBytes_def
        EncodeVarint_def)
  show ?thesis using assms
    by (cases d) (simp_all add: i u f b, simp add: DecodeOne_def flag_defs)
qed

lemma Decode_loop_code:
  "list_all storable vs \<Longrightarrow> Decode_loop (concat (map (code c) vs)) acc = Inr (acc @ map norm vs)"
proof (induction vs arbitrary: acc)
  case (Cons v vs)
  then have "code c v \<noteq> []" by (simp add: code_not_Nil storable_encodable)
  then show ?case using Cons by (subst Decode_loop.simps) (simp add: DecodeOne_code)
qed (subst Decode_loop.simps, simp)

lemma DecodeRange_loop_code:
  assumes "list_all storable vs" "length x \<le> 1" "vs \<noteq> [] \<Longrightarrow> last vs \<noteq> KindNull \<or> x \<noteq> []"
  shows "DecodeRange_loop (concat (map (code c) vs) @ x) acc = Inr (x, acc @ map norm vs)"
  using assms
proof (induction vs arbitrary: acc)
  case Nil
  then show ?case by (subst DecodeRange_loop.simps) simp
next
  case (Cons v vs)
  have v: "storable v" using Cons.prems by simp
  have "length (code c v) > 1" if "v \<noteq> KindNull"
    using that v PutUvarint_not_Nil by (cases v)
      (auto simp: encodeSignedInt_def encodeUnsignedInt_def encodeBytes_def EncodeInt_def EncodeUint_def EncodeFloat_def
        EncodeVarint_def EncodeUvarint_def EncodeBytes_groups EncodeCompactBytes_def len_simps PutVarint_def Let_def)
  moreover have "length (code c v) > 0" using v by (simp add: code_not_Nil storable_encodable)
  moreover have "length (code c w) > 0" if "w \<in> set vs" for w
    using that Cons.prems(1) by (auto simp: code_not_Nil storable_encodable list_all_iff)
  ultimately have "length (concat (map (code c) (v # vs)) @ x) > 1"
    using Cons.prems(3) by (cases "v = KindNull"; cases vs) (auto split: if_splits simp: add_gr_0)
  then show ?case using Cons v
    by (subst DecodeRange_loop.simps) (auto simp: DecodeOne_code split: if_splits)
qed

section \<open>Cutting agrees with decoding\<close>

lemma decodeBytes_peek:
  "decodeBytes_loop (drop off b) buf False = Inr (r, v) \<Longrightarrow>
     \<exists>l. peekBytes_loop b off = Inr l \<and> l \<le> length b \<and> r = drop l b"
proof (induction b off arbitrary: buf rule: peekBytes_loop.induct)
  case (1 b off)
  let ?m = "encMarker - b ! (off + encGroupSize)"
  from "1.prems" have len: "\<not> length b < off + encGroupSize + 1"
    by (subst (asm) decodeBytes_loop.simps) (auto split: if_splits)
  have nth: "take (encGroupSize + 1) (drop off b) ! encGroupSize = b ! (off + encGroupSize)"
    using len by simp
  show ?case
  proof (cases "?m = 0")
    case False
    then have "r = drop (off + (encGroupSize + 1)) b"
      using "1.prems" unfolding decodeBytes_loop.simps [of "drop off b"] nth Let_def
      by (auto split: if_splits simp: add_ac)
    then show ?thesis using False len by (subst peekBytes_loop.simps) (simp add: Let_def)
  next
    case True
    then obtain buf' where "decodeBytes_loop (drop (off + (encGroupSize + 1)) b) buf' False = Inr (r, v)"
      using "1.prems" unfolding decodeBytes_loop.simps [of "drop off b"] nth Let_def
      by (auto split: if_splits simp: add_ac)
    from "1.IH" [OF len refl refl refl _ this] True show ?thesis
      using len by (subst peekBytes_loop.simps) (simp add: Let_def)
  qed
qed

lemma slice_at_of_nat:
  assumes "n \<le> length b" "length b < 2 ^ 63"
  shows "slice_at b (of_nat n) = Inr (take n b, drop n b)"
proof -
  have "sint (of_nat n :: u64) = int n" using assms by (intro sint_of_nat_u64) simp
  then show ?thesis using assms by (simp add: slice_at_def)
qed

lemma Uvarint_loop_bound: "snd (Uvarint_loop b i x s) \<le> int i + int (length b)"
  by (induction b i x s rule: Uvarint_loop.induct) auto

lemma Uvarint_bound: "Uvarint b = (v, n) \<Longrightarrow> n \<le> int (length b)"
  using Uvarint_loop_bound [of b 0 0 0] by (simp add: Uvarint_def)

lemma Varint_bound: "Varint b = (v, n) \<Longrightarrow> n \<le> int (length b)"
  by (auto simp: Varint_def Let_def split: prod.splits dest: Uvarint_bound)

text \<open>Each peek function returns the length its decoder consumes.\<close>

definition peeks :: "(bytes \<Rightarrow> codec_err + u64) \<Rightarrow> bytes \<Rightarrow> bytes \<Rightarrow> bool" where
  "peeks p b r = (\<exists>l. p b = Inr (of_nat l) \<and> l \<le> length b \<and> r = drop l b)"

lemma peeks_int:
  assumes "p b = Inr (of_int n)" "0 < n" "n \<le> int (length b)" "r = drop (nat n) b"
  shows "peeks p b r"
  unfolding peeks_def using assms by (intro exI [of _ "nat n"]) simp

lemma peekVarint_decodes:
  assumes "DecodeVarint b = Inr (r, v)" shows "peeks peekVarint b r"
proof (cases "Varint b")
  case (Pair w n)
  with assms show ?thesis
    by (intro peeks_int [of _ _ n] Varint_bound) (auto simp: DecodeVarint_def peekVarint_def split: if_splits)
qed

lemma peekUvarint_decodes:
  assumes "DecodeUvarint b = Inr (r, v)" shows "peeks peekUvarint b r"
proof (cases "Uvarint b")
  case (Pair w n)
  with assms show ?thesis
    by (intro peeks_int [of _ _ n] Uvarint_bound) (auto simp: DecodeUvarint_def peekUvarint_def split: if_splits)
qed

lemma peekBytes_decodes: "DecodeBytes b = Inr (r, v) \<Longrightarrow> peeks peekBytes b r"
  using decodeBytes_peek [of 0 b "[]"]
  by (fastforce simp: DecodeBytes_def decodeBytes_def peekBytes_def peeks_def split: sum.splits)

lemma peekCompactBytes_decodes:
  assumes "DecodeCompactBytes b = Inr (r, v)" "length b < 2 ^ 63"
  shows "peeks peekCompactBytes b r"
proof -
  obtain w n where w: "Varint b = (w, n)" by (cases "Varint b")
  from assms(1) have n: "n > 0" and s: "0 \<le> sint w" "sint w \<le> int (length (drop (nat n) b))"
    and r: "r = drop (nat (sint w)) (drop (nat n) b)"
    by (auto simp: DecodeCompactBytes_def DecodeVarint_def w split: if_splits)
  define l where "l = nat n + nat (sint w)"
  have l: "l \<le> length b" using n s Varint_bound [OF w] by (simp add: l_def)
  have ww: "w = of_nat (nat (sint w))" using s(1) by simp
  have "(of_int n :: u64) = of_nat (nat n)" using n by simp
  then have sum: "w + of_int n = of_nat l" by (subst ww) (simp only: l_def of_nat_add add.commute)
  have "sint (of_nat l :: u64) = int l" using l assms(2) by (intro sint_of_nat_u64) simp
  then have "peekCompactBytes b = Inr (of_nat l)"
    using n l sum by (simp add: peekCompactBytes_def w add.commute)
  moreover have "r = drop l b" using r by (simp add: l_def add.commute)
  ultimately show ?thesis using l unfolding peeks_def by blast
qed

lemma peek_decodes:
  assumes "DecodeOne b = Inr (r, d)" "length b < 2 ^ 63"
  shows "peeks peek b r"
proof (cases b)
  case Nil
  then show ?thesis using assms by (simp add: DecodeOne_def)
next
  case (Cons flag b')
  have step: "peeks peek b r" if p: "peeks p b' r" "peek b = map_sum id (\<lambda>l. 1 + l) (p b')" for p
  proof -
    obtain l where "p b' = Inr (of_nat l)" "l \<le> length b'" "r = drop l b'" using p(1) by (auto simp: peeks_def)
    then have "peek b = Inr (of_nat (Suc l))" "Suc l \<le> length b" "r = drop (Suc l) b" using p(2) Cons by auto
    then show ?thesis unfolding peeks_def by blast
  qed
  have fixed: "peeks (\<lambda>_. Inr 8) b' (drop 8 b')" if "8 \<le> length b'"
    using that by (auto simp: peeks_def intro!: exI [of _ 8])
  note dests = DecodeInt_length DecodeUint_length DecodeFloat_length
  consider "flag = NilFlag" "r = b'" | "flag \<in> {intFlag, uintFlag, floatFlag}" "r = drop 8 b'" "8 \<le> length b'"
    | v where "flag = varintFlag" "DecodeVarint b' = Inr (r, v)" | v where "flag = uvarintFlag" "DecodeUvarint b' = Inr (r, v)"
    | v where "flag = bytesFlag" "DecodeBytes b' = Inr (r, v)" | v where "flag = compactBytesFlag" "DecodeCompactBytes b' = Inr (r, v)"
    using assms(1) Cons by (auto simp: DecodeOne_def map_sum_Inr_iff split: if_splits dest!: dests)
  then show ?thesis
  proof cases
    case 1
    then show ?thesis using Cons by (auto simp: peeks_def peek_def flag_defs intro!: exI [of _ 1])
  next
    case 2
    show ?thesis using 2 Cons by (intro step [OF fixed [OF 2(3), folded 2(2)]]) (auto simp: peek_def flag_defs)
  next
    case 3
    then show ?thesis using Cons by (intro step [OF peekVarint_decodes]) (auto simp: peek_def flag_defs)
  next
    case 4
    then show ?thesis using Cons by (intro step [OF peekUvarint_decodes]) (auto simp: peek_def flag_defs)
  next
    case 5
    then show ?thesis using Cons by (intro step [OF peekBytes_decodes]) (auto simp: peek_def flag_defs)
  next
    case 6
    then show ?thesis using Cons assms(2) by (intro step [OF peekCompactBytes_decodes]) (auto simp: peek_def flag_defs)
  qed
qed

lemma CutOne_code [codec_simps]:
  assumes "storable v" "length (code c v @ rest) < 2 ^ 63"
  shows "CutOne (code c v @ rest) = Inr (code c v, rest)"
proof -
  obtain l where l: "peek (code c v @ rest) = Inr (of_nat l)" "l \<le> length (code c v @ rest)"
      "rest = drop l (code c v @ rest)"
    using peek_decodes [OF DecodeOne_code [OF assms(1)] assms(2)] by (auto simp: peeks_def)
  then have "l = length (code c v)"
    by (metis add_diff_cancel_right' diff_diff_cancel length_append length_drop)
  then show ?thesis using l(1,2) slice_at_of_nat [OF l(2) assms(2)] by (simp add: CutOne_def)
qed

section \<open>Key order\<close>

text \<open>
  The order of single datums inside keys: first by kind, in the order of the flags, then by
  value.  Columns of one kind (and NULL) compare by value.
\<close>

fun key_flag :: "datum \<Rightarrow> nat" where
  "key_flag (KindBytes _) = 1"
| "key_flag (KindInt64 _) = 3"
| "key_flag (KindUint64 _) = 4"
| "key_flag (KindFloat64 _) = 5"
| "key_flag _ = 0"

fun value_less :: "datum \<Rightarrow> datum \<Rightarrow> bool" where
  "value_less (KindBytes a) (KindBytes b) = (a < b)"
| "value_less (KindInt64 a) (KindInt64 b) = (sint a < sint b)"
| "value_less (KindUint64 a) (KindUint64 b) = (a < b)"
| "value_less (KindFloat64 a) (KindFloat64 b) = (float_val a < float_val b)"
| "value_less _ _ = False"

definition key_less :: "datum \<Rightarrow> datum \<Rightarrow> bool" where
  "key_less d e = (key_flag d < key_flag e \<or> value_less d e)"

definition key_ok :: "datum \<Rightarrow> bool" where
  "key_ok d = (storable d \<and> norm d = d)"

lemma key_ok_cases:
  assumes "key_ok d"
  obtains "d = KindNull" | i where "d = KindInt64 i" | u where "d = KindUint64 u"
    | f where "d = KindFloat64 f" "float_canonical f" | s where "d = KindBytes s"
  using assms by (cases d) (auto simp: key_ok_def)

lemma code_key:
  "code True (KindInt64 i) = 3 # EncodeInt [] i" "code True (KindUint64 u) = 4 # EncodeUint [] u"
  "code True (KindFloat64 f) = 5 # EncodeFloat [] f" "code True (KindBytes s) = 1 # EncodeBytes [] s"
  "code True KindNull = [0]"
  by (simp_all add: encodeSignedInt_def encodeUnsignedInt_def encodeBytes_def flag_defs EncodeInt_def EncodeUint_def
      EncodeBytes_groups)

lemma key_less_mono:
  assumes "key_ok d" "key_ok e" "key_less d e"
  shows "code True d @ x < code True e @ y"
  using assms
  by (elim key_ok_cases) (auto simp: code_key key_less_def cmp_int.enc_mono cmp_uint.enc_mono cmp_float.enc_mono
      cmp_bytes.enc_mono simp del: code.simps)

lemma key_less_total:
  assumes "key_ok d" "key_ok e" "d \<noteq> e"
  shows "key_less d e \<or> key_less e d"
  using assms
  by (elim key_ok_cases) (auto simp: key_less_def dest: sint_total float_val_total)

interpretation cmp_datum: memcomparable key_ok key_less "code True" DecodeOne
proof
  show "DecodeOne (code True v @ rest) = Inr (rest, v)" if "key_ok v" for v rest
    using that DecodeOne_code [of v True rest] by (simp add: key_ok_def)
qed (use key_less_total key_less_mono in blast)+

lemma code_norm: "code c (norm d) = code c d"
  by (cases d) auto

lemma key_ok_norm: "storable d \<Longrightarrow> key_ok (norm d)"
  by (cases d) (auto simp: key_ok_def)

lemma concat_code_norm: "concat (map (code c) (map norm vs)) = concat (map (code c) vs)"
  by (simp add: code_norm comp_def)

lemma key_ok_map_norm: "list_all storable vs \<Longrightarrow> list_all key_ok (map norm vs)"
  by (induction vs) (auto simp: key_ok_norm)

lemma key_code_not_Nil: "key_ok v \<Longrightarrow> code True v \<noteq> []"
  by (simp add: key_ok_def code_not_Nil storable_encodable)

lemma EncodeKey_less_iff:
  assumes "list_all storable vs" "list_all storable ws"
  shows "concat (map (code True) vs) < concat (map (code True) ws) \<longleftrightarrow> lexl key_less (map norm vs) (map norm ws)"
  by (rule cmp_datum.concat_enc_less_iff [OF key_code_not_Nil key_ok_map_norm key_ok_map_norm,
        of vs ws, unfolded concat_code_norm, OF _ assms])

lemma EncodeKey_Inr:
  "EncodeKey b vs = Inr k \<longleftrightarrow> list_all encodable vs \<and> k = b @ concat (map (code True) vs)"
  by (auto simp: EncodeKey_def encode_code)

lemma EncodeValue_Inr:
  "EncodeValue b vs = Inr k \<longleftrightarrow> list_all encodable vs \<and> k = b @ concat (map (code False) vs)"
  by (auto simp: EncodeValue_def encode_code)

section \<open>Properties\<close>

text \<open>C28: Encoded keys compare byte-wise exactly as the lists of datums they encode compare
  lexicographically, column by column, with NULL first and a proper prefix before its extensions.\<close>

theorem EncodeKey_order:
  assumes "list_all storable vs" "list_all storable ws"
    and "EncodeKey b vs = Inr k" "EncodeKey b ws = Inr l"
  shows "k < l \<longleftrightarrow> lexl key_less (map norm vs) (map norm ws)"
  using assms by (simp add: EncodeKey_Inr EncodeKey_less_iff lex_append_left)

theorem EncodeKey_order_witness:
  "EncodeKey [] [KindInt64 (- 1), KindString [2]] = Inr (3 # 127 # replicate 7 255 @ 1 # 2 # replicate 7 0 @ [248])
   \<and> EncodeKey [] [KindInt64 0] = Inr (3 # 128 # replicate 7 0)
   \<and> 3 # 127 # replicate 7 255 @ 1 # 2 # replicate 7 0 @ [248] < 3 # 128 # replicate 7 (0::byte)"
proof -
  have e: "EncodeKey [] [KindInt64 (- 1), KindString [2]] = Inr (3 # 127 # replicate 7 255 @ 1 # 2 # replicate 7 0 @ [248])"
    "EncodeKey [] [KindInt64 0] = Inr (3 # 128 # replicate 7 0)"
    by code_simp+
  have "list_all storable [KindInt64 (- 1), KindString [2]]" "list_all storable [KindInt64 0]" by simp_all
  from EncodeKey_order [OF this e] e show ?thesis by (simp add: key_less_def)
qed

lemma Decode_code:
  assumes "vs \<noteq> []" "list_all storable vs"
  shows "Decode (concat (map (code c) vs)) = Inr (map norm vs)"
proof -
  have "concat (map (code c) vs) \<noteq> []"
    using assms by (cases vs) (auto simp: code_not_Nil storable_encodable)
  then show ?thesis unfolding Decode_def Decode_loop_code [OF assms(2)] less_one length_0_conv by simp
qed

text \<open>C30: Decoding an encoded key, or an encoded row value, gives back the datums: the same
  kinds and values, except that strings come back as bytes and 32-bit floats as 64-bit ones.\<close>

theorem Decode_encode:
  assumes "vs \<noteq> []" "list_all storable vs"
  shows "\<exists>k l. EncodeKey [] vs = Inr k \<and> Decode k = Inr (map norm vs) \<and>
               EncodeValue [] vs = Inr l \<and> Decode l = Inr (map norm vs)"
  using assms Decode_code [OF assms] storable_all_encodable [OF assms(2)]
  by (simp add: EncodeKey_Inr EncodeValue_Inr)

theorem Decode_encode_witness:
  "\<exists>k l. EncodeKey [] [KindUint64 300, KindNull, KindString [7]] = Inr k \<and>
     Decode k = Inr [KindUint64 300, KindNull, KindBytes [7]] \<and>
     EncodeValue [] [KindUint64 300, KindNull, KindString [7]] = Inr l \<and>
     Decode l = Inr [KindUint64 300, KindNull, KindBytes [7]]"
  using Decode_encode [of "[KindUint64 300, KindNull, KindString [7]]"] by simp

lemma DecodeRange_code:
  assumes "list_all storable vs" "bnd \<in> {KindNull, KindMinNotNull, KindMaxValue}"
  shows "DecodeRange (concat (map (code c) vs) @ code c bnd) = Inr (map norm vs @ [bnd])"
proof -
  have "length (code c bnd) \<le> 1" and ne: "code c bnd \<noteq> []" using assms(2) by auto
  then have "DecodeRange_loop (concat (map (code c) vs) @ code c bnd) [] = Inr (code c bnd, map norm vs)"
    using DecodeRange_loop_code [OF assms(1), of "code c bnd" c "[]"] by (simp del: code.simps)
  moreover have "\<not> length (concat (map (code c) vs) @ code c bnd) < 1"
    unfolding less_one length_0_conv using ne by simp
  ultimately show ?thesis unfolding DecodeRange_def using assms(2) by (auto simp: flag_defs)
qed

text \<open>A range bound, a list of column values closed by NULL, by the smallest non-NULL
  value or by the largest value, is read back from its encoding with the closing marker in place; a
  key whose largest-value marker was incremented reads back the same.\<close>

lemma DecodeRange_EncodeKey:
  assumes "list_all storable vs" "bnd \<in> {KindNull, KindMinNotNull, KindMaxValue}"
  shows "\<exists>k. EncodeKey [] (vs @ [bnd]) = Inr k \<and> DecodeRange k = Inr (map norm vs @ [bnd]) \<and>
    (bnd = KindMaxValue \<longrightarrow> DecodeRange (butlast k @ [last k + 1]) = Inr (map norm vs @ [bnd]))"
proof -
  let ?k = "concat (map (code True) vs) @ code True bnd"
  have "EncodeKey [] (vs @ [bnd]) = Inr ?k"
    using assms storable_all_encodable by (auto simp: EncodeKey_Inr)
  moreover have "DecodeRange (butlast ?k @ [last ?k + 1]) = Inr (map norm vs @ [bnd])" if "bnd = KindMaxValue"
    using that DecodeRange_loop_code [OF assms(1), of "[maxFlag + 1]" True "[]"]
    by (simp add: DecodeRange_def butlast_append) (simp add: flag_defs)
  ultimately show ?thesis using DecodeRange_code [OF assms, of True] by blast
qed

lemma code_head:
  assumes "storable x" "x \<noteq> KindNull"
  obtains f t where "code True x = f # t" "1 \<le> f" "f < 250" "f = 1 \<Longrightarrow> t \<noteq> []"
  using assms by (cases x) (auto simp: encodeSignedInt_def encodeUnsignedInt_def encodeBytes_def flag_defs
      EncodeInt_def EncodeUint_def EncodeBytes_groups len_simps simp flip: length_greater_0_conv)

text \<open>The bound markers bracket every key with the same leading columns: NULL below the
  smallest non-NULL marker, that marker below (or a prefix of) every non-NULL value, and the largest
  marker above it, whatever columns follow.\<close>

lemma EncodeKey_bounds:
  assumes "list_all storable p" "storable x" "x \<noteq> KindNull" "list_all storable q"
  shows "\<exists>kn km kx kM. EncodeKey b (p @ [KindNull]) = Inr kn \<and> EncodeKey b (p @ [KindMinNotNull]) = Inr km \<and>
    EncodeKey b (p @ x # q) = Inr kx \<and> EncodeKey b (p @ [KindMaxValue]) = Inr kM \<and> kn < km \<and> km < kx \<and> kx < kM"
proof -
  obtain f t where f: "code True x = f # t" "1 \<le> f" "f < 250" "f = 1 \<Longrightarrow> t \<noteq> []"
    using code_head [OF assms(2,3)] by blast
  have t: "1 < f \<or> f = 1 \<and> [] < t @ concat (map (code True) q)"
    using f(2,4) by (cases t) auto
  show ?thesis using assms f t
    by (simp add: EncodeKey_def encode_code storable_all_encodable storable_encodable lex_append_left flag_defs)
qed

text \<open>\<open>EstimateValueSize\<close> is exact: it is the length of the value encoding of the
  datum, and it rejects the kinds that \<open>EncodeValue\<close> rejects.\<close>

lemma EstimateValueSize_exact: "EstimateValueSize d = map_sum id length (EncodeValue [] [d])"
  by (cases d) (simp_all add: EstimateValueSize_def EncodeValue_def valueSizeOfSignedInt_eq valueSizeOfUnsignedInt_eq
      encodeSignedInt_def encodeUnsignedInt_def encodeBytes_def EncodeVarint_def EncodeUvarint_def
      EncodeCompactBytes_def valueSizeOfBytes_def EncodeFloat_def EncodeUint_def len_simps)

text \<open>The room \<open>preRealloc\<close> makes is enough for the whole encoding, so that \<open>encode\<close>
  never grows the slice again; for keys it is exact.\<close>

lemma preRealloc_enough:
  assumes "encode b vs c = Inr r"
  shows "\<exists>n. preRealloc_size vs c 0 = Some n \<and> length r \<le> length b + n \<and> (c \<longrightarrow> length r = length b + n)"
proof -
  have vs: "list_all encodable vs" and r: "r = b @ concat (map (code c) vs)"
    using assms by (auto simp: encode_code split: if_splits)
  have "length (concat (map (code c) vs)) \<le> sum_list (map (size_of c) vs)"
    using vs by (induction vs) (auto intro: add_mono length_code)
  moreover have "c \<Longrightarrow> length (concat (map (code c) vs)) = sum_list (map (size_of c) vs)"
    using vs by (induction vs) (auto simp: length_code)
  ultimately show ?thesis using vs r by (simp add: preRealloc_size_eq)
qed

text \<open>Cutting a value off the front of a byte string agrees with decoding it: whenever
  \<open>DecodeOne\<close> succeeds, \<open>CutOne\<close> returns exactly the bytes that were decoded and the same remainder.\<close>

lemma CutOne_DecodeOne:
  assumes "DecodeOne b = Inr (r, d)" "length b < 2 ^ 63"
  shows "CutOne b = Inr (take (length b - length r) b, r)"
proof -
  obtain l where "peek b = Inr (of_nat l)" "l \<le> length b" "r = drop l b"
    using peek_decodes [OF assms] by (auto simp: peeks_def)
  then show ?thesis using assms(2) by (simp add: CutOne_def slice_at_of_nat)
qed

end
