(* ===== verification/Kv_Key.thy ===== *)
theory Kv_Key
  imports Prelude
begin

text \<open>
  \<open>src/kv/key.go\<close>: byte-ordered keys, their successors, and key ranges.
\<close>

section \<open>Operations\<close>

definition Next :: "bytes \<Rightarrow> bytes" where
  "Next k = k @ [0]"

text \<open>
  The loop of \<open>PrefixNext\<close> runs from the last byte down: it increments a byte and stops
  unless the byte wrapped to zero.  The model runs over the reversed key; the flag says that
  the loop stopped before \<open>i\<close> reached \<open>-1\<close>.
\<close>

fun PrefixNext_loop :: "bytes \<Rightarrow> bytes \<times> bool" where
  "PrefixNext_loop [] = ([], False)"
| "PrefixNext_loop (c # cs) =
     (let c' = c + 1 in
      if c' \<noteq> 0 then (c' # cs, True)
      else let (cs', stopped) = PrefixNext_loop cs in (c' # cs', stopped))"

definition PrefixNext :: "bytes \<Rightarrow> bytes" where
  "PrefixNext k =
     (let (buf, stopped) = PrefixNext_loop (rev k) in if stopped then rev buf else k @ [0])"

definition Cmp :: "bytes \<Rightarrow> bytes \<Rightarrow> int" where
  "Cmp k another = (if k < another then - 1 else if k = another then 0 else 1)"

record KeyRange =
  StartKey :: bytes
  EndKey :: bytes

fun IsPoint_loop :: "bytes \<Rightarrow> bytes \<Rightarrow> bool" where
  "IsPoint_loop (s # ss) (e # es) =
     (if s \<noteq> 255 then s + 1 = e \<and> ss = es
      else if e \<noteq> 0 then False
      else IsPoint_loop ss es)"
| "IsPoint_loop _ _ = False"

definition IsPoint :: "KeyRange \<Rightarrow> bool" where
  "IsPoint r =
     (if length (StartKey r) \<noteq> length (EndKey r)
      then length (StartKey r) + 1 = length (EndKey r)
         \<and> EndKey r ! length (StartKey r) = 0
         \<and> StartKey r = take (length (StartKey r)) (EndKey r)
      else IsPoint_loop (rev (StartKey r)) (rev (EndKey r)))"

section \<open>Successor keys\<close>

lemma byte_succ_0: "(c::byte) + 1 = 0 \<longleftrightarrow> c = 255"
proof -
  have "c + 1 = 0 \<longleftrightarrow> c = - 1" by (simp only: add_eq_0_iff2)
  moreover have "(- 1 :: byte) = 255" by simp
  ultimately show ?thesis by (simp only:)
qed

lemma unat_byte_succ: "(c::byte) \<noteq> 255 \<Longrightarrow> unat (c + 1) = Suc (unat c)"
  using unatSuc [of c] byte_succ_0 [of c] by (simp add: add.commute)

lemma less_byte_succ: "(c::byte) \<noteq> 255 \<Longrightarrow> d < c + 1 \<longleftrightarrow> d \<le> c"
  by (simp add: word_less_nat_alt word_le_nat_alt unat_byte_succ less_Suc_eq_le)

text \<open>A key is all 255, or ends in a byte other than 255 followed by a run of 255.\<close>

lemma key_run_cases:
  fixes k :: bytes
  obtains n where "k = replicate n 255" | p c n where "k = p @ c # replicate n 255" "c \<noteq> 255"
proof (induction k arbitrary: thesis rule: rev_induct)
  case Nil
  show ?case by (rule Nil(1) [of 0]) simp
next
  case (snoc x xs)
  show ?case
  proof (cases "x = 255")
    case False
    then show ?thesis using snoc.prems(2) [of xs x 0] by simp
  next
    case True
    show ?thesis
    proof (rule snoc.IH)
      fix n assume "xs = replicate n 255"
      then show thesis using snoc.prems(1) [of "Suc n"] True by (simp flip: replicate_append_same)
    next
      fix p c n assume "xs = p @ c # replicate n 255" "c \<noteq> 255"
      then show thesis using snoc.prems(2) [of p c "Suc n"] True by (simp flip: replicate_append_same)
    qed
  qed
qed

lemma PrefixNext_loop_run:
  "PrefixNext_loop (replicate n 255 @ cs) =
     (replicate n 0 @ fst (PrefixNext_loop cs), snd (PrefixNext_loop cs))"
  by (induction n) (auto simp: split_beta)

lemma PrefixNext_run [simp]: "PrefixNext (replicate n 255) = replicate n 255 @ [0]"
  using PrefixNext_loop_run [of n "[]"] by (simp add: PrefixNext_def)

lemma PrefixNext_step:
  "c \<noteq> 255 \<Longrightarrow> PrefixNext (p @ c # replicate n 255) = p @ (c + 1) # replicate n 0"
  using PrefixNext_loop_run [of n "c # rev p"] byte_succ_0 [of c] by (simp add: PrefixNext_def)

lemma run_less_iff: "length z \<ge> n \<Longrightarrow> \<not> z < replicate n (0::byte)"
  by (induction n arbitrary: z) (auto simp: Suc_le_length_iff)

lemma run_255_le: "length z \<ge> n \<Longrightarrow> replicate n (255::byte) \<le> z \<longleftrightarrow> HasPrefix z (replicate n 255)"
proof (induction n arbitrary: z)
  case (Suc n)
  then obtain c z' where z: "z = c # z'" "n \<le> length z'" by (auto simp: Suc_le_length_iff)
  have "\<not> 255 < unat c" using unat_byte_less [of c] by linarith
  then have "\<not> 255 < c" by (simp add: word_less_nat_alt)
  then show ?case using Suc.IH [OF z(2)] z(1) by auto
qed simp

lemma IsPoint_loop_run:
  "IsPoint_loop (replicate n 255 @ ss) es \<longleftrightarrow> (\<exists>es'. es = replicate n 0 @ es' \<and> IsPoint_loop ss es')"
proof (induction n arbitrary: es)
  case (Suc n)
  then show ?case by (cases es) auto
qed simp

lemma prefix_range_run:
  assumes "c \<noteq> 255" "length (p @ c # replicate n 255) \<le> length x"
  shows "p @ c # replicate n 255 \<le> x \<and> x < p @ (c + 1) # replicate n 0 \<longleftrightarrow>
    HasPrefix x (p @ c # replicate n 255)"
  using assms(2)
proof (induction p arbitrary: x)
  case Nil
  then obtain d z where x: "x = d # z" "n \<le> length z" by (cases x) auto
  have c: "c < c + 1" "\<And>d. d < c + 1 \<Longrightarrow> \<not> c < d" using less_byte_succ [OF assms(1)] by auto
  have "d # z < (c + 1) # replicate n 0 \<longleftrightarrow> d < c + 1" using run_less_iff [OF x(2)] by simp
  moreover have "c # replicate n 255 \<le> d # z \<longleftrightarrow> c < d \<or> c = d \<and> HasPrefix z (replicate n 255)"
    using run_255_le [OF x(2)] by simp
  ultimately show ?case using c x(1) by auto
next
  case (Cons q p)
  then obtain d z where "x = d # z" "length (p @ c # replicate n 255) \<le> length z" by (cases x) auto
  then show ?case using Cons.IH [of z] by auto
qed

lemma run_distinct: "c \<noteq> 255 \<Longrightarrow> p @ c # ys \<noteq> replicate m (255::byte)"
  by (metis in_set_conv_decomp in_set_replicate)

section \<open>Properties\<close>

text \<open>\<open>Next\<close> is the immediate successor in byte order: nothing lies between a key
  and its \<open>Next\<close>.\<close>

lemma Next_successor: "k < x \<longleftrightarrow> Next k \<le> x"
  unfolding Next_def
proof (induction k arbitrary: x)
  case Nil
  show ?case
  proof (cases x)
    case (Cons a y)
    have "[] \<le> y" "0 \<le> a" by auto
    then show ?thesis using Cons by (auto simp: le_less)
  qed simp
next
  case (Cons c k)
  then show ?case by (cases x) auto
qed

text \<open>Among the keys at least as long as the prefix, those from a prefix up to its
  \<open>PrefixNext\<close> are exactly the keys that start with it, unless the prefix is made of 255 only,
  where \<open>PrefixNext\<close> is \<open>Next\<close>.\<close>

lemma PrefixNext_range:
  assumes "length k \<le> length x"
  shows "if k = replicate (length k) 255 then PrefixNext k = Next k
         else (k \<le> x \<and> x < PrefixNext k \<longleftrightarrow> HasPrefix x k)"
proof (cases k rule: key_run_cases)
  case (1 n)
  then show ?thesis by (simp add: Next_def)
next
  case (2 p c n)
  then have "k \<noteq> replicate (length k) 255"
    using run_distinct [OF 2(2), of p "replicate n 255" "length k"] by metis
  then show ?thesis using 2 assms prefix_range_run [of c p n x] by (simp add: PrefixNext_step)
qed

lemma rev_eq_run_iff: "rev es = replicate n 0 @ xs \<longleftrightarrow> es = rev xs @ replicate n (0::byte)"
  by (metis rev_append rev_replicate rev_rev_ident)

lemma IsPoint_loop_step:
  assumes "c \<noteq> 255"
  shows "IsPoint_loop (rev (p @ c # replicate n 255)) (rev e) \<longleftrightarrow> e = p @ (c + 1) # replicate n 0"
proof -
  have step: "IsPoint_loop (c # rev p) xs \<longleftrightarrow> xs = (c + 1) # rev p" for xs
    using assms by (cases xs) auto
  have "rev (p @ c # replicate n 255) = replicate n 255 @ c # rev p" by simp
  then show ?thesis by (simp only: IsPoint_loop_run rev_eq_run_iff step) auto
qed

text \<open>A key range is a point exactly when its end key is the \<open>Next\<close> or the \<open>PrefixNext\<close> of
  its start key.\<close>

lemma IsPoint_iff:
  "IsPoint r \<longleftrightarrow> EndKey r = Next (StartKey r) \<or> EndKey r = PrefixNext (StartKey r)"
proof (cases "length (StartKey r) = length (EndKey r)")
  case True
  then have no: "EndKey r \<noteq> Next (StartKey r)" by (auto simp: Next_def)
  show ?thesis
  proof (cases "StartKey r" rule: key_run_cases)
    case (1 n)
    then show ?thesis using True no IsPoint_loop_run [of n "[]"] by (auto simp: IsPoint_def Next_def)
  next
    case (2 p c n)
    then show ?thesis using True no by (simp add: IsPoint_def IsPoint_loop_step PrefixNext_step del: rev_append)
  qed
next
  case False
  have "IsPoint r \<longleftrightarrow> EndKey r = Next (StartKey r)"
    using False by (cases "EndKey r" rule: rev_cases) (auto simp: IsPoint_def Next_def nth_append)
  moreover have "EndKey r = PrefixNext (StartKey r) \<Longrightarrow> EndKey r = Next (StartKey r)"
    using False by (cases "StartKey r" rule: key_run_cases) (auto simp: PrefixNext_step Next_def)
  ultimately show ?thesis by blast
qed

end
