(* ===== verification/Table_Codec.thy ===== *)
theory Table_Codec
  imports Datum_Codec Kv_Key
begin

text \<open>
  \<open>src/tablecodec/tablecodec.go\<close>: the keys under which rows and index entries are stored,
  the ranges that enclose them, and the functions that take such keys and the values of the old row
  format apart.  A key is \<open>t<table>_r<handle>\<close> or \<open>t<table>_i<index><values>\<close>.
\<close>

section \<open>Errors and constants\<close>

datatype table_err =
    CodecErr codec_err
  | ErrInvalidKey
  | UnexpectedEOF
  | NoHandle

definition tablePrefix :: bytes where "tablePrefix = [0x74]"
definition recordPrefixSep :: bytes where "recordPrefixSep = [0x5F, 0x72]"
definition indexPrefixSep :: bytes where "indexPrefixSep = [0x5F, 0x69]"

definition idLen :: nat where "idLen = 8"
definition prefixLen :: nat where "prefixLen = 1 + idLen + 2"
definition RecordRowKeyLen :: nat where "RecordRowKeyLen = prefixLen + idLen"

lemmas table_defs = tablePrefix_def recordPrefixSep_def indexPrefixSep_def idLen_def prefixLen_def RecordRowKeyLen_def

text \<open>The slice expression \<open>key[n:]\<close>.\<close>

definition slice_from :: "nat \<Rightarrow> bytes \<Rightarrow> table_err + bytes" where
  "slice_from n key = (if length key < n then Inl (CodecErr Panic) else Inr (drop n key))"

section \<open>Building keys\<close>

definition appendTableRecordPrefix :: "bytes \<Rightarrow> u64 \<Rightarrow> bytes" where
  "appendTableRecordPrefix buf tableID =
     (let buf = buf @ tablePrefix; buf = EncodeInt buf tableID in buf @ recordPrefixSep)"

definition EncodeRowKeyWithHandle :: "u64 \<Rightarrow> u64 \<Rightarrow> bytes" where
  "EncodeRowKeyWithHandle tableID handle = EncodeInt (appendTableRecordPrefix [] tableID) handle"

definition appendTableIndexPrefix :: "bytes \<Rightarrow> u64 \<Rightarrow> bytes" where
  "appendTableIndexPrefix buf tableID =
     (let buf = buf @ tablePrefix; buf = EncodeInt buf tableID in buf @ indexPrefixSep)"

definition EncodeIndexSeekKey :: "u64 \<Rightarrow> u64 \<Rightarrow> bytes \<Rightarrow> bytes" where
  "EncodeIndexSeekKey tableID idxID encodedValue =
     EncodeInt (appendTableIndexPrefix [] tableID) idxID @ encodedValue"

definition EncodeRowKey :: "u64 \<Rightarrow> bytes \<Rightarrow> bytes" where
  "EncodeRowKey tableID encodedHandle = appendTableRecordPrefix [] tableID @ encodedHandle"

definition EncodeRecordKey :: "bytes \<Rightarrow> u64 \<Rightarrow> bytes" where
  "EncodeRecordKey recordPrefix h = EncodeInt recordPrefix h"

definition EncodeTableIndexPrefix :: "u64 \<Rightarrow> u64 \<Rightarrow> bytes" where
  "EncodeTableIndexPrefix tableID idxID = EncodeInt (appendTableIndexPrefix [] tableID) idxID"

definition EncodeTablePrefix :: "u64 \<Rightarrow> bytes" where
  "EncodeTablePrefix tableID = EncodeInt tablePrefix tableID"

definition GenTableRecordPrefix :: "u64 \<Rightarrow> bytes" where
  "GenTableRecordPrefix tableID = appendTableRecordPrefix [] tableID"

definition GenTableIndexPrefix :: "u64 \<Rightarrow> bytes" where
  "GenTableIndexPrefix tableID = appendTableIndexPrefix [] tableID"

definition GenTablePrefix :: "u64 \<Rightarrow> bytes" where
  "GenTablePrefix tableID = EncodeInt ([] @ tablePrefix) tableID"

definition GetTableHandleKeyRange :: "u64 \<Rightarrow> bytes \<times> bytes" where
  "GetTableHandleKeyRange tableID =
     (EncodeRowKeyWithHandle tableID MinInt64, EncodeRowKeyWithHandle tableID MaxInt64)"

definition GetTableIndexKeyRange :: "u64 \<Rightarrow> u64 \<Rightarrow> bytes \<times> bytes" where
  "GetTableIndexKeyRange tableID indexID =
     (EncodeIndexSeekKey tableID indexID [], EncodeIndexSeekKey tableID indexID [255])"

definition ReplaceRecordKeyTableID :: "bytes \<Rightarrow> u64 \<Rightarrow> bytes" where
  "ReplaceRecordKeyTableID buf tableID =
     (if length buf < length tablePrefix + 8 then buf
      else take (length tablePrefix) buf @ PutUint64 (EncodeIntToCmpUint tableID) @ drop (length tablePrefix + 8) buf)"

definition TruncateToRowKeyLen :: "bytes \<Rightarrow> bytes" where
  "TruncateToRowKeyLen key = (if length key > RecordRowKeyLen then take RecordRowKeyLen key else key)"

section \<open>Taking keys apart\<close>

text \<open>The bodies of \<open>DecodeRecordKey\<close> and \<open>DecodeIndexKeyPrefix\<close> are missing from the source:
  they return the zero values of their results and no error.\<close>

definition DecodeRecordKey :: "bytes \<Rightarrow> table_err + u64 \<times> u64" where
  "DecodeRecordKey key = Inr (0, 0)"

definition DecodeIndexKeyPrefix :: "bytes \<Rightarrow> table_err + u64 \<times> u64 \<times> bytes" where
  "DecodeIndexKeyPrefix key = Inr (0, 0, [])"

definition CutRowKeyPrefix :: "bytes \<Rightarrow> table_err + bytes" where
  "CutRowKeyPrefix key = slice_from prefixLen key"

definition CutIndexPrefix :: "bytes \<Rightarrow> table_err + bytes" where
  "CutIndexPrefix key = slice_from (prefixLen + idLen) key"

definition hasTablePrefix :: "bytes \<Rightarrow> bool" where
  "hasTablePrefix key = (key ! 0 = tablePrefix ! 0)"

definition hasRecordPrefixSep :: "bytes \<Rightarrow> bool" where
  "hasRecordPrefixSep key = (key ! 0 = recordPrefixSep ! 0 \<and> key ! 1 = recordPrefixSep ! 1)"

definition DecodeKeyHead :: "bytes \<Rightarrow> table_err + u64 \<times> u64 \<times> bool" where
  "DecodeKeyHead key =
     (if \<not> HasPrefix key tablePrefix then Inl ErrInvalidKey
      else case DecodeInt (drop (length tablePrefix) key) of
        Inl e \<Rightarrow> Inl (CodecErr e)
      | Inr (key', tableID) \<Rightarrow>
          if HasPrefix key' recordPrefixSep then Inr (tableID, 0, True)
          else if \<not> HasPrefix key' indexPrefixSep then Inl ErrInvalidKey
          else case DecodeInt (drop (length indexPrefixSep) key') of
            Inl e \<Rightarrow> Inl (CodecErr e)
          | Inr (_, indexID) \<Rightarrow> Inr (tableID, indexID, False))"

definition DecodeTableID :: "bytes \<Rightarrow> u64" where
  "DecodeTableID key =
     (if \<not> HasPrefix key tablePrefix then 0
      else case DecodeInt (drop (length tablePrefix) key) of
        Inl _ \<Rightarrow> 0
      | Inr (_, tableID) \<Rightarrow> tableID)"

definition DecodeRowKey :: "bytes \<Rightarrow> table_err + u64" where
  "DecodeRowKey key =
     (if length key \<noteq> RecordRowKeyLen \<or> \<not> hasTablePrefix key \<or> \<not> hasRecordPrefixSep (drop (prefixLen - 2) key)
      then Inl ErrInvalidKey
      else let u = Uint64 (take 8 (drop prefixLen key)) in Inr (DecodeCmpUintToInt u))"

definition IsIndexKey :: "bytes \<Rightarrow> bool" where
  "IsIndexKey k = (length k > 11 \<and> k ! 0 = 0x74 \<and> k ! 10 = 0x69)"

definition UnCommitIndexKVFlag :: byte where "UnCommitIndexKVFlag = 0x31"

definition IsUntouchedIndexKValue :: "bytes \<Rightarrow> bytes \<Rightarrow> bool" where
  "IsUntouchedIndexKValue k v =
     (let vLen = length v in
      IsIndexKey k \<and> (vLen = 1 \<or> vLen = 9) \<and> v ! (vLen - 1) = UnCommitIndexKVFlag)"

section \<open>Index entries\<close>

fun CutIndexKeyNew_loop :: "nat \<Rightarrow> bytes \<Rightarrow> codec_err + bytes list \<times> bytes" where
  "CutIndexKeyNew_loop 0 b = Inr ([], b)"
| "CutIndexKeyNew_loop (Suc n) b =
     (case CutOne b of
        Inl e \<Rightarrow> Inl e
      | Inr (val, b') \<Rightarrow> map_sum id (apfst ((#) val)) (CutIndexKeyNew_loop n b'))"

definition CutIndexKeyNew :: "bytes \<Rightarrow> nat \<Rightarrow> table_err + bytes list \<times> bytes" where
  "CutIndexKeyNew key n =
     (case slice_from (prefixLen + idLen) key of
        Inl e \<Rightarrow> Inl e
      | Inr b \<Rightarrow> map_sum CodecErr id (CutIndexKeyNew_loop n b))"

fun CutIndexKey_loop :: "u64 list \<Rightarrow> (u64 \<rightharpoonup> bytes) \<Rightarrow> bytes \<Rightarrow> codec_err + (u64 \<rightharpoonup> bytes) \<times> bytes" where
  "CutIndexKey_loop [] values b = Inr (values, b)"
| "CutIndexKey_loop (i # colIDs) values b =
     (case CutOne b of
        Inl e \<Rightarrow> Inl e
      | Inr (val, b') \<Rightarrow> CutIndexKey_loop colIDs (values(i \<mapsto> val)) b')"

definition CutIndexKey :: "bytes \<Rightarrow> u64 list \<Rightarrow> table_err + (u64 \<rightharpoonup> bytes) \<times> bytes" where
  "CutIndexKey key colIDs =
     (case slice_from (prefixLen + idLen) key of
        Inl e \<Rightarrow> Inl e
      | Inr b \<Rightarrow> map_sum CodecErr id (CutIndexKey_loop colIDs Map.empty b))"

text \<open>\<open>binary.Read\<close> of an \<open>int64\<close> from a buffer.\<close>

definition DecodeIndexValueAsHandle :: "bytes \<Rightarrow> table_err + u64" where
  "DecodeIndexValueAsHandle data = (if length data < 8 then Inl UnexpectedEOF else Inr (Uint64 (take 8 data)))"

datatype PrimaryKeyStatus = PrimaryKeyNotExists | PrimaryKeyIsSigned | PrimaryKeyIsUnsigned

definition DecodeIndexKV :: "bytes \<Rightarrow> bytes \<Rightarrow> nat \<Rightarrow> PrimaryKeyStatus \<Rightarrow> table_err + bytes list" where
  "DecodeIndexKV key value colsLen pkStatus =
     (case CutIndexKeyNew key colsLen of
        Inl e \<Rightarrow> Inl e
      | Inr (values, b) \<Rightarrow>
          if length b > 0 then Inr (if pkStatus \<noteq> PrimaryKeyNotExists then values @ [b] else values)
          else if pkStatus \<noteq> PrimaryKeyNotExists then
            (case DecodeIndexValueAsHandle value of
               Inl e \<Rightarrow> Inl e
             | Inr handle \<Rightarrow>
                 let handleDatum = (if pkStatus = PrimaryKeyIsUnsigned then KindUint64 handle else KindInt64 handle) in
                 map_sum CodecErr (\<lambda>handleBytes. values @ [handleBytes]) (EncodeValue [] [handleDatum]))
          else Inr values)"

text \<open>\<open>Datum.GetInt64\<close>: the integer field, zero in the kinds that do not set it.\<close>

fun GetInt64 :: "datum \<Rightarrow> u64" where
  "GetInt64 (KindInt64 i) = i"
| "GetInt64 (KindUint64 u) = u"
| "GetInt64 (KindFloat32 f) = f"
| "GetInt64 (KindFloat64 f) = f"
| "GetInt64 _ = 0"

definition DecodeColumnValue :: "bytes \<Rightarrow> table_err + datum" where
  "DecodeColumnValue data = map_sum CodecErr snd (DecodeOne data)"

definition DecodeIndexHandle :: "bytes \<Rightarrow> bytes \<Rightarrow> nat \<Rightarrow> table_err + u64" where
  "DecodeIndexHandle key value colsLen =
     (case CutIndexKeyNew key colsLen of
        Inl e \<Rightarrow> Inl e
      | Inr (_, b) \<Rightarrow>
          if length b > 0 then map_sum id GetInt64 (DecodeColumnValue b)
          else if length value \<ge> 8 then DecodeIndexValueAsHandle value
          else Inl NoHandle)"

section \<open>The old row format\<close>

text \<open>
  \<open>DecodeRowWithMap\<close>; \<open>cols\<close> are the keys of the column map, whose field types \<open>unflatten\<close>
  ignores.
\<close>

lemma CutOne_length: "CutOne b = Inr (d, r) \<Longrightarrow> b = d @ r"
  by (auto simp: CutOne_def slice_at_def split: sum.splits if_splits)

lemma DecodeOne_not_Nil: "DecodeOne d = Inr x \<Longrightarrow> d \<noteq> []"
  by (auto simp: DecodeOne_def)

function DecodeRow_loop ::
  "bytes \<Rightarrow> u64 list \<Rightarrow> (u64 \<rightharpoonup> datum) \<Rightarrow> nat \<Rightarrow> table_err + (u64 \<rightharpoonup> datum)" where
  "DecodeRow_loop b cols row cnt =
     (if length b > 0 then
        (case CutOne b of
           Inl e \<Rightarrow> Inl (CodecErr e)
         | Inr (data, b1) \<Rightarrow>
        (case DecodeOne data of
           Inl e \<Rightarrow> Inl (CodecErr e)
         | Inr (_, cid) \<Rightarrow>
        (case CutOne b1 of
           Inl e \<Rightarrow> Inl (CodecErr e)
         | Inr (data', b2) \<Rightarrow>
             let i = GetInt64 cid in
             if i \<in> set cols then
               (case DecodeOne data' of
                  Inl e \<Rightarrow> Inl (CodecErr e)
                | Inr (_, v) \<Rightarrow>
                    let row' = row(i \<mapsto> v); cnt' = cnt + 1 in
                    if cnt' = length cols then Inr row' else DecodeRow_loop b2 cols row' cnt')
             else DecodeRow_loop b2 cols row cnt)))
      else Inr row)"
  by pat_completeness auto
termination
  by (relation "measure (\<lambda>(b, _). length b)")
    (auto dest!: CutOne_length DecodeOne_not_Nil)

declare DecodeRow_loop.simps [simp del]

definition DecodeRowWithMap :: "bytes \<Rightarrow> u64 list \<Rightarrow> (u64 \<rightharpoonup> datum) \<Rightarrow> table_err + (u64 \<rightharpoonup> datum)" where
  "DecodeRowWithMap b cols row = (if b = [NilFlag] then Inr row else DecodeRow_loop b cols row 0)"

section \<open>Shape and order of keys\<close>

lemma EncodeInt_append: "EncodeInt b v = b @ EncodeInt [] v"
  by (simp add: EncodeInt_def)

lemma length_EncodeInt [simp]: "length (EncodeInt [] v) = 8"
  by (simp add: EncodeInt_def len_simps)

lemmas key_shapes = EncodeRowKeyWithHandle_def appendTableRecordPrefix_def appendTableIndexPrefix_def
  EncodeIndexSeekKey_def EncodeRowKey_def EncodeRecordKey_def EncodeTableIndexPrefix_def EncodeTablePrefix_def
  GenTableRecordPrefix_def GenTableIndexPrefix_def GenTablePrefix_def

lemma row_key_shape: "EncodeRowKeyWithHandle t h = 0x74 # EncodeInt [] t @ [0x5F, 0x72] @ EncodeInt [] h"
  by (simp add: key_shapes table_defs EncodeInt_def)

lemma index_key_shape: "EncodeIndexSeekKey t i v = 0x74 # EncodeInt [] t @ [0x5F, 0x69] @ EncodeInt [] i @ v"
  by (simp add: key_shapes table_defs EncodeInt_def)

lemma prefix_shapes:
  "GenTableRecordPrefix t = 0x74 # EncodeInt [] t @ [0x5F, 0x72]"
  "GenTableIndexPrefix t = 0x74 # EncodeInt [] t @ [0x5F, 0x69]"
  "EncodeTableIndexPrefix t i = 0x74 # EncodeInt [] t @ [0x5F, 0x69] @ EncodeInt [] i"
  "GenTablePrefix t = 0x74 # EncodeInt [] t"
  by (simp_all add: key_shapes table_defs EncodeInt_def)

text \<open>Comparisons of keys, kind by kind; \<open>i\<close> sorts before \<open>r\<close>.\<close>

lemma key_less_iffs:
  "EncodeRowKeyWithHandle t h < EncodeRowKeyWithHandle t' h' \<longleftrightarrow> sint t < sint t' \<or> t = t' \<and> sint h < sint h'"
  "EncodeIndexSeekKey t i v < EncodeIndexSeekKey t' i' v' \<longleftrightarrow>
      sint t < sint t' \<or> t = t' \<and> (sint i < sint i' \<or> i = i' \<and> v < v')"
  "EncodeIndexSeekKey t i v < EncodeRowKeyWithHandle t' h' \<longleftrightarrow> sint t < sint t' \<or> t = t'"
  "EncodeRowKeyWithHandle t h < EncodeIndexSeekKey t' i' v' \<longleftrightarrow> sint t < sint t'"
  by (simp_all add: row_key_shape index_key_shape cmp_int.enc_less_iff cmp_int.enc_order)

lemma sint_extremes:
  "\<not> sint h < sint (MinInt64::u64)" "sint h < sint (MaxInt64::u64) \<longleftrightarrow> h \<noteq> MaxInt64"
proof -
  show "\<not> sint h < sint (MinInt64::u64)" using sint_ge [of h] by simp
  have "\<not> sint (MaxInt64::u64) < sint h" using sint_lt [of h] by simp
  then show "sint h < sint (MaxInt64::u64) \<longleftrightarrow> h \<noteq> MaxInt64" using sint_total [of h MaxInt64] by auto
qed

lemma CutIndexKeyNew_loop_code:
  assumes "list_all storable vs" "length (concat (map (code True) vs) @ r) < 2 ^ 63"
  shows "CutIndexKeyNew_loop (length vs) (concat (map (code True) vs) @ r) = Inr (map (code True) vs, r)"
  using assms by (induction vs) (auto simp: CutOne_code)

lemma CutIndexKeyNew_code:
  assumes "list_all storable vs" "length (concat (map (code True) vs) @ r) < 2 ^ 63"
  shows "CutIndexKeyNew (EncodeIndexSeekKey t i (concat (map (code True) vs) @ r)) (length vs) = Inr (map (code True) vs, r)"
  using CutIndexKeyNew_loop_code [OF assms]
  by (simp add: CutIndexKeyNew_def slice_from_def index_key_shape table_defs)

text \<open>A row in the old layout: column id and value, one after the other.\<close>

definition old_row :: "(u64 \<times> datum) list \<Rightarrow> bytes" where
  "old_row kvs = concat (map (\<lambda>(i, v). code False (KindInt64 i) @ code False v) kvs)"

definition row_map :: "(u64 \<times> datum) list \<Rightarrow> u64 \<rightharpoonup> datum" where
  "row_map kvs = map_of (map (\<lambda>(i, v). (i, norm v)) kvs)"

lemma row_map_None: "i \<notin> fst ` set kvs \<Longrightarrow> row_map kvs i = None"
  by (force simp: row_map_def map_of_eq_None_iff)

lemma row_map_Cons: "row_map ((i, v) # kvs) = (row_map kvs)(i \<mapsto> norm v)"
  by (simp add: row_map_def)

lemma DecodeRow_loop_step:
  assumes "storable v" "length (old_row ((i, v) # kvs)) < 2 ^ 63"
  shows "DecodeRow_loop (old_row ((i, v) # kvs)) cols row cnt =
    (if i \<in> set cols then
       (if cnt + 1 = length cols then Inr (row(i \<mapsto> norm v)) else DecodeRow_loop (old_row kvs) cols (row(i \<mapsto> norm v)) (cnt + 1))
     else DecodeRow_loop (old_row kvs) cols row cnt)"
proof -
  let ?id = "code False (KindInt64 i)"
  have b: "old_row ((i, v) # kvs) = ?id @ code False v @ old_row kvs" by (simp add: old_row_def)
  have 1: "CutOne (?id @ code False v @ old_row kvs) = Inr (?id, code False v @ old_row kvs)"
    using assms(2) unfolding b by (intro CutOne_code) (simp_all del: code.simps)
  have 2: "CutOne (code False v @ old_row kvs) = Inr (code False v, old_row kvs)"
    using assms unfolding b by (intro CutOne_code) (simp_all del: code.simps)
  have 3: "DecodeOne ?id = Inr ([], KindInt64 i)" "DecodeOne (code False v) = Inr ([], norm v)"
    using DecodeOne_code [of "KindInt64 i" False "[]"] DecodeOne_code [OF assms(1), of False "[]"] by (simp_all del: code.simps)
  have "0 < length (?id @ code False v @ old_row kvs)" using code_not_Nil [of "KindInt64 i" False] by (simp del: code.simps)
  then show ?thesis unfolding b
    by (subst DecodeRow_loop.simps) (simp add: 1 2 3 del: code.simps)
qed

lemma DecodeRow_loop_old_row:
  assumes "list_all (storable \<circ> snd) kvs" "length (old_row kvs) < 2 ^ 63" "distinct (map fst kvs)"
    "cnt + card (set cols \<inter> fst ` set kvs) \<le> length cols"
  shows "DecodeRow_loop (old_row kvs) cols row cnt = Inr (row ++ (row_map kvs |` set cols))"
  using assms
proof (induction kvs arbitrary: row cnt)
  case Nil
  then show ?case by (subst DecodeRow_loop.simps) (simp add: old_row_def row_map_def fun_eq_iff restrict_map_def)
next
  case (Cons kv kvs)
  obtain i v where kv: "kv = (i, v)" by (cases kv)
  have len: "length (old_row kvs) < 2 ^ 63" using Cons.prems(2) by (simp add: old_row_def kv)
  have v: "storable v" using Cons.prems(1) kv by simp
  have fresh: "i \<notin> fst ` set kvs" using Cons.prems(3) kv by auto
  show ?case
  proof (cases "i \<in> set cols")
    case True
    have "set cols \<inter> fst ` set (kv # kvs) = insert i (set cols \<inter> fst ` set kvs)" using True kv by auto
    then have card: "card (set cols \<inter> fst ` set (kv # kvs)) = Suc (card (set cols \<inter> fst ` set kvs))"
      using fresh by simp
    have eq: "row ++ (row_map (kv # kvs) |` set cols) = row(i \<mapsto> norm v) ++ (row_map kvs |` set cols)"
      using True row_map_None [OF fresh]
      by (auto simp: kv row_map_Cons fun_eq_iff map_add_def restrict_map_def split: option.splits)
    show ?thesis
    proof (cases "cnt + 1 = length cols")
      case last: True
      then have "card (set cols \<inter> fst ` set kvs) = 0" using Cons.prems(4) card by linarith
      then have "set cols \<inter> fst ` set kvs = {}" by simp
      then have "row_map kvs |` set cols = Map.empty"
        by (intro ext) (auto simp: restrict_map_def intro!: row_map_None)
      then have "row ++ (row_map (kv # kvs) |` set cols) = row(i \<mapsto> norm v)" using eq by simp
      moreover have "DecodeRow_loop (old_row (kv # kvs)) cols row cnt = Inr (row(i \<mapsto> norm v))"
        unfolding kv DecodeRow_loop_step [OF v Cons.prems(2) [unfolded kv]] using last True by simp
      ultimately show ?thesis by (simp only:)
    next
      case False
      have "DecodeRow_loop (old_row (kv # kvs)) cols row cnt = DecodeRow_loop (old_row kvs) cols (row(i \<mapsto> norm v)) (cnt + 1)"
        unfolding kv DecodeRow_loop_step [OF v Cons.prems(2) [unfolded kv]] using False True by simp
      also have "\<dots> = Inr (row(i \<mapsto> norm v) ++ (row_map kvs |` set cols))"
        using Cons.prems len card by (intro Cons.IH) auto
      finally show ?thesis unfolding eq .
    qed
  next
    case False
    then have "set cols \<inter> fst ` set (kv # kvs) = set cols \<inter> fst ` set kvs"
      "row_map (kv # kvs) |` set cols = row_map kvs |` set cols"
      using kv by (auto simp: row_map_Cons fun_eq_iff restrict_map_def)
    moreover have "DecodeRow_loop (old_row (kv # kvs)) cols row cnt = DecodeRow_loop (old_row kvs) cols row cnt"
      unfolding kv DecodeRow_loop_step [OF v Cons.prems(2) [unfolded kv]] using False by simp
    ultimately show ?thesis using Cons.prems len Cons.IH [of cnt row] by auto
  qed
qed

section \<open>Properties\<close>

text \<open>C31: Keys are ordered by table first.  Within a table the index keys come before the
  row keys; row keys are ordered by their signed handles, index keys by index and then by their
  encoded values.\<close>

theorem table_key_order:
  "(EncodeRowKeyWithHandle t h < EncodeRowKeyWithHandle t' h' \<longleftrightarrow> sint t < sint t' \<or> t = t' \<and> sint h < sint h') \<and>
   (EncodeIndexSeekKey t i v < EncodeIndexSeekKey t' i' v' \<longleftrightarrow>
      sint t < sint t' \<or> t = t' \<and> (sint i < sint i' \<or> i = i' \<and> v < v')) \<and>
   (EncodeIndexSeekKey t i v < EncodeRowKeyWithHandle t' h' \<longleftrightarrow> sint t < sint t' \<or> t = t')"
  by (simp only: key_less_iffs)

text \<open>A row key decodes to its handle, its head to the table and to a record; an index key's
  head decodes to the table and the index.  No record key is taken for an index key.\<close>

lemma table_key_decode:
  "DecodeRowKey (EncodeRowKeyWithHandle t h) = Inr h \<and>
   DecodeKeyHead (EncodeRowKeyWithHandle t h) = Inr (t, 0, True) \<and>
   DecodeKeyHead (EncodeIndexSeekKey t i v) = Inr (t, i, False) \<and>
   DecodeTableID (EncodeRowKeyWithHandle t h) = t \<and> DecodeTableID (EncodeIndexSeekKey t i v) = t \<and>
   DecodeRowKey (EncodeIndexSeekKey t i v) = Inl ErrInvalidKey \<and>
   IsIndexKey (EncodeIndexSeekKey t i v) \<and> \<not> IsIndexKey (EncodeRowKeyWithHandle t h)"
proof -
  have i: "DecodeInt (EncodeInt [] u @ x) = Inr (x, u)" for u x by (simp add: cmp_int.dec_enc)
  have u: "DecodeCmpUintToInt (Uint64 (EncodeInt [] h)) = h" by (simp add: EncodeInt_def)
  have n: "(EncodeInt [] t @ x) ! (8 + k) = x ! k" for x k by (simp add: nth_append)
  show ?thesis
    using i [of h "[]"] n [of _ 0] n [of _ 1]
    by (simp add: row_key_shape index_key_shape DecodeRowKey_def DecodeKeyHead_def DecodeTableID_def IsIndexKey_def
        hasTablePrefix_def hasRecordPrefixSep_def table_defs i u nth_append)
qed

lemma EncodeKey_flag_bound:
  assumes "list_all storable vs"
  shows "concat (map (code True) vs) < [255]"
proof (cases vs)
  case (Cons v vs')
  then have "storable v" using assms by simp
  then obtain f x where "code True v = f # x" "f < 255" by (cases v)
    (auto simp: encodeSignedInt_def encodeUnsignedInt_def encodeBytes_def flag_defs EncodeInt_def EncodeUint_def
      EncodeBytes_groups)
  then show ?thesis using Cons by simp
qed simp

text \<open>C33: The key range of an index holds every entry of the index and no key of another
  index or table and no row key.  The handle range of a table, which excludes its end as every range of the
  store does, holds the row keys of the table except one: its end is the row key of the handle
  \<open>MaxInt64\<close>, which is therefore outside.  With its end included it holds exactly the row keys of the
  table, and no index key either way.\<close>

theorem table_key_ranges:
  assumes "list_all storable vs" "EncodeKey [] vs = Inr e"
  shows "fst (GetTableIndexKeyRange t i) \<le> EncodeIndexSeekKey t i e \<and>
     EncodeIndexSeekKey t i e < snd (GetTableIndexKeyRange t i) \<and>
     (fst (GetTableIndexKeyRange t i) \<le> EncodeIndexSeekKey t' i' v' \<and>
      EncodeIndexSeekKey t' i' v' < snd (GetTableIndexKeyRange t i) \<longrightarrow> t' = t \<and> i' = i) \<and>
     \<not> (fst (GetTableIndexKeyRange t i) \<le> EncodeRowKeyWithHandle t' h \<and>
        EncodeRowKeyWithHandle t' h < snd (GetTableIndexKeyRange t i)) \<and>
     (fst (GetTableHandleKeyRange t) \<le> EncodeRowKeyWithHandle t' h \<and>
      EncodeRowKeyWithHandle t' h < snd (GetTableHandleKeyRange t) \<longleftrightarrow> t' = t \<and> h \<noteq> MaxInt64) \<and>
     (fst (GetTableHandleKeyRange t) \<le> EncodeRowKeyWithHandle t' h \<and>
      EncodeRowKeyWithHandle t' h \<le> snd (GetTableHandleKeyRange t) \<longleftrightarrow> t' = t) \<and>
     EncodeRowKeyWithHandle t MaxInt64 = snd (GetTableHandleKeyRange t) \<and>
     \<not> (fst (GetTableHandleKeyRange t) \<le> EncodeIndexSeekKey t' i' v' \<and>
        EncodeIndexSeekKey t' i' v' \<le> snd (GetTableHandleKeyRange t))"
proof -
  have e: "e < [255]" using assms EncodeKey_flag_bound by (simp add: EncodeKey_Inr)
  have neq: "\<not> sint t' < sint t \<Longrightarrow> \<not> sint t < sint t' \<Longrightarrow> t' = t" "\<not> sint i' < sint i \<Longrightarrow> \<not> sint i < sint i' \<Longrightarrow> i' = i"
    using sint_total [of t' t] sint_total [of i' i] by auto
  have max: "\<not> sint (MaxInt64 :: u64) < sint h" using sint_extremes(2) [of h] by auto
  show ?thesis
    unfolding GetTableIndexKeyRange_def GetTableHandleKeyRange_def fst_conv snd_conv
      linorder_not_less [symmetric] key_less_iffs sint_extremes
    using e neq sint_extremes(1) [of h] max by auto
qed

theorem table_key_ranges_witness:
  "EncodeKey [] [KindInt64 5] = Inr (3 # 128 # replicate 6 0 @ [5]) \<and>
   EncodeIndexSeekKey 1 2 (3 # 128 # replicate 6 0 @ [5]) < snd (GetTableIndexKeyRange 1 2) \<and>
   EncodeRowKeyWithHandle 1 7 < snd (GetTableHandleKeyRange 1) \<and>
   \<not> EncodeRowKeyWithHandle 1 MaxInt64 < snd (GetTableHandleKeyRange 1)"
proof -
  have e: "EncodeKey [] [KindInt64 5] = Inr (3 # 128 # replicate 6 0 @ [5])" by code_simp
  show ?thesis using e table_key_ranges [OF _ e, of 1 2 1 2 "[]" 7] table_key_ranges [OF _ e, of 1 2 1 2 "[]" MaxInt64] by simp
qed

text \<open>C32: The values of an index key are cut into the encodings of the columns, and the handle
  of an entry is found again: at the end of the key for a non-unique entry, in the value for a unique one.\<close>

theorem DecodeIndexHandle_entry:
  assumes "list_all storable vs" "EncodeKey [] vs = Inr e" "EncodeKey [] [KindInt64 h] = Inr f"
    and "length (e @ f) < 2 ^ 63"
  shows "CutIndexKeyNew (EncodeIndexSeekKey t i (e @ f)) (length vs) = Inr (map (code True) vs, f) \<and>
    DecodeIndexHandle (EncodeIndexSeekKey t i (e @ f)) value (length vs) = Inr h \<and>
    DecodeIndexHandle (EncodeIndexSeekKey t i e) (PutUint64 h) (length vs) = Inr h"
proof -
  have e: "e = concat (map (code True) vs)" and f: "f = code True (KindInt64 h)"
    using assms(2,3) by (simp_all add: EncodeKey_Inr)
  have len: "length (e @ []) < 2 ^ 63" using assms(4) by simp
  have "f \<noteq> []" unfolding f by (rule code_not_Nil) simp
  moreover have "DecodeOne f = Inr ([], KindInt64 h)"
    using DecodeOne_code [of "KindInt64 h" True "[]"] unfolding f by (simp del: code.simps)
  ultimately show ?thesis
    using CutIndexKeyNew_code [OF assms(1) assms(4) [unfolded e], of t i]
      CutIndexKeyNew_code [OF assms(1) len [unfolded e], of t i]
    by (simp add: e [symmetric] DecodeIndexHandle_def DecodeColumnValue_def DecodeIndexValueAsHandle_def len_simps)
qed

theorem DecodeIndexHandle_entry_witness:
  "DecodeIndexHandle (EncodeIndexSeekKey 1 2 ([0] @ (3 # 128 # replicate 6 0 @ [5]))) [] 1 = Inr 5"
proof -
  have "EncodeKey [] [KindNull] = Inr [0]" "EncodeKey [] [KindInt64 5] = Inr (3 # 128 # replicate 6 0 @ [5])"
    by code_simp+
  from DecodeIndexHandle_entry [OF _ this, of 1 2 "[]"] show ?thesis by simp
qed

text \<open>C29: A row of the old layout with pairwise different column ids is decoded into exactly the
  requested columns it contains, whatever their order, although the loop stops as soon as it has
  found as many columns as were asked for.\<close>

theorem DecodeRowWithMap_old_row:
  assumes "list_all (storable \<circ> snd) kvs" "length (old_row kvs) < 2 ^ 63" "distinct (map fst kvs)"
  shows "DecodeRowWithMap (old_row kvs) cols row = Inr (row ++ (row_map kvs |` set cols))"
proof -
  have "old_row kvs \<noteq> [NilFlag]"
    by (cases kvs) (auto simp: old_row_def encodeSignedInt_def flag_defs EncodeVarint_def)
  moreover have "0 + card (set cols \<inter> fst ` set kvs) \<le> length cols"
    using card_mono [of "set cols" "set cols \<inter> fst ` set kvs"] card_length [of cols] by simp
  ultimately show ?thesis using DecodeRow_loop_old_row [OF assms] by (simp add: DecodeRowWithMap_def)
qed

theorem DecodeRowWithMap_old_row_witness:
  "DecodeRowWithMap (old_row [(1, KindInt64 7), (2, KindNull)]) [2, 3] Map.empty = Inr [2 \<mapsto> KindNull]"
proof -
  have "old_row [(1, KindInt64 7), (2, KindNull)] = [8, 2, 8, 14, 8, 4, 0]" by code_simp
  then have "length (old_row [(1, KindInt64 7), (2, KindNull)]) < 2 ^ 63" by simp
  from DecodeRowWithMap_old_row [OF _ this, of "[2, 3]" Map.empty] show ?thesis
    by (auto simp: row_map_def fun_eq_iff restrict_map_def)
qed

end
