(* ===== verification/Mvcc_Codec.thy ===== *)
theory Mvcc_Codec
  imports Bytes_Codec
begin

text \<open>
  The value formats and key format of the mock storage engine:
  \<open>src/store/mockstore/mocktikv/mvcc.go\<close> (locks, versions, their binary form, the visibility
  check of a lock), \<open>errors.go\<close>, and \<open>mvccEncode\<close>/\<open>mvccDecode\<close> of \<open>mvcc_leveldb.go\<close>.
\<close>

section \<open>Data\<close>

type_synonym op = "32 word"
type_synonym mvccValueType = u64

definition typePut :: mvccValueType where "typePut = 0"
definition typeDelete :: mvccValueType where "typeDelete = 1"
definition typeRollback :: mvccValueType where "typeRollback = 2"

record mvccValue =
  valueType :: mvccValueType
  v_startTS :: u64
  commitTS :: u64
  v_value :: bytes

record mvccLock =
  l_startTS :: u64
  primary :: bytes
  l_value :: bytes
  l_op :: op
  ttl :: u64
  forUpdateTS :: u64

record mvccEntry =
  e_key :: bytes
  e_values :: "mvccValue list"
  e_lock :: "mvccLock option"

text \<open>The errors the storage engine returns (\<open>errors.go\<close>, and the untyped errors of \<open>mvcc_leveldb.go\<close>).\<close>

datatype mvcc_err =
    ErrLocked bytes bytes u64 u64 op
  | ErrRetryable
  | ErrAlreadyCommitted u64
  | ErrConflict u64 u64 u64 bytes
  | ErrKey codec_err
  | ErrBadKey
  | ErrEOF
  | ErrOverflow
  | ErrTooLarge
  | ErrGCLock bytes u64 u64
  | ErrHeartBeatNonPrimary
  | ErrLockNotExist
  | ErrDB nat
  | ErrPanic

section \<open>Binary form\<close>

text \<open>
  \<open>marshalHelper\<close>: numbers in little endian, slices with a varint length in front.  Writing to a
  \<open>bytes.Buffer\<close> does not fail.  A reader is the rest of the buffer; once an error is set, the
  remaining reads do nothing and the error is returned.
\<close>

definition WriteNumber64 :: "bytes \<Rightarrow> u64 \<Rightarrow> bytes" where
  "WriteNumber64 buf n = buf @ rev (put_be 8 n)"

definition WriteNumber32 :: "bytes \<Rightarrow> op \<Rightarrow> bytes" where
  "WriteNumber32 buf n = buf @ rev (put_be 4 (ucast n))"

definition WriteSlice :: "bytes \<Rightarrow> bytes \<Rightarrow> bytes" where
  "WriteSlice buf s = buf @ PutUvarint (of_nat (length s)) @ s"

definition ReadNumber64 :: "bytes \<Rightarrow> mvcc_err + u64 \<times> bytes" where
  "ReadNumber64 r = (if length r < 8 then Inl ErrEOF else Inr (of_nat (be_val (rev (take 8 r))), drop 8 r))"

definition ReadNumber32 :: "bytes \<Rightarrow> mvcc_err + op \<times> bytes" where
  "ReadNumber32 r = (if length r < 4 then Inl ErrEOF else Inr (of_nat (be_val (rev (take 4 r))), drop 4 r))"

definition ReadSlice :: "bytes \<Rightarrow> mvcc_err + bytes \<times> bytes" where
  "ReadSlice r =
     (let (sz, n) = Uvarint r in
      if n = 0 then Inl ErrEOF
      else if n < 0 then Inl ErrOverflow
      else if sz > 10 * 1024 * 1024 then Inl ErrTooLarge
      else let r' = drop (nat n) r in
        if length r' < unat sz then Inl ErrEOF
        else Inr (take (unat sz) r', drop (unat sz) r'))"

definition MarshalLock :: "mvccLock \<Rightarrow> bytes" where
  "MarshalLock l =
     (let buf = WriteNumber64 [] (l_startTS l);
          buf = WriteSlice buf (primary l);
          buf = WriteSlice buf (l_value l);
          buf = WriteNumber32 buf (l_op l);
          buf = WriteNumber64 buf (ttl l)
      in WriteNumber64 buf (forUpdateTS l))"

definition UnmarshalLock :: "bytes \<Rightarrow> mvcc_err + mvccLock" where
  "UnmarshalLock data =
     (case ReadNumber64 data of Inl e \<Rightarrow> Inl e | Inr (st, r) \<Rightarrow>
     (case ReadSlice r of Inl e \<Rightarrow> Inl e | Inr (p, r) \<Rightarrow>
     (case ReadSlice r of Inl e \<Rightarrow> Inl e | Inr (v, r) \<Rightarrow>
     (case ReadNumber32 r of Inl e \<Rightarrow> Inl e | Inr (o', r) \<Rightarrow>
     (case ReadNumber64 r of Inl e \<Rightarrow> Inl e | Inr (t, r) \<Rightarrow>
     (case ReadNumber64 r of Inl e \<Rightarrow> Inl e | Inr (f, r) \<Rightarrow>
        Inr \<lparr>l_startTS = st, primary = p, l_value = v, l_op = o', ttl = t, forUpdateTS = f\<rparr>))))))"

definition MarshalValue :: "mvccValue \<Rightarrow> bytes" where
  "MarshalValue v =
     (let buf = WriteNumber64 [] (valueType v);
          buf = WriteNumber64 buf (v_startTS v);
          buf = WriteNumber64 buf (commitTS v)
      in WriteSlice buf (v_value v))"

definition UnmarshalValue :: "bytes \<Rightarrow> mvcc_err + mvccValue" where
  "UnmarshalValue data =
     (case ReadNumber64 data of Inl e \<Rightarrow> Inl e | Inr (vt, r) \<Rightarrow>
     (case ReadNumber64 r of Inl e \<Rightarrow> Inl e | Inr (st, r) \<Rightarrow>
     (case ReadNumber64 r of Inl e \<Rightarrow> Inl e | Inr (ct, r) \<Rightarrow>
     (case ReadSlice r of Inl e \<Rightarrow> Inl e | Inr (v, r) \<Rightarrow>
        Inr \<lparr>valueType = vt, v_startTS = st, commitTS = ct, v_value = v\<rparr>))))"

text \<open>What an unmarshalling that fails has written into the (zero) struct before the error.\<close>

definition zeroLock :: mvccLock where
  "zeroLock = \<lparr>l_startTS = 0, primary = [], l_value = [], l_op = 0, ttl = 0, forUpdateTS = 0\<rparr>"

definition zeroValue :: mvccValue where
  "zeroValue = \<lparr>valueType = 0, v_startTS = 0, commitTS = 0, v_value = []\<rparr>"

definition UnmarshalLock_partial :: "bytes \<Rightarrow> mvccLock" where
  "UnmarshalLock_partial data =
     (case ReadNumber64 data of Inl e \<Rightarrow> zeroLock | Inr (st, r) \<Rightarrow>
     (let l = zeroLock\<lparr>l_startTS := st\<rparr> in case ReadSlice r of Inl e \<Rightarrow> l | Inr (p, r) \<Rightarrow>
     (let l = l\<lparr>primary := p\<rparr> in case ReadSlice r of Inl e \<Rightarrow> l | Inr (v, r) \<Rightarrow>
     (let l = l\<lparr>l_value := v\<rparr> in case ReadNumber32 r of Inl e \<Rightarrow> l | Inr (o', r) \<Rightarrow>
     (let l = l\<lparr>l_op := o'\<rparr> in case ReadNumber64 r of Inl e \<Rightarrow> l | Inr (t, r) \<Rightarrow>
     (let l = l\<lparr>ttl := t\<rparr> in case ReadNumber64 r of Inl e \<Rightarrow> l | Inr (f, r) \<Rightarrow>
        l\<lparr>forUpdateTS := f\<rparr>))))))"

definition UnmarshalValue_partial :: "bytes \<Rightarrow> mvccValue" where
  "UnmarshalValue_partial data =
     (case ReadNumber64 data of Inl e \<Rightarrow> zeroValue | Inr (vt, r) \<Rightarrow>
     (let v = zeroValue\<lparr>valueType := vt\<rparr> in case ReadNumber64 r of Inl e \<Rightarrow> v | Inr (st, r) \<Rightarrow>
     (let v = v\<lparr>v_startTS := st\<rparr> in case ReadNumber64 r of Inl e \<Rightarrow> v | Inr (ct, r) \<Rightarrow>
     (let v = v\<lparr>commitTS := ct\<rparr> in case ReadSlice r of Inl e \<Rightarrow> v | Inr (x, r) \<Rightarrow>
        v\<lparr>v_value := x\<rparr>))))"

section \<open>Keys\<close>

definition lockVer :: u64 where "lockVer = MaxUint64"

definition mvccEncode :: "bytes \<Rightarrow> u64 \<Rightarrow> bytes" where
  "mvccEncode key ver = (let b = EncodeBytes [] key in EncodeUintDesc b ver)"

definition mvccDecode :: "bytes \<Rightarrow> mvcc_err + bytes \<times> u64" where
  "mvccDecode encodedKey =
     (case DecodeBytes encodedKey of
        Inl e \<Rightarrow> Inl (ErrKey e)
      | Inr (remainBytes, key) \<Rightarrow>
          if length remainBytes = 0 then Inr (key, 0)
          else case DecodeUintDesc remainBytes of
            Inl e \<Rightarrow> Inl (ErrKey e)
          | Inr (remainBytes', ver) \<Rightarrow>
              if length remainBytes' \<noteq> 0 then Inl ErrBadKey else Inr (key, ver))"

definition NewMvccKey :: "bytes \<Rightarrow> bytes" where
  "NewMvccKey key = (if length key = 0 then [] else EncodeBytes [] key)"

definition Raw :: "bytes \<Rightarrow> mvcc_err + bytes" where
  "Raw key =
     (if length key = 0 then Inr []
      else case DecodeBytes key of Inl _ \<Rightarrow> Inl ErrPanic | Inr (_, k) \<Rightarrow> Inr k)"

definition regionContains :: "bytes \<Rightarrow> bytes \<Rightarrow> bytes \<Rightarrow> bool" where
  "regionContains startKey endKey key = (startKey \<le> key \<and> (key < endKey \<or> length endKey = 0))"

section \<open>Locks and versions\<close>

definition lockErr :: "mvccLock \<Rightarrow> bytes \<Rightarrow> mvcc_err" where
  "lockErr l key = ErrLocked (mvccEncode key lockVer) (primary l) (l_startTS l) (ttl l) (l_op l)"

text \<open>\<open>Op_Lock\<close> of package \<open>kvrpcpb\<close> is an argument.\<close>

definition lock_check :: "op \<Rightarrow> mvccLock \<Rightarrow> u64 \<Rightarrow> bytes \<Rightarrow> mvcc_err + u64" where
  "lock_check Op_Lock l ts key =
     (if l_startTS l > ts \<or> l_op l = Op_Lock then Inr ts
      else if ts = MaxUint64 \<and> primary l = key then Inr (l_startTS l - 1)
      else Inl (lockErr l key))"

definition entry_Get :: "op \<Rightarrow> mvccEntry \<Rightarrow> u64 \<Rightarrow> mvcc_err + bytes option" where
  "entry_Get Op_Lock e ts =
     (case (case e_lock e of
              None \<Rightarrow> Inr ts
            | Some l \<Rightarrow> (case Raw (e_key e) of Inl x \<Rightarrow> Inl x | Inr k \<Rightarrow> lock_check Op_Lock l ts k)) of
        Inl x \<Rightarrow> Inl x
      | Inr ts' \<Rightarrow>
          Inr (map_option v_value (List.find (\<lambda>v. commitTS v \<le> ts' \<and> valueType v \<noteq> typeRollback) (e_values e))))"

section \<open>Round trips\<close>

lemma ReadNumber64_Write: "ReadNumber64 (rev (put_be 8 n) @ r) = Inr (n, r)"
proof -
  have "(of_nat (unat n mod 256 ^ 8) :: u64) = n" using unat_u64_less [of n] by simp
  then show ?thesis by (simp add: ReadNumber64_def be_val_put_be)
qed

lemma ReadNumber32_Write: "ReadNumber32 (rev (put_be 4 (ucast n)) @ r) = Inr (n, r)"
proof -
  have n: "unat n < 2 ^ 32" using unsigned_less [of n, where ?'a = nat] by simp
  then have "unat (ucast n :: u64) = unat n" by (simp add: unsigned_ucast_eq take_bit_nat_eq_self)
  then have "(of_nat (unat (ucast n :: u64) mod 256 ^ 4) :: op) = n" using n by simp
  then show ?thesis by (simp add: ReadNumber32_def be_val_put_be)
qed

definition small :: "bytes \<Rightarrow> bool" where
  "small s = (length s \<le> 10 * 1024 * 1024)"

lemma ReadSlice_Write: "small s \<Longrightarrow> ReadSlice (PutUvarint (of_nat (length s)) @ s @ r) = Inr (s, r)"
proof -
  assume "small s"
  then have len: "length s \<le> 10485760" by (simp add: small_def)
  then have u: "unat (of_nat (length s) :: u64) = length s" by (simp add: unat_of_nat)
  then have "\<not> (of_nat (length s) :: u64) > 10 * 1024 * 1024" using len by (simp add: word_less_nat_alt)
  moreover have "0 < length (PutUvarint (of_nat (length s)))" using PutUvarint_not_Nil by blast
  ultimately show ?thesis using u by (simp add: ReadSlice_def)
qed

text \<open>The slices of a lock and of a value that \<open>ReadSlice\<close> accepts again.\<close>

definition lock_ok :: "mvccLock \<Rightarrow> bool" where
  "lock_ok l = (small (primary l) \<and> small (l_value l))"

definition value_ok :: "mvccValue \<Rightarrow> bool" where
  "value_ok v = small (v_value v)"

lemma Unmarshal_MarshalLock [simp, codec_simps]: "lock_ok l \<Longrightarrow> UnmarshalLock (MarshalLock l) = Inr l"
  using ReadNumber64_Write [of "forUpdateTS l" "[]"]
  by (simp add: lock_ok_def UnmarshalLock_def MarshalLock_def WriteNumber64_def WriteNumber32_def WriteSlice_def
      ReadNumber64_Write ReadNumber32_Write ReadSlice_Write)

lemma Unmarshal_MarshalValue [simp, codec_simps]: "value_ok v \<Longrightarrow> UnmarshalValue (MarshalValue v) = Inr v"
  using ReadSlice_Write [of "v_value v" "[]"]
  by (simp add: value_ok_def UnmarshalValue_def MarshalValue_def WriteNumber64_def WriteSlice_def ReadNumber64_Write)

section \<open>Order of the storage keys\<close>

text \<open>A storage key is a pair of codes: the key ascending, then the version descending.\<close>

interpretation mvcc_key: memcomparable_pair
  "\<lambda>_. True" "(<)" "EncodeBytes []" DecodeBytes "\<lambda>_. True" "(>)" "EncodeUintDesc []" DecodeUintDesc
  by unfold_locales

lemma mvccEncode_pair: "mvccEncode k v = EncodeBytes [] k @ EncodeUintDesc [] v"
  by (simp add: mvccEncode_def EncodeUintDesc_def)

lemma mvccEncode_less_iff: "mvccEncode k v < mvccEncode k' v' \<longleftrightarrow> k < k' \<or> k = k' \<and> v' < v"
  using mvcc_key.pair.enc_order [of "(k, v)" "(k', v')"] by (simp add: mvccEncode_pair)

lemma mvccEncode_inject [simp]: "mvccEncode k v = mvccEncode k' v' \<longleftrightarrow> k = k' \<and> v = v'"
  using mvcc_key.pair.enc_inj [of "(k, v)" "(k', v')"] by (auto simp: mvccEncode_pair)

lemma mvccDecode_Encode [simp, codec_simps]: "mvccDecode (mvccEncode k v) = Inr (k, v)"
proof -
  have "EncodeUintDesc [] v \<noteq> []" by (simp add: EncodeUintDesc_def len_simps flip: length_0_conv)
  then show ?thesis
    using cmp_bytes.dec_enc [of k "EncodeUintDesc [] v"] cmp_uint_desc.dec_enc [of v "[]"]
    by (simp add: mvccDecode_def mvccEncode_pair)
qed

lemma lockVer_max [simp]: "v \<le> lockVer" "\<not> lockVer < v"
  by (simp_all add: lockVer_def word_n1_ge not_less)

lemma mvccEncode_lock_le: "mvccEncode k lockVer \<le> mvccEncode k' v \<longleftrightarrow> k \<le> k'"
  unfolding linorder_not_less [symmetric] by (simp add: mvccEncode_less_iff)

lemma mvccEncode_less_lock: "mvccEncode k v < mvccEncode k' lockVer \<longleftrightarrow> k < k'"
  by (simp add: mvccEncode_less_iff)

section \<open>Properties\<close>

text \<open>C38: Storage keys sort by key and, within a key, from the newest version to the oldest, the lock
  position first; a storage key decodes to its key and version.\<close>

theorem mvcc_key_order:
  "(mvccEncode k v < mvccEncode k' v' \<longleftrightarrow> k < k' \<or> k = k' \<and> v' < v) \<and>
   mvccEncode k lockVer \<le> mvccEncode k v \<and> mvccDecode (mvccEncode k v) = Inr (k, v)"
  by (simp add: mvccEncode_less_iff mvccEncode_lock_le)

lemma ReadSlice_large:
  assumes "\<not> small s" "length s < 2 ^ 63"
  shows "ReadSlice (PutUvarint (of_nat (length s)) @ s @ r) = Inl ErrTooLarge"
proof -
  have u: "unat (of_nat (length s) :: u64) = length s" using assms(2) by (simp add: unat_of_nat)
  then have "(of_nat (length s) :: u64) > 10 * 1024 * 1024" using assms(1) by (simp add: small_def word_less_nat_alt)
  moreover have "0 < length (PutUvarint (of_nat (length s)))" using PutUvarint_not_Nil by blast
  ultimately show ?thesis by (simp add: ReadSlice_def)
qed

text \<open>C39: A marshalled lock or version is read back unchanged as long as its slices are no longer than
  10 MiB.  Marshalling has no such limit: a longer value is written without an error and every
  later read of it fails.\<close>

theorem Marshal_roundtrip:
  assumes "small (primary l)" "length (l_value l) < 2 ^ 63" "length (v_value w) < 2 ^ 63"
  shows "UnmarshalLock (MarshalLock l) = (if small (l_value l) then Inr l else Inl ErrTooLarge) \<and>
    UnmarshalValue (MarshalValue w) = (if small (v_value w) then Inr w else Inl ErrTooLarge)"
proof -
  have "UnmarshalLock (MarshalLock l) = Inl ErrTooLarge" if "\<not> small (l_value l)"
    using ReadSlice_large [OF that assms(2)] assms(1)
    by (simp add: UnmarshalLock_def MarshalLock_def WriteNumber64_def WriteNumber32_def WriteSlice_def
        ReadNumber64_Write ReadSlice_Write)
  moreover have "UnmarshalValue (MarshalValue w) = Inl ErrTooLarge" if "\<not> small (v_value w)"
    using ReadSlice_large [OF that assms(3), of "[]"]
    by (simp add: UnmarshalValue_def MarshalValue_def WriteNumber64_def WriteSlice_def ReadNumber64_Write)
  ultimately show ?thesis using assms(1) by (simp add: lock_ok_def value_ok_def)
qed

theorem Marshal_roundtrip_witness:
  "UnmarshalLock (MarshalLock (zeroLock\<lparr>l_value := [1, 2]\<rparr>)) = Inr (zeroLock\<lparr>l_value := [1, 2]\<rparr>) \<and>
   UnmarshalValue (MarshalValue (zeroValue\<lparr>v_value := [3]\<rparr>)) = Inr (zeroValue\<lparr>v_value := [3]\<rparr>)"
  using Marshal_roundtrip [of "zeroLock\<lparr>l_value := [1, 2]\<rparr>" "zeroValue\<lparr>v_value := [3]\<rparr>"]
  by (simp add: small_def zeroLock_def zeroValue_def)

end
