(* ===== verification/Oracle.thy ===== *)
theory Oracle
  imports Prelude
begin

text \<open>
  \<open>src/store/tikv/oracle/oracle.go\<close>: timestamps made of a physical and a logical part.
\<close>

definition physicalShiftBits :: nat where "physicalShiftBits = 18"

definition ComposeTS :: "u64 \<Rightarrow> u64 \<Rightarrow> u64" where
  "ComposeTS physical logical = push_bit physicalShiftBits physical + logical"

definition ExtractPhysical :: "u64 \<Rightarrow> u64" where
  "ExtractPhysical ts = drop_bit physicalShiftBits ts"

lemma unat_ExtractPhysical: "unat (ExtractPhysical ts) = unat ts div 2 ^ 18"
  unfolding ExtractPhysical_def physicalShiftBits_def
  by (simp only: unat_drop_bit_eq) (simp only: drop_bit_eq_div)

lemma unat_ComposeTS:
  assumes "unat p < 2 ^ 46" "unat l < 2 ^ 18"
  shows "unat (ComposeTS p l) = unat p * 2 ^ 18 + unat l"
proof -
  have "unat (push_bit 18 p) = unat p * 2 ^ 18"
    using assms(1) by (subst unat_push_bit) (simp_all add: mod_less)
  then show ?thesis using assms unfolding ComposeTS_def physicalShiftBits_def
    by (subst unat_word_ariths) simp
qed

text \<open>A composed timestamp gives back its physical part and orders by physical time first,
  then by the logical part, for parts that fit their 46 and 18 bits.\<close>

lemma ComposeTS_order:
  assumes "unat p < 2 ^ 46" "unat l < 2 ^ 18" "unat p' < 2 ^ 46" "unat l' < 2 ^ 18"
  shows "ExtractPhysical (ComposeTS p l) = p \<and>
    (ComposeTS p l < ComposeTS p' l' \<longleftrightarrow> p < p' \<or> p = p' \<and> l < l')"
proof
  have "(unat p * 2 ^ 18 + unat l) div 2 ^ 18 = unat p" using assms(2) by (simp add: div_add1_eq)
  then show "ExtractPhysical (ComposeTS p l) = p"
    by (simp add: word_unat_eq_iff unat_ExtractPhysical unat_ComposeTS [OF assms(1,2)])
  have "unat p * 2 ^ 18 + unat l < unat p' * 2 ^ 18 + unat l' \<longleftrightarrow> unat p < unat p' \<or> unat p = unat p' \<and> unat l < unat l'"
    using assms(2,4) by auto
  then show "ComposeTS p l < ComposeTS p' l' \<longleftrightarrow> p < p' \<or> p = p' \<and> l < l'"
    unfolding word_less_nat_alt word_unat_eq_iff unat_ComposeTS [OF assms(1,2)] unat_ComposeTS [OF assms(3,4)] .
qed

end
