(* ===== verification/Mvcc_Store.thy ===== *)
theory Mvcc_Store
  imports Mvcc_Codec Oracle
begin

text \<open>
  \<open>src/store/mockstore/mocktikv/mvcc_leveldb.go\<close>: the transactional key-value store that
  \<open>mocktikv\<close> builds on LevelDB, operation by operation.

  LevelDB (\<open>goleveldb\<close>) and the protocol constants (\<open>kvrpcpb\<close>) are third-party packages.  They are
  the fields of a record \<open>deps\<close> that every operation takes as its first argument: the pairs an
  iterator over a range delivers together with the error it ends with, the batch write, the point
  read, and the operation codes a lock may carry.  The store runs every operation under one mutex,
  so an operation is a function from the database to its result and the next database.
\<close>

unbundle bit_operations_syntax

section \<open>Dependencies\<close>

datatype batch_op = BPut bytes bytes | BDelete bytes
type_synonym batch = "batch_op list"

record 'db deps =
  NewIterator :: "'db \<Rightarrow> bytes \<Rightarrow> bytes option \<Rightarrow> (bytes \<times> bytes) list \<times> nat option"
  Write :: "'db \<Rightarrow> batch \<Rightarrow> nat + 'db"
  DbGet :: "'db \<Rightarrow> bytes \<Rightarrow> nat + bytes"
  Op_Put :: op
  Op_Lock :: op

section \<open>Iterators and decoders\<close>

text \<open>An iterator is what it has still to deliver; \<open>Error\<close> reports once it is exhausted.\<close>

record Iterator =
  items :: "(bytes \<times> bytes) list"
  iter_err :: "nat option"

definition Valid :: "Iterator \<Rightarrow> bool" where "Valid iter = (items iter \<noteq> [])"
definition iter_Error :: "Iterator \<Rightarrow> nat option" where
  "iter_Error iter = (if items iter = [] then iter_err iter else None)"
definition iter_Next :: "Iterator \<Rightarrow> Iterator" where "iter_Next iter = iter\<lparr>items := tl (items iter)\<rparr>"
definition iter_Key :: "Iterator \<Rightarrow> bytes" where
  "iter_Key iter = (case items iter of [] \<Rightarrow> [] | (k, _) # _ \<Rightarrow> k)"
definition iter_Value :: "Iterator \<Rightarrow> bytes" where
  "iter_Value iter = (case items iter of [] \<Rightarrow> [] | (_, v) # _ \<Rightarrow> v)"

lemmas iter_defs = Valid_def iter_Error_def iter_Next_def iter_Key_def iter_Value_def

definition newIterator :: "'db deps \<Rightarrow> 'db \<Rightarrow> bytes \<Rightarrow> bytes option \<Rightarrow> Iterator" where
  "newIterator D db start limit =
     (let (xs, e) = NewIterator D db start limit in \<lparr>items = xs, iter_err = e\<rparr>)"

definition newScanIterator :: "'db deps \<Rightarrow> 'db \<Rightarrow> bytes \<Rightarrow> bytes \<Rightarrow> mvcc_err + Iterator \<times> bytes" where
  "newScanIterator D db startKey endKey =
     (let start = (if length startKey > 0 then mvccEncode startKey lockVer else []);
          limit = (if length endKey > 0 then Some (mvccEncode endKey lockVer) else None);
          iter = newIterator D db start limit
      in if length startKey = 0 \<and> Valid iter then
           (case mvccDecode (iter_Key iter) of
              Inl e \<Rightarrow> Inl e
            | Inr (key, _) \<Rightarrow> Inr (iter, key))
         else Inr (iter, startKey))"

text \<open>The decoders return their result and the iterator they leave behind.\<close>

definition lockDecoder_Decode :: "bytes \<Rightarrow> Iterator \<Rightarrow> (mvcc_err + mvccLock option) \<times> Iterator" where
  "lockDecoder_Decode expectKey iter =
     (case iter_Error iter of
        Some e \<Rightarrow> (Inl (ErrDB e), iter)
      | None \<Rightarrow>
          if \<not> Valid iter then (Inr None, iter)
          else case mvccDecode (iter_Key iter) of
            Inl e \<Rightarrow> (Inl e, iter)
          | Inr (key, ver) \<Rightarrow>
              if key \<noteq> expectKey then (Inr None, iter)
              else if ver \<noteq> lockVer then (Inr None, iter)
              else case UnmarshalLock (iter_Value iter) of
                Inl e \<Rightarrow> (Inl e, iter)
              | Inr lock \<Rightarrow> (Inr (Some lock), iter_Next iter))"

definition valueDecoder_Decode :: "bytes \<Rightarrow> Iterator \<Rightarrow> (mvcc_err + mvccValue option) \<times> Iterator" where
  "valueDecoder_Decode expectKey iter =
     (case iter_Error iter of
        Some e \<Rightarrow> (Inl (ErrDB e), iter)
      | None \<Rightarrow>
          if \<not> Valid iter then (Inr None, iter)
          else case mvccDecode (iter_Key iter) of
            Inl e \<Rightarrow> (Inl e, iter)
          | Inr (key, ver) \<Rightarrow>
              if key \<noteq> expectKey then (Inr None, iter)
              else if ver = lockVer then (Inr None, iter)
              else case UnmarshalValue (iter_Value iter) of
                Inl e \<Rightarrow> (Inl e, iter)
              | Inr v \<Rightarrow> (Inr (Some v), iter_Next iter))"

text \<open>\<open>Inr (Some key)\<close> is \<open>true\<close> with the new current key, \<open>Inr None\<close> is \<open>false\<close>.\<close>

function skipDecoder_loop :: "bytes \<Rightarrow> Iterator \<Rightarrow> (mvcc_err + bytes option) \<times> Iterator" where
  "skipDecoder_loop currKey iter =
     (if Valid iter then
        (case mvccDecode (iter_Key iter) of
           Inl e \<Rightarrow> (Inl e, iter)
         | Inr (key, _) \<Rightarrow>
             if key \<noteq> currKey then (Inr (Some key), iter)
             else skipDecoder_loop currKey (iter_Next iter))
      else (Inr None, iter))"
  by pat_completeness auto
termination
  by (relation "measure (\<lambda>(_, iter). length (items iter))") (auto simp: iter_defs)

declare skipDecoder_loop.simps [simp del]

definition skipDecoder_Decode :: "bytes \<Rightarrow> Iterator \<Rightarrow> (mvcc_err + bytes option) \<times> Iterator" where
  "skipDecoder_Decode currKey iter =
     (case iter_Error iter of
        Some e \<Rightarrow> (Inl (ErrDB e), iter)
      | None \<Rightarrow> skipDecoder_loop currKey iter)"

section \<open>Point reads\<close>

lemma valueDecoder_shrinks:
  "valueDecoder_Decode k iter = (Inr (Some v), iter') \<Longrightarrow> length (items iter') < length (items iter)"
  by (auto simp: valueDecoder_Decode_def iter_defs split: option.splits if_splits sum.splits prod.splits list.splits)

function getValue_loop :: "bytes \<Rightarrow> u64 \<Rightarrow> Iterator \<Rightarrow> (mvcc_err + bytes option) \<times> Iterator" where
  "getValue_loop key startTS iter =
     (if Valid iter then
        (case valueDecoder_Decode key iter of
           (Inl e, iter') \<Rightarrow> (Inl e, iter')
         | (Inr None, iter') \<Rightarrow> (Inr None, iter')
         | (Inr (Some v), iter') \<Rightarrow>
             if valueType v = typeRollback then getValue_loop key startTS iter'
             else if commitTS v \<le> startTS then
               (if valueType v = typeDelete then (Inr None, iter') else (Inr (Some (v_value v)), iter'))
             else getValue_loop key startTS iter')
      else (Inr None, iter))"
  by pat_completeness auto
termination
  by (relation "measure (\<lambda>(_, _, iter). length (items iter))") (auto dest: valueDecoder_shrinks [OF sym])

declare getValue_loop.simps [simp del]

definition getValue :: "op \<Rightarrow> Iterator \<Rightarrow> bytes \<Rightarrow> u64 \<Rightarrow> (mvcc_err + bytes option) \<times> Iterator" where
  "getValue oplock iter key startTS =
     (case lockDecoder_Decode key iter of
        (Inl e, iter') \<Rightarrow> (Inl e, iter')
      | (Inr None, iter') \<Rightarrow> getValue_loop key startTS iter'
      | (Inr (Some lock), iter') \<Rightarrow>
          (case lock_check oplock lock startTS key of
             Inl e \<Rightarrow> (Inl e, iter')
           | Inr startTS' \<Rightarrow> getValue_loop key startTS' iter'))"

definition Get :: "'db deps \<Rightarrow> 'db \<Rightarrow> bytes \<Rightarrow> u64 \<Rightarrow> mvcc_err + bytes option" where
  "Get D db key startTS =
     (let startKey = mvccEncode key lockVer;
          iter = newIterator D db startKey None
      in fst (getValue (Op_Lock D) iter key startTS))"

section \<open>Scans\<close>

text \<open>
  The loops over all keys of an iterator.  An iteration moves the iterator, or it only sets the
  current key to the one the iterator stands at; the measure counts both.
\<close>

definition at_key :: "bytes \<Rightarrow> Iterator \<Rightarrow> bool" where
  "at_key k iter = (Valid iter \<and> (\<exists>v. mvccDecode (iter_Key iter) = Inr (k, v)))"

definition loop_measure :: "bytes \<Rightarrow> Iterator \<Rightarrow> nat" where
  "loop_measure k iter = 2 * length (items iter) + (if at_key k iter then 0 else 1)"

lemma lockDecoder_items: "lockDecoder_Decode k iter = (r, iter') \<Longrightarrow> iter' = iter \<or> iter' = iter_Next iter \<and> at_key k iter"
  by (auto simp: lockDecoder_Decode_def at_key_def split: option.splits if_splits sum.splits prod.splits)

lemma valueDecoder_items: "valueDecoder_Decode k iter = (r, iter') \<Longrightarrow> iter' = iter \<or> iter' = iter_Next iter \<and> at_key k iter"
  by (auto simp: valueDecoder_Decode_def at_key_def split: option.splits if_splits sum.splits prod.splits)

lemma length_iter_Next: "Valid iter \<Longrightarrow> length (items (iter_Next iter)) < length (items iter)"
  by (auto simp: iter_defs)

lemma at_key_Valid: "at_key k iter \<Longrightarrow> Valid iter"
  by (simp add: at_key_def)

text \<open>An iterator that has only dropped pairs of the key \<open>k\<close>.\<close>

definition advanced :: "bytes \<Rightarrow> Iterator \<Rightarrow> Iterator \<Rightarrow> bool" where
  "advanced k iter iter' = (iter' = iter \<or> length (items iter') < length (items iter))"

lemma advanced_refl [simp]: "advanced k iter iter"
  by (simp add: advanced_def)

lemma advanced_trans: "advanced k a b \<Longrightarrow> advanced k b c \<Longrightarrow> advanced k a c"
  by (auto simp: advanced_def)

lemma advanced_Next: "at_key k iter \<Longrightarrow> advanced k iter (iter_Next iter)"
  by (auto simp: advanced_def dest!: at_key_Valid length_iter_Next)

lemma lockDecoder_advanced: "lockDecoder_Decode k iter = (r, iter') \<Longrightarrow> advanced k iter iter'"
  by (auto dest!: lockDecoder_items intro: advanced_Next)

lemma valueDecoder_advanced: "valueDecoder_Decode k iter = (r, iter') \<Longrightarrow> advanced k iter iter'"
  by (auto dest!: valueDecoder_items intro: advanced_Next)

lemma getValue_loop_advanced: "getValue_loop k ts iter = (r, iter') \<Longrightarrow> advanced k iter iter'"
proof (induction "length (items iter)" arbitrary: iter rule: less_induct)
  case less
  obtain d iter1 where d: "valueDecoder_Decode k iter = (d, iter1)" by fastforce
  have a: "advanced k iter iter1" using d by (rule valueDecoder_advanced)
  have IH: "advanced k iter iter'" if "getValue_loop k ts iter1 = (r, iter')" "d = Inr (Some v)" for v
    using less.hyps [OF valueDecoder_shrinks that(1)] d that(2) advanced_trans [OF a] by blast
  show ?case using less.prems a
    unfolding getValue_loop.simps [of k ts iter] d by (auto split: if_splits sum.splits option.splits intro: IH)
qed

lemma getValue_advanced: "getValue ol iter k ts = (r, iter') \<Longrightarrow> advanced k iter iter'"
  by (auto simp: getValue_def split: prod.splits sum.splits option.splits
      dest!: lockDecoder_advanced getValue_loop_advanced intro: advanced_trans)

lemma skipDecoder_loop_at:
  "skipDecoder_loop k iter = (Inr (Some k'), iter') \<Longrightarrow>
     at_key k' iter' \<and> k' \<noteq> k \<and> advanced k iter iter'"
proof (induction "length (items iter)" arbitrary: iter rule: less_induct)
  case less
  have IH: "at_key k' iter' \<and> k' \<noteq> k \<and> advanced k iter iter'"
    if "skipDecoder_loop k (iter_Next iter) = (Inr (Some k'), iter')" "Valid iter"
    using less.hyps [OF length_iter_Next [OF that(2)] that(1)] length_iter_Next [OF that(2)]
    by (auto simp: advanced_def)
  show ?case using less.prems IH
    unfolding skipDecoder_loop.simps [of k iter] by (auto simp: at_key_def split: if_splits sum.splits)
qed

lemma skipDecoder_at:
  "skipDecoder_Decode k iter = (Inr (Some k'), iter') \<Longrightarrow> at_key k' iter' \<and> k' \<noteq> k \<and> advanced k iter iter'"
  by (auto simp: skipDecoder_Decode_def split: option.splits dest: skipDecoder_loop_at)

lemma skip_measure:
  assumes "advanced k iter iter1" "skipDecoder_Decode k iter1 = (Inr (Some k'), iter')"
  shows "loop_measure k' iter' < loop_measure k iter"
proof -
  have s: "at_key k' iter'" "k' \<noteq> k" "advanced k iter1 iter'" using skipDecoder_at [OF assms(2)] by auto
  have "iter' = iter \<or> length (items iter') < length (items iter)"
    using advanced_trans [OF assms(1) s(3)] by (simp add: advanced_def)
  moreover have "\<not> at_key k iter" if "iter' = iter" using s(1,2) that by (auto simp: at_key_def)
  ultimately show ?thesis using s(1) by (auto simp: loop_measure_def)
qed

record Pair =
  p_key :: bytes
  p_value :: "bytes option"
  p_err :: "mvcc_err option"

function Scan_loop :: "op \<Rightarrow> u64 \<Rightarrow> int \<Rightarrow> Iterator \<Rightarrow> bytes \<Rightarrow> Pair list \<Rightarrow> Pair list" where
  "Scan_loop oplock startTS limit iter currKey pairs =
     (if int (length pairs) < limit then
        (case getValue oplock iter currKey startTS of (r, iter1) \<Rightarrow>
           let pairs' = (case r of
               Inl e \<Rightarrow> pairs @ [\<lparr>p_key = currKey, p_value = None, p_err = Some e\<rparr>]
             | Inr None \<Rightarrow> pairs
             | Inr (Some v) \<Rightarrow> pairs @ [\<lparr>p_key = currKey, p_value = Some v, p_err = None\<rparr>])
           in (case skipDecoder_Decode currKey iter1 of
                 (Inl e, _) \<Rightarrow> pairs'
               | (Inr None, _) \<Rightarrow> pairs'
               | (Inr (Some k), iter2) \<Rightarrow> Scan_loop oplock startTS limit iter2 k pairs'))
      else pairs)"
  by pat_completeness auto
termination
  by (relation "measure (\<lambda>(_, _, _, iter, currKey, _). loop_measure currKey iter)")
    (auto intro!: skip_measure [OF getValue_advanced [OF sym] sym])

declare Scan_loop.simps [simp del]

text \<open>
  When \<open>newScanIterator\<close> fails it returns a nil iterator, and the \<open>defer iter.Release()\<close> that
  follows dereferences it before the error is looked at; the callers panic.
\<close>

definition Scan :: "'db deps \<Rightarrow> 'db \<Rightarrow> bytes \<Rightarrow> bytes \<Rightarrow> int \<Rightarrow> u64 \<Rightarrow> mvcc_err + Pair list" where
  "Scan D db startKey endKey limit startTS =
     (case newScanIterator D db startKey endKey of
        Inl e \<Rightarrow> Inl ErrPanic
      | Inr (iter, currKey) \<Rightarrow> Inr (Scan_loop (Op_Lock D) startTS limit iter currKey []))"

record reverseScanHelper =
  h_currKey :: bytes
  h_entry :: mvccEntry
  h_pairs :: "Pair list"

definition emptyEntry :: mvccEntry where
  "emptyEntry = \<lparr>e_key = [], e_values = [], e_lock = None\<rparr>"

definition finishEntry :: "op \<Rightarrow> u64 \<Rightarrow> reverseScanHelper \<Rightarrow> reverseScanHelper" where
  "finishEntry oplock startTS helper =
     (let entry = (h_entry helper)\<lparr>e_values := rev (e_values (h_entry helper)), e_key := NewMvccKey (h_currKey helper)\<rparr>;
          r = entry_Get oplock entry startTS;
          pairs' = (case r of
              Inl e \<Rightarrow> h_pairs helper @ [\<lparr>p_key = h_currKey helper, p_value = None, p_err = Some e\<rparr>]
            | Inr (Some v) \<Rightarrow>
                if length v \<noteq> 0 then h_pairs helper @ [\<lparr>p_key = h_currKey helper, p_value = Some v, p_err = None\<rparr>]
                else h_pairs helper
            | Inr None \<Rightarrow> h_pairs helper)
      in helper\<lparr>h_entry := emptyEntry, h_pairs := pairs'\<rparr>)"

text \<open>
  The loop over the pairs from the last one down.  A lock or version that does not unmarshal is left
  in the entry as far as it was read, and the loop ends.
\<close>

fun ReverseScan_loop ::
  "op \<Rightarrow> u64 \<Rightarrow> bytes \<Rightarrow> int \<Rightarrow> (bytes \<times> bytes) list \<Rightarrow> reverseScanHelper \<Rightarrow> reverseScanHelper" where
  "ReverseScan_loop oplock startTS startKey limit [] helper = helper"
| "ReverseScan_loop oplock startTS startKey limit ((k, val) # xs) helper =
     (if int (length (h_pairs helper)) < limit then
        (case mvccDecode k of
           Inl e \<Rightarrow> helper
         | Inr (key, ver) \<Rightarrow>
             if key < startKey then helper
             else let
                 helper1 = (if key \<noteq> h_currKey helper
                            then (finishEntry oplock startTS helper)\<lparr>h_currKey := key\<rparr> else helper);
                 entry = h_entry helper1
               in if ver = lockVer then
                    (case UnmarshalLock val of
                       Inl e \<Rightarrow> helper1\<lparr>h_entry := entry\<lparr>e_lock := Some (UnmarshalLock_partial val)\<rparr>\<rparr>
                     | Inr lock \<Rightarrow>
                         ReverseScan_loop oplock startTS startKey limit xs
                           (helper1\<lparr>h_entry := entry\<lparr>e_lock := Some lock\<rparr>\<rparr>))
                  else
                    (case UnmarshalValue val of
                       Inl e \<Rightarrow> helper1\<lparr>h_entry := entry\<lparr>e_values := e_values entry @ [UnmarshalValue_partial val]\<rparr>\<rparr>
                     | Inr v \<Rightarrow>
                         ReverseScan_loop oplock startTS startKey limit xs
                           (helper1\<lparr>h_entry := entry\<lparr>e_values := e_values entry @ [v]\<rparr>\<rparr>)))
      else helper)"

definition ReverseScan :: "'db deps \<Rightarrow> 'db \<Rightarrow> bytes \<Rightarrow> bytes \<Rightarrow> int \<Rightarrow> u64 \<Rightarrow> Pair list" where
  "ReverseScan D db startKey endKey limit startTS =
     (let mvccEnd = (if length endKey \<noteq> 0 then Some (mvccEncode endKey lockVer) else None);
          xs = rev (fst (NewIterator D db [] mvccEnd));
          currKey = (case xs of [] \<Rightarrow> [] | (k, _) # _ \<Rightarrow> (case mvccDecode k of Inl _ \<Rightarrow> [] | Inr (key, _) \<Rightarrow> key));
          helper = ReverseScan_loop (Op_Lock D) startTS startKey limit xs
                     \<lparr>h_currKey = currKey, h_entry = emptyEntry, h_pairs = []\<rparr>;
          helper' = (if int (length (h_pairs helper)) < limit then finishEntry (Op_Lock D) startTS helper else helper)
      in h_pairs helper')"

section \<open>Prewrite\<close>

text \<open>The fields of \<open>kvrpcpb.Mutation\<close> that the store reads.\<close>

record Mutation =
  m_op :: op
  m_key :: bytes
  m_value :: bytes

text \<open>When no version is decoded, \<open>dec.value\<close> keeps its zero value and is compared all the same.\<close>

definition checkConflictValue :: "Iterator \<Rightarrow> Mutation \<Rightarrow> u64 \<Rightarrow> mvcc_err option" where
  "checkConflictValue iter m startTS =
     (case valueDecoder_Decode (m_key m) iter of
        (Inl e, _) \<Rightarrow> Some e
      | (Inr d, _) \<Rightarrow>
          let v = (case d of None \<Rightarrow> zeroValue | Some v \<Rightarrow> v) in
          if commitTS v \<ge> startTS then Some (ErrConflict startTS (v_startTS v) (commitTS v) (m_key m)) else None)"

definition prewriteMutation ::
  "'db deps \<Rightarrow> 'db \<Rightarrow> batch \<Rightarrow> Mutation \<Rightarrow> u64 \<Rightarrow> bytes \<Rightarrow> u64 \<Rightarrow> mvcc_err option \<times> batch" where
  "prewriteMutation D db batch mutation startTS prim ttl' =
     (let startKey = mvccEncode (m_key mutation) lockVer;
          iter = newIterator D db startKey None;
          lock = \<lparr>l_startTS = startTS, primary = prim, l_value = m_value mutation, l_op = m_op mutation,
                  ttl = ttl', forUpdateTS = 0\<rparr>;
          writeKey = mvccEncode (m_key mutation) lockVer;
          put = (None, batch @ [BPut writeKey (MarshalLock lock)])
      in case lockDecoder_Decode (m_key mutation) iter of
           (Inl e, _) \<Rightarrow> (Some e, batch)
         | (Inr (Some l), _) \<Rightarrow>
             if l_startTS l \<noteq> startTS then (Some (lockErr l (m_key mutation)), batch) else put
         | (Inr None, iter') \<Rightarrow>
             (case checkConflictValue iter' mutation startTS of
                Some e \<Rightarrow> (Some e, batch)
              | None \<Rightarrow> put))"

fun Prewrite_loop ::
  "'db deps \<Rightarrow> 'db \<Rightarrow> Mutation list \<Rightarrow> u64 \<Rightarrow> bytes \<Rightarrow> u64 \<Rightarrow> batch \<Rightarrow> mvcc_err option list \<Rightarrow>
     mvcc_err option list \<times> batch" where
  "Prewrite_loop D db [] startTS prim ttl' batch errs = (errs, batch)"
| "Prewrite_loop D db (m # ms) startTS prim ttl' batch errs =
     (let (err, batch') = prewriteMutation D db batch m startTS prim ttl'
      in Prewrite_loop D db ms startTS prim ttl' batch' (errs @ [err]))"

definition Prewrite ::
  "'db deps \<Rightarrow> 'db \<Rightarrow> Mutation list \<Rightarrow> bytes \<Rightarrow> u64 \<Rightarrow> u64 \<Rightarrow> mvcc_err option list \<times> 'db" where
  "Prewrite D db mutations prim startTS ttl' =
     (let (errs, batch) = Prewrite_loop D db mutations startTS prim ttl' [] [] in
      if \<exists>e \<in> set errs. e \<noteq> None then (errs, db)
      else case Write D db batch of
        Inl e \<Rightarrow> ([Some (ErrDB e)], db)
      | Inr db' \<Rightarrow> (errs, db'))"

section \<open>Commit and rollback\<close>

function getTxnCommitInfo :: "Iterator \<Rightarrow> bytes \<Rightarrow> u64 \<Rightarrow> mvcc_err + mvccValue option" where
  "getTxnCommitInfo iter expectKey startTS =
     (if Valid iter then
        (case valueDecoder_Decode expectKey iter of
           (Inl e, _) \<Rightarrow> Inl e
         | (Inr None, _) \<Rightarrow> Inr None
         | (Inr (Some v), iter') \<Rightarrow>
             if v_startTS v = startTS then Inr (Some v) else getTxnCommitInfo iter' expectKey startTS)
      else Inr None)"
  by pat_completeness auto
termination
  by (relation "measure (\<lambda>(iter, _, _). length (items iter))") (auto dest: valueDecoder_shrinks [OF sym])

declare getTxnCommitInfo.simps [simp del]

definition commitLock :: "'db deps \<Rightarrow> batch \<Rightarrow> mvccLock \<Rightarrow> bytes \<Rightarrow> u64 \<Rightarrow> u64 \<Rightarrow> batch" where
  "commitLock D batch lock key startTS commitTS' =
     (let batch' =
        (if l_op lock \<noteq> Op_Lock D then
           let vt = (if l_op lock = Op_Put D then typePut else typeDelete);
               v = \<lparr>valueType = vt, v_startTS = startTS, commitTS = commitTS', v_value = l_value lock\<rparr>
           in batch @ [BPut (mvccEncode key commitTS') (MarshalValue v)]
         else batch)
      in batch' @ [BDelete (mvccEncode key lockVer)])"

definition commitKey :: "'db deps \<Rightarrow> 'db \<Rightarrow> batch \<Rightarrow> bytes \<Rightarrow> u64 \<Rightarrow> u64 \<Rightarrow> mvcc_err + batch" where
  "commitKey D db batch key startTS commitTS' =
     (let iter = newIterator D db (mvccEncode key lockVer) None in
      case lockDecoder_Decode key iter of
        (Inl e, _) \<Rightarrow> Inl e
      | (Inr lock, iter') \<Rightarrow>
          if lock = None \<or> l_startTS (the lock) \<noteq> startTS then
            (case getTxnCommitInfo iter' key startTS of
               Inl e \<Rightarrow> Inl e
             | Inr (Some c) \<Rightarrow> if valueType c \<noteq> typeRollback then Inr batch else Inl ErrRetryable
             | Inr None \<Rightarrow> Inl ErrRetryable)
          else Inr (commitLock D batch (the lock) key startTS commitTS'))"

fun Commit_loop :: "'db deps \<Rightarrow> 'db \<Rightarrow> batch \<Rightarrow> bytes list \<Rightarrow> u64 \<Rightarrow> u64 \<Rightarrow> mvcc_err + batch" where
  "Commit_loop D db batch [] startTS commitTS' = Inr batch"
| "Commit_loop D db batch (k # ks) startTS commitTS' =
     (case commitKey D db batch k startTS commitTS' of
        Inl e \<Rightarrow> Inl e
      | Inr batch' \<Rightarrow> Commit_loop D db batch' ks startTS commitTS')"

text \<open>The result of \<open>mvcc.db.Write(batch, nil)\<close>, returned as it is.\<close>

definition write_batch :: "'db deps \<Rightarrow> 'db \<Rightarrow> batch \<Rightarrow> mvcc_err option \<times> 'db" where
  "write_batch D db batch = (case Write D db batch of Inl e \<Rightarrow> (Some (ErrDB e), db) | Inr db' \<Rightarrow> (None, db'))"

definition Commit :: "'db deps \<Rightarrow> 'db \<Rightarrow> bytes list \<Rightarrow> u64 \<Rightarrow> u64 \<Rightarrow> mvcc_err option \<times> 'db" where
  "Commit D db keys startTS commitTS' =
     (case Commit_loop D db [] keys startTS commitTS' of
        Inl e \<Rightarrow> (Some e, db)
      | Inr batch \<Rightarrow> write_batch D db batch)"

definition rollbackRecord :: "u64 \<Rightarrow> mvccValue" where
  "rollbackRecord startTS = \<lparr>valueType = typeRollback, v_startTS = startTS, commitTS = startTS, v_value = []\<rparr>"

definition rollbackLock :: "batch \<Rightarrow> bytes \<Rightarrow> u64 \<Rightarrow> batch" where
  "rollbackLock batch key startTS =
     (let tomb = rollbackRecord startTS
      in batch @ [BPut (mvccEncode key startTS) (MarshalValue tomb), BDelete (mvccEncode key lockVer)])"

definition rollbackKey :: "'db deps \<Rightarrow> 'db \<Rightarrow> batch \<Rightarrow> bytes \<Rightarrow> u64 \<Rightarrow> mvcc_err + batch" where
  "rollbackKey D db batch key startTS =
     (let iter = newIterator D db (mvccEncode key lockVer) None;
          put = Inr (batch @ [BPut (mvccEncode key startTS) (MarshalValue (rollbackRecord startTS))])
      in if Valid iter then
           (case lockDecoder_Decode key iter of
              (Inl e, _) \<Rightarrow> Inl e
            | (Inr lock, iter') \<Rightarrow>
                if lock \<noteq> None \<and> l_startTS (the lock) = startTS then Inr (rollbackLock batch key startTS)
                else case getTxnCommitInfo iter' key startTS of
                  Inl e \<Rightarrow> Inl e
                | Inr (Some c) \<Rightarrow> if valueType c \<noteq> typeRollback then Inl (ErrAlreadyCommitted (commitTS c)) else Inr batch
                | Inr None \<Rightarrow> put)
         else put)"

fun Rollback_loop :: "'db deps \<Rightarrow> 'db \<Rightarrow> batch \<Rightarrow> bytes list \<Rightarrow> u64 \<Rightarrow> mvcc_err + batch" where
  "Rollback_loop D db batch [] startTS = Inr batch"
| "Rollback_loop D db batch (k # ks) startTS =
     (case rollbackKey D db batch k startTS of
        Inl e \<Rightarrow> Inl e
      | Inr batch' \<Rightarrow> Rollback_loop D db batch' ks startTS)"

definition Rollback :: "'db deps \<Rightarrow> 'db \<Rightarrow> bytes list \<Rightarrow> u64 \<Rightarrow> mvcc_err option \<times> 'db" where
  "Rollback D db keys startTS =
     (case Rollback_loop D db [] keys startTS of
        Inl e \<Rightarrow> (Some e, db)
      | Inr batch \<Rightarrow> write_batch D db batch)"

section \<open>Transaction status\<close>

text \<open>The guard of \<open>Cleanup\<close> and \<open>CheckTxnStatus\<close>: the lock's time to live has passed.\<close>

definition lock_expired :: "mvccLock \<Rightarrow> u64 \<Rightarrow> bool" where
  "lock_expired lock currentTS = (ExtractPhysical (l_startTS lock) + ttl lock < ExtractPhysical currentTS)"

text \<open>At its end \<open>Cleanup\<close> fills a batch with a rollback record and returns without writing it.\<close>

definition Cleanup :: "'db deps \<Rightarrow> 'db \<Rightarrow> bytes \<Rightarrow> u64 \<Rightarrow> u64 \<Rightarrow> mvcc_err option \<times> 'db" where
  "Cleanup D db key startTS currentTS =
     (let iter = newIterator D db (mvccEncode key lockVer) None in
      if Valid iter then
        (case lockDecoder_Decode key iter of
           (Inl e, _) \<Rightarrow> (Some e, db)
         | (Inr lock, iter') \<Rightarrow>
             if lock \<noteq> None \<and> l_startTS (the lock) = startTS then
               (if currentTS = 0 \<or> lock_expired (the lock) currentTS
                then write_batch D db (rollbackLock [] key startTS)
                else (Some (lockErr (the lock) key), db))
             else case getTxnCommitInfo iter' key startTS of
               Inl e \<Rightarrow> (Some e, db)
             | Inr (Some c) \<Rightarrow>
                 if valueType c \<noteq> typeRollback then (Some (ErrAlreadyCommitted (commitTS c)), db) else (None, db)
             | Inr None \<Rightarrow> (None, db))
      else (None, db))"

datatype Action = Action_NoAction | Action_TTLExpireRollback

definition CheckTxnStatus ::
  "'db deps \<Rightarrow> 'db \<Rightarrow> bytes \<Rightarrow> u64 \<Rightarrow> u64 \<Rightarrow> (mvcc_err + u64 \<times> u64 \<times> Action) \<times> 'db" where
  "CheckTxnStatus D db primaryKey lockTS currentTS =
     (let iter = newIterator D db (mvccEncode primaryKey lockVer) None in
      if Valid iter then
        (case lockDecoder_Decode primaryKey iter of
           (Inl e, _) \<Rightarrow> (Inl e, db)
         | (Inr lock, iter') \<Rightarrow>
             if lock \<noteq> None \<and> l_startTS (the lock) = lockTS then
               (if lock_expired (the lock) currentTS then
                  (case Write D db (rollbackLock [] primaryKey lockTS) of
                     Inl e \<Rightarrow> (Inl (ErrDB e), db)
                   | Inr db' \<Rightarrow> (Inr (0, 0, Action_TTLExpireRollback), db'))
                else (Inr (ttl (the lock), 0, Action_NoAction), db))
             else case getTxnCommitInfo iter' primaryKey lockTS of
               Inl e \<Rightarrow> (Inl e, db)
             | Inr (Some c) \<Rightarrow>
                 if valueType c \<noteq> typeRollback then (Inr (0, commitTS c, Action_NoAction), db)
                 else (Inr (0, 0, Action_NoAction), db)
             | Inr None \<Rightarrow> (Inr (0, 0, Action_NoAction), db))
      else (Inr (0, 0, Action_NoAction), db))"

definition TxnHeartBeat :: "'db deps \<Rightarrow> 'db \<Rightarrow> bytes \<Rightarrow> u64 \<Rightarrow> u64 \<Rightarrow> (mvcc_err + u64) \<times> 'db" where
  "TxnHeartBeat D db key startTS adviseTTL =
     (let iter = newIterator D db (mvccEncode key lockVer) None in
      if Valid iter then
        (case lockDecoder_Decode key iter of
           (Inl e, _) \<Rightarrow> (Inl e, db)
         | (Inr (Some lock), _) \<Rightarrow>
             if l_startTS lock = startTS then
               (if primary lock \<noteq> key then (Inl ErrHeartBeatNonPrimary, db)
                else if adviseTTL > ttl lock then
                  let lock' = lock\<lparr>ttl := adviseTTL\<rparr> in
                  (case Write D db [BPut (mvccEncode key lockVer) (MarshalLock lock')] of
                     Inl e \<Rightarrow> (Inl (ErrDB e), db)
                   | Inr db' \<Rightarrow> (Inr (ttl lock'), db'))
                else (Inr (ttl lock), db))
             else (Inl ErrLockNotExist, db)
         | (Inr None, _) \<Rightarrow> (Inl ErrLockNotExist, db))
      else (Inl ErrLockNotExist, db))"

section \<open>Lock scans and resolution\<close>

record LockInfo =
  li_primary :: bytes
  li_version :: u64
  li_key :: bytes

function ScanLock_loop :: "u64 \<Rightarrow> Iterator \<Rightarrow> bytes \<Rightarrow> LockInfo list \<Rightarrow> mvcc_err + LockInfo list" where
  "ScanLock_loop maxTS iter currKey locks =
     (if Valid iter then
        (case lockDecoder_Decode currKey iter of
           (Inl e, _) \<Rightarrow> Inl e
         | (Inr lock, iter1) \<Rightarrow>
             let locks' = (case lock of
                 Some l \<Rightarrow>
                   if l_startTS l \<le> maxTS
                   then locks @ [\<lparr>li_primary = primary l, li_version = l_startTS l, li_key = currKey\<rparr>] else locks
               | None \<Rightarrow> locks)
             in (case skipDecoder_Decode currKey iter1 of
                   (Inl e, _) \<Rightarrow> Inl e
                 | (Inr None, _) \<Rightarrow> Inr locks'
                 | (Inr (Some k), iter2) \<Rightarrow> ScanLock_loop maxTS iter2 k locks'))
      else Inr locks)"
  by pat_completeness auto
termination
  by (relation "measure (\<lambda>(_, iter, currKey, _). loop_measure currKey iter)")
    (auto intro!: skip_measure [OF lockDecoder_advanced [OF sym] sym])

declare ScanLock_loop.simps [simp del]

definition ScanLock :: "'db deps \<Rightarrow> 'db \<Rightarrow> bytes \<Rightarrow> bytes \<Rightarrow> u64 \<Rightarrow> mvcc_err + LockInfo list" where
  "ScanLock D db startKey endKey maxTS =
     (case newScanIterator D db startKey endKey of
        Inl e \<Rightarrow> Inl ErrPanic
      | Inr (iter, currKey) \<Rightarrow> ScanLock_loop maxTS iter currKey [])"

text \<open>
  \<open>ResolveLock\<close> and \<open>BatchResolveLock\<close> run the same loop; \<open>decide\<close> says whether a lock is to be
  resolved and with which commit timestamp, zero meaning rollback.
\<close>

definition resolveOne :: "'db deps \<Rightarrow> batch \<Rightarrow> mvccLock \<Rightarrow> bytes \<Rightarrow> u64 \<Rightarrow> batch" where
  "resolveOne D batch lock key commitTS' =
     (if commitTS' > 0 then commitLock D batch lock key (l_startTS lock) commitTS'
      else rollbackLock batch key (l_startTS lock))"

function Resolve_loop ::
  "'db deps \<Rightarrow> (u64 \<Rightarrow> u64 option) \<Rightarrow> Iterator \<Rightarrow> bytes \<Rightarrow> batch \<Rightarrow> mvcc_err + batch" where
  "Resolve_loop D decide iter currKey batch =
     (if Valid iter then
        (case lockDecoder_Decode currKey iter of
           (Inl e, _) \<Rightarrow> Inl e
         | (Inr lock, iter1) \<Rightarrow>
             let batch' = (case lock of
                 Some l \<Rightarrow> (case decide (l_startTS l) of Some c \<Rightarrow> resolveOne D batch l currKey c | None \<Rightarrow> batch)
               | None \<Rightarrow> batch)
             in (case skipDecoder_Decode currKey iter1 of
                   (Inl e, _) \<Rightarrow> Inl e
                 | (Inr None, _) \<Rightarrow> Inr batch'
                 | (Inr (Some k), iter2) \<Rightarrow> Resolve_loop D decide iter2 k batch'))
      else Inr batch)"
  by pat_completeness auto
termination
  by (relation "measure (\<lambda>(_, _, iter, currKey, _). loop_measure currKey iter)")
    (auto intro!: skip_measure [OF lockDecoder_advanced [OF sym] sym])

declare Resolve_loop.simps [simp del]

definition ResolveLock :: "'db deps \<Rightarrow> 'db \<Rightarrow> bytes \<Rightarrow> bytes \<Rightarrow> u64 \<Rightarrow> u64 \<Rightarrow> mvcc_err option \<times> 'db" where
  "ResolveLock D db startKey endKey startTS commitTS' =
     (case newScanIterator D db startKey endKey of
        Inl e \<Rightarrow> (Some ErrPanic, db)
      | Inr (iter, currKey) \<Rightarrow>
          (case Resolve_loop D (\<lambda>ts. if ts = startTS then Some commitTS' else None) iter currKey [] of
             Inl e \<Rightarrow> (Some e, db)
           | Inr batch \<Rightarrow> write_batch D db batch))"

definition BatchResolveLock :: "'db deps \<Rightarrow> 'db \<Rightarrow> bytes \<Rightarrow> bytes \<Rightarrow> (u64 \<rightharpoonup> u64) \<Rightarrow> mvcc_err option \<times> 'db" where
  "BatchResolveLock D db startKey endKey txnInfos =
     (case newScanIterator D db startKey endKey of
        Inl e \<Rightarrow> (Some ErrPanic, db)
      | Inr (iter, currKey) \<Rightarrow>
          (case Resolve_loop D txnInfos iter currKey [] of
             Inl e \<Rightarrow> (Some e, db)
           | Inr batch \<Rightarrow> write_batch D db batch))"

section \<open>Garbage collection\<close>

text \<open>The inner loop, over the versions of the current key; it returns the key to go on with.\<close>

function GC_versions :: "u64 \<Rightarrow> bytes \<Rightarrow> Iterator \<Rightarrow> bool \<Rightarrow> batch \<Rightarrow> mvcc_err + bytes \<times> Iterator \<times> batch" where
  "GC_versions safePoint currKey iter keepNext batch =
     (if Valid iter then
        (case valueDecoder_Decode currKey iter of
           (Inl e, _) \<Rightarrow> Inl e
         | (Inr None, iter') \<Rightarrow>
             (case mvccDecode (iter_Key iter') of
                Inl e \<Rightarrow> Inl e
              | Inr (key, _) \<Rightarrow> Inr (key, iter', batch))
         | (Inr (Some v), iter') \<Rightarrow>
             if commitTS v > safePoint then GC_versions safePoint currKey iter' keepNext batch
             else if valueType v = typePut \<or> valueType v = typeDelete then
               GC_versions safePoint currKey iter' False
                 (if \<not> keepNext \<or> valueType v = typeDelete
                  then batch @ [BDelete (mvccEncode currKey (commitTS v))] else batch)
             else GC_versions safePoint currKey iter' keepNext (batch @ [BDelete (mvccEncode currKey (commitTS v))]))
      else Inr (currKey, iter, batch))"
  by pat_completeness auto
termination
  by (relation "measure (\<lambda>(_, _, iter, _). length (items iter))") (auto dest: valueDecoder_shrinks [OF sym])

declare GC_versions.simps [simp del]

lemma valueDecoder_None:
  "valueDecoder_Decode k iter = (Inr None, iter') \<Longrightarrow> iter' = iter"
  by (auto simp: valueDecoder_Decode_def split: option.splits if_splits sum.splits prod.splits)

lemma GC_versions_moves:
  "GC_versions sp k iter kn b = Inr (k', iter', b') \<Longrightarrow>
     (Valid iter' \<longrightarrow> at_key k' iter') \<and>
     (length (items iter') < length (items iter) \<or>
      iter' = iter \<and> (Valid iter \<longrightarrow> fst (valueDecoder_Decode k iter) = Inr None))"
proof (induction "length (items iter)" arbitrary: iter kn b rule: less_induct)
  case less
  obtain d iter1 where d: "valueDecoder_Decode k iter = (d, iter1)" by fastforce
  have IH: "(Valid iter' \<longrightarrow> at_key k' iter') \<and> length (items iter') < length (items iter)"
    if g: "GC_versions sp k iter1 kn' b1 = Inr (k', iter', b')" and v: "d = Inr (Some v)" for kn' b1 v
  proof -
    have lt: "length (items iter1) < length (items iter)" using valueDecoder_shrinks [of k iter v iter1] d v by simp
    from less.hyps [OF lt g] lt show ?thesis by auto
  qed
  show ?case using less.prems valueDecoder_None [of k iter iter1]
    unfolding GC_versions.simps [of sp k iter] d
    by (auto simp: at_key_def d split: if_splits sum.splits option.splits dest!: IH)
qed

lemma GC_measure:
  assumes "lockDecoder_Decode k iter = (Inr lk, iter1)" "GC_versions sp k iter1 True b = Inr (k', iter', b')" "Valid iter"
  shows "loop_measure k' iter' < loop_measure k iter"
proof -
  have g: "Valid iter' \<longrightarrow> at_key k' iter'" "length (items iter') < length (items iter1) \<or>
      iter' = iter1 \<and> (Valid iter1 \<longrightarrow> fst (valueDecoder_Decode k iter1) = Inr None)"
    using GC_versions_moves [OF assms(2)] by auto
  have adv: "iter1 = iter \<or> length (items iter1) < length (items iter)"
    using lockDecoder_advanced [OF assms(1)] by (simp add: advanced_def)
  have stay: "\<not> at_key k iter" if "iter1 = iter" "fst (valueDecoder_Decode k iter) = Inr None"
    using assms(1,3) that length_iter_Next [OF assms(3)]
    by (auto simp: lockDecoder_Decode_def valueDecoder_Decode_def at_key_def iter_Error_def Valid_def
        split: if_splits sum.splits)
  have "length (items iter') < length (items iter) \<or> iter' = iter \<and> \<not> at_key k iter"
    using g(2) adv stay assms(3) by auto
  moreover obtain n where "length (items iter) = Suc n" using assms(3) by (cases "items iter") (auto simp: Valid_def)
  ultimately show ?thesis using g(1) by (auto simp: loop_measure_def Valid_def)
qed

function GC_loop :: "u64 \<Rightarrow> Iterator \<Rightarrow> bytes \<Rightarrow> batch \<Rightarrow> mvcc_err + batch" where
  "GC_loop safePoint iter currKey batch =
     (if Valid iter then
        (case lockDecoder_Decode currKey iter of
           (Inl e, _) \<Rightarrow> Inl e
         | (Inr lock, iter1) \<Rightarrow>
             if lock \<noteq> None \<and> l_startTS (the lock) \<le> safePoint
             then Inl (ErrGCLock currKey (l_startTS (the lock)) safePoint)
             else case GC_versions safePoint currKey iter1 True batch of
               Inl e \<Rightarrow> Inl e
             | Inr (currKey', iter2, batch') \<Rightarrow> GC_loop safePoint iter2 currKey' batch')
      else Inr batch)"
  by pat_completeness auto
termination
  by (relation "measure (\<lambda>(_, iter, currKey, _). loop_measure currKey iter)")
    (auto intro!: GC_measure [OF sym])

declare GC_loop.simps [simp del]

definition GC :: "'db deps \<Rightarrow> 'db \<Rightarrow> bytes \<Rightarrow> bytes \<Rightarrow> u64 \<Rightarrow> mvcc_err option \<times> 'db" where
  "GC D db startKey endKey safePoint =
     (case newScanIterator D db startKey endKey of
        Inl e \<Rightarrow> (Some ErrPanic, db)
      | Inr (iter, currKey) \<Rightarrow>
          (case GC_loop safePoint iter currKey [] of
             Inl e \<Rightarrow> (Some e, db)
           | Inr batch \<Rightarrow> write_batch D db batch))"

section \<open>Raw access\<close>

text \<open>
  The raw interface stores keys without a version.  It only logs the errors of the database; a read
  that fails returns nil.  A nil limit is \<open>None\<close>.
\<close>

definition doRawDeleteRange :: "'db deps \<Rightarrow> 'db \<Rightarrow> bytes \<Rightarrow> bytes option \<Rightarrow> mvcc_err option \<times> 'db" where
  "doRawDeleteRange D db startKey endKey =
     write_batch D db (map (BDelete \<circ> fst) (fst (NewIterator D db startKey endKey)))"

definition RawDeleteRange :: "'db deps \<Rightarrow> 'db \<Rightarrow> bytes \<Rightarrow> bytes option \<Rightarrow> 'db" where
  "RawDeleteRange D db startKey endKey = snd (doRawDeleteRange D db startKey endKey)"

definition DeleteRange :: "'db deps \<Rightarrow> 'db \<Rightarrow> bytes \<Rightarrow> bytes \<Rightarrow> mvcc_err option \<times> 'db" where
  "DeleteRange D db startKey endKey =
     doRawDeleteRange D db (EncodeBytes [] startKey) (Some (EncodeBytes [] endKey))"

definition RawPut :: "'db deps \<Rightarrow> 'db \<Rightarrow> bytes \<Rightarrow> bytes \<Rightarrow> 'db" where
  "RawPut D db key val = snd (write_batch D db [BPut key val])"

fun RawBatchPut_loop :: "bytes list \<Rightarrow> bytes list \<Rightarrow> batch \<Rightarrow> batch option" where
  "RawBatchPut_loop [] vals batch = Some batch"
| "RawBatchPut_loop (k # ks) [] batch = None"
| "RawBatchPut_loop (k # ks) (v # vals) batch = RawBatchPut_loop ks vals (batch @ [BPut k v])"

text \<open>\<open>None\<close>: fewer values than keys, and \<open>values[i]\<close> panics.\<close>

definition RawBatchPut :: "'db deps \<Rightarrow> 'db \<Rightarrow> bytes list \<Rightarrow> bytes list \<Rightarrow> 'db option" where
  "RawBatchPut D db keys vals = map_option (\<lambda>b. snd (write_batch D db b)) (RawBatchPut_loop keys vals [])"

definition RawGet :: "'db deps \<Rightarrow> 'db \<Rightarrow> bytes \<Rightarrow> bytes option" where
  "RawGet D db key = (case DbGet D db key of Inl _ \<Rightarrow> None | Inr v \<Rightarrow> Some v)"

definition RawBatchGet :: "'db deps \<Rightarrow> 'db \<Rightarrow> bytes list \<Rightarrow> bytes option list" where
  "RawBatchGet D db keys = map (RawGet D db) keys"

definition RawDelete :: "'db deps \<Rightarrow> 'db \<Rightarrow> bytes \<Rightarrow> 'db" where
  "RawDelete D db key = snd (write_batch D db [BDelete key])"

definition RawBatchDelete :: "'db deps \<Rightarrow> 'db \<Rightarrow> bytes list \<Rightarrow> 'db" where
  "RawBatchDelete D db keys = snd (write_batch D db (map BDelete keys))"

fun RawScan_loop :: "(bytes \<times> bytes) list \<Rightarrow> bytes \<Rightarrow> int \<Rightarrow> (bytes \<times> bytes) list \<Rightarrow> (bytes \<times> bytes) list" where
  "RawScan_loop [] endKey limit pairs = pairs"
| "RawScan_loop ((k, v) # xs) endKey limit pairs =
     (if int (length pairs) < limit then
        (if length endKey > 0 \<and> k \<ge> endKey then pairs
         else RawScan_loop xs endKey limit (pairs @ [(k, v)]))
      else pairs)"

definition RawScan :: "'db deps \<Rightarrow> 'db \<Rightarrow> bytes \<Rightarrow> bytes \<Rightarrow> int \<Rightarrow> (bytes \<times> bytes) list" where
  "RawScan D db startKey endKey limit =
     RawScan_loop (fst (NewIterator D db startKey None)) endKey limit []"

fun RawReverseScan_loop :: "(bytes \<times> bytes) list \<Rightarrow> bytes \<Rightarrow> int \<Rightarrow> (bytes \<times> bytes) list \<Rightarrow> (bytes \<times> bytes) list" where
  "RawReverseScan_loop [] endKey limit pairs = pairs"
| "RawReverseScan_loop ((k, v) # xs) endKey limit pairs =
     (if int (length pairs) < limit then
        (if k < endKey then pairs else RawReverseScan_loop xs endKey limit (pairs @ [(k, v)]))
      else pairs)"

definition RawReverseScan :: "'db deps \<Rightarrow> 'db \<Rightarrow> bytes option \<Rightarrow> bytes \<Rightarrow> int \<Rightarrow> (bytes \<times> bytes) list" where
  "RawReverseScan D db startKey endKey limit =
     RawReverseScan_loop (rev (fst (NewIterator D db [] startKey))) endKey limit []"

end
