(* ===== verification/Mvcc_Layout.thy ===== *)
theory Mvcc_Layout
  imports Mvcc_Store
begin

text \<open>
  The store the database stands for, and what an iterator over the database delivers in terms of
  it.  The abstract store has a lock per key and a version per key and commit timestamp; the
  database holds exactly their marshalled forms under the storage keys of \<open>mvccEncode\<close>.  The
  locale \<open>leveldb\<close> states what the engine relies on LevelDB for.
\<close>

section \<open>LevelDB\<close>

fun apply_op :: "batch_op \<Rightarrow> (bytes \<rightharpoonup> bytes) \<Rightarrow> (bytes \<rightharpoonup> bytes)" where
  "apply_op (BPut k v) m = m(k \<mapsto> v)"
| "apply_op (BDelete k) m = m(k := None)"

definition apply_batch :: "batch \<Rightarrow> (bytes \<rightharpoonup> bytes) \<Rightarrow> (bytes \<rightharpoonup> bytes)" where
  "apply_batch b m = fold apply_op b m"

lemma apply_batch_simps [simp]:
  "apply_batch [] m = m" "apply_batch (x # b) m = apply_batch b (apply_op x m)"
  "apply_batch (a @ b) m = apply_batch b (apply_batch a m)"
  by (simp_all add: apply_batch_def)

text \<open>
  The documented behaviour of LevelDB: an iterator delivers the pairs of its range in key order; a
  batch is applied as a whole, in order; a point read finds what is stored.  The two operation
  codes are different constants.
\<close>

locale leveldb =
  fixes D :: "'db deps"
    and contents :: "'db \<Rightarrow> bytes \<rightharpoonup> bytes"
  assumes iter_sorted: "sorted_wrt (<) (map fst (fst (NewIterator D db start limit)))"
    and iter_pairs: "set (fst (NewIterator D db start limit)) =
      {(k, v). contents db k = Some v \<and> start \<le> k \<and> (\<forall>l. limit = Some l \<longrightarrow> k < l)}"
    and iter_no_error: "snd (NewIterator D db start limit) = None"
    and write_applies: "\<exists>db'. Write D db b = Inr db' \<and> contents db' = apply_batch b (contents db)"
    and get_finds: "(case contents db k of Some v \<Rightarrow> DbGet D db k = Inr v | None \<Rightarrow> \<exists>e. DbGet D db k = Inl e)"
    and op_codes: "Op_Put D \<noteq> Op_Lock D"
begin

lemma finite_contents: "finite (dom (contents db))"
proof -
  have "dom (contents db) = fst ` set (fst (NewIterator D db [] None))"
    unfolding iter_pairs by force
  then show ?thesis by simp
qed

lemma newIterator_eq: "newIterator D db s l = \<lparr>items = fst (NewIterator D db s l), iter_err = None\<rparr>"
  using iter_no_error by (simp add: newIterator_def split_beta)

text \<open>The pairs in a range are determined by the contents.\<close>

lemma iter_unique:
  assumes "sorted_wrt (<) (map fst xs)"
    and "set xs = {(k, v). contents db k = Some v \<and> start \<le> k \<and> (\<forall>l. limit = Some l \<longrightarrow> k < l)}"
  shows "fst (NewIterator D db start limit) = xs"
proof -
  let ?ys = "fst (NewIterator D db start limit)"
  have same: "set ?ys = set xs" using assms(2) iter_pairs by simp
  have e: "map fst ?ys = map fst xs"
    using strict_sorted_equal [OF assms(1) iter_sorted, of db start limit] same by (simp add: image_def)
  have m: "map (\<lambda>k. (k, the (contents db k))) (map fst zs) = zs" if "set zs = set xs" for zs
  proof -
    have "contents db (fst z) = Some (snd z)" if "z \<in> set zs" for z
      using that \<open>set zs = set xs\<close> assms(2) by auto
    then show ?thesis by (simp add: map_idI)
  qed
  show ?thesis using m [OF same, unfolded e] m [OF refl] by (rule trans [OF sym])
qed

end

section \<open>The abstract store\<close>

record store =
  locks :: "bytes \<rightharpoonup> mvccLock"
  writes :: "bytes \<Rightarrow> u64 \<rightharpoonup> mvccValue"

text \<open>Every lock and version can be unmarshalled again, and a version is stored under its commit timestamp.\<close>

definition store_ok :: "store \<Rightarrow> bool" where
  "store_ok S =
     ((\<forall>k l. locks S k = Some l \<longrightarrow> lock_ok l) \<and>
      (\<forall>k v w. writes S k v = Some w \<longrightarrow> value_ok w \<and> commitTS w = v \<and> v \<noteq> lockVer))"

definition rep :: "store \<Rightarrow> (bytes \<rightharpoonup> bytes) \<Rightarrow> bool" where
  "rep S m =
     (store_ok S \<and>
      (\<forall>k. m (mvccEncode k lockVer) = map_option MarshalLock (locks S k)) \<and>
      (\<forall>k v. v \<noteq> lockVer \<longrightarrow> m (mvccEncode k v) = map_option MarshalValue (writes S k v)) \<and>
      (\<forall>x \<in> dom m. \<exists>k v. x = mvccEncode k v))"

lemma rep_lock: "rep S m \<Longrightarrow> m (mvccEncode k lockVer) = map_option MarshalLock (locks S k)"
  by (simp add: rep_def)

lemma rep_write: "rep S m \<Longrightarrow> v \<noteq> lockVer \<Longrightarrow> m (mvccEncode k v) = map_option MarshalValue (writes S k v)"
  by (simp add: rep_def)

lemma rep_key: "rep S m \<Longrightarrow> m x = Some b \<Longrightarrow> \<exists>k v. x = mvccEncode k v"
  unfolding rep_def by blast

lemma rep_ok: "rep S m \<Longrightarrow> store_ok S"
  by (simp add: rep_def)

lemma writes_lockVer: "store_ok S \<Longrightarrow> writes S k lockVer = None"
  unfolding store_ok_def by (metis not_None_eq)

lemma store_okD:
  "store_ok S \<Longrightarrow> locks S k = Some l \<Longrightarrow> lock_ok l"
  "store_ok S \<Longrightarrow> writes S k v = Some w \<Longrightarrow> value_ok w"
  "store_ok S \<Longrightarrow> writes S k v = Some w \<Longrightarrow> commitTS w = v"
  "store_ok S \<Longrightarrow> writes S k v = Some w \<Longrightarrow> v \<noteq> lockVer"
  by (auto simp: store_ok_def)

definition keys :: "store \<Rightarrow> bytes set" where
  "keys S = dom (locks S) \<union> {k. writes S k \<noteq> Map.empty}"

text \<open>The versions of a key, newest first, and the pairs the database holds for the key.\<close>

definition versions :: "store \<Rightarrow> bytes \<Rightarrow> mvccValue list" where
  "versions S k = map (\<lambda>v. the (writes S k v)) (rev (sorted_list_of_set (dom (writes S k))))"

definition vpairs :: "bytes \<Rightarrow> mvccValue list \<Rightarrow> (bytes \<times> bytes) list" where
  "vpairs k ws = map (\<lambda>w. (mvccEncode k (commitTS w), MarshalValue w)) ws"

definition view :: "store \<Rightarrow> bytes \<Rightarrow> (bytes \<times> bytes) list" where
  "view S k =
     (case locks S k of None \<Rightarrow> [] | Some l \<Rightarrow> [(mvccEncode k lockVer, MarshalLock l)]) @ vpairs k (versions S k)"

definition finite_store :: "store \<Rightarrow> bool" where
  "finite_store S = (finite (keys S) \<and> (\<forall>k. finite (dom (writes S k))))"

lemma rep_finite:
  assumes "rep S m" "finite (dom m)"
  shows "finite_store S"
proof -
  have enc: "finite {(k, v). mvccEncode k v \<in> dom m}"
  proof (rule finite_imageD)
    show "finite ((\<lambda>(k, v). mvccEncode k v) ` {(k, v). mvccEncode k v \<in> dom m})"
      by (rule finite_subset [OF _ assms(2)]) auto
  qed (auto simp: inj_on_def)
  have in_dom: "\<exists>v. mvccEncode k v \<in> dom m" if "k \<in> keys S" for k
  proof -
    from that consider l where "locks S k = Some l" | v w where "writes S k v = Some w"
      by (auto simp: keys_def fun_eq_iff)
    then show ?thesis
    proof cases
      case 1
      then show ?thesis using rep_lock [OF assms(1), of k] by auto
    next
      case 2
      then show ?thesis using rep_write [OF assms(1), of v k] store_okD(4) [OF rep_ok [OF assms(1)] 2] by auto
    qed
  qed
  have "keys S \<subseteq> fst ` {(k, v). mvccEncode k v \<in> dom m}" using in_dom by force
  then have "finite (keys S)" using enc by (meson finite_imageI finite_subset)
  moreover have "finite (dom (writes S k))" for k
  proof -
    have "mvccEncode k v \<in> dom m" if "v \<in> dom (writes S k)" for v
      using that rep_write [OF assms(1), of v k] store_okD(4) [OF rep_ok [OF assms(1)]] by auto
    then have "dom (writes S k) \<subseteq> snd ` {(k, v). mvccEncode k v \<in> dom m}" by force
    then show ?thesis using enc by (meson finite_imageI finite_subset)
  qed
  ultimately show ?thesis by (simp add: finite_store_def)
qed

lemma versions_set:
  assumes "finite (dom (writes S k))"
  shows "set (versions S k) = ran (writes S k)"
  using assms by (auto simp: versions_def ran_def image_def dom_def)

lemma versions_sorted:
  assumes "store_ok S" "finite (dom (writes S k))"
  shows "sorted_wrt (\<lambda>a b. commitTS b < commitTS a) (versions S k)"
proof -
  let ?L = "sorted_list_of_set (dom (writes S k))"
  have c: "commitTS (the (writes S k v)) = v" if "v \<in> set ?L" for v
    using that assms by (auto simp: store_ok_def)
  have "sorted_wrt (<) ?L" by simp
  then have "sorted_wrt (\<lambda>a b. b < a) (rev ?L)" by (simp add: sorted_wrt_rev)
  then show ?thesis unfolding versions_def sorted_wrt_map
    by (rule sorted_wrt_mono_rel [rotated]) (simp add: c)
qed

lemma view_sorted:
  assumes "store_ok S" "finite (dom (writes S k))"
  shows "sorted_wrt (<) (map fst (view S k))"
proof -
  have "sorted_wrt (\<lambda>a b. mvccEncode k (commitTS a) < mvccEncode k (commitTS b)) (versions S k)"
    using versions_sorted [OF assms] by (rule sorted_wrt_mono_rel [rotated]) (simp add: mvccEncode_less_iff)
  then have "sorted_wrt (<) (map fst (vpairs k (versions S k)))"
    by (simp add: vpairs_def sorted_wrt_map)
  moreover have "commitTS w < lockVer" if "w \<in> set (versions S k)" for w
    using that assms versions_set [OF assms(2)] lockVer_max(1) [of "commitTS w"]
    by (auto simp: store_ok_def ran_def le_less)
  ultimately show ?thesis
    by (auto simp: view_def vpairs_def mvccEncode_less_iff split: option.splits)
qed

lemma view_set:
  assumes "rep S m" "finite (dom (writes S k))"
  shows "set (view S k) = {(x, b). m x = Some b \<and> (\<exists>v. x = mvccEncode k v)}"
proof -
  have ok: "store_ok S" using assms(1) by (rule rep_ok)
  have "(x, b) \<in> set (view S k) \<longleftrightarrow> m x = Some b" if "x = mvccEncode k v" for x b v
  proof (cases "v = lockVer")
    case True
    have "lockVer \<notin> commitTS ` set (versions S k)"
      unfolding versions_set [OF assms(2)] using store_okD(3,4) [OF ok] by (force simp: ran_def)
    then show ?thesis using True that rep_lock [OF assms(1), of k]
      by (cases "locks S k") (auto simp: view_def vpairs_def)
  next
    case False
    have "(\<exists>w \<in> ran (writes S k). v = commitTS w \<and> b = MarshalValue w) \<longleftrightarrow> m x = Some b"
      using False that rep_write [OF assms(1) False, of k] store_okD(3) [OF ok]
      by (auto simp: ran_def split: option.splits)
    then show ?thesis using False that versions_set [OF assms(2)]
      by (auto simp: view_def vpairs_def split: option.splits)
  qed
  moreover have "\<exists>v. x = mvccEncode k v" if "(x, b) \<in> set (view S k)" for x b
    using that by (auto simp: view_def vpairs_def split: option.splits)
  ultimately show ?thesis by (intro set_eqI) (clarsimp, metis)
qed

section \<open>What iterators deliver\<close>

lemma view_key: "(x, b) \<in> set (view S k) \<Longrightarrow> \<exists>v. x = mvccEncode k v"
  by (auto simp: view_def vpairs_def split: option.splits)

lemma views_sorted:
  assumes "store_ok S" "\<And>k. finite (dom (writes S k))" "sorted_wrt (<) ks"
  shows "sorted_wrt (<) (map fst (concat (map (view S) ks)))"
  using assms(3)
proof (induction ks)
  case (Cons k ks)
  have "x < y" if "(x, a) \<in> set (view S k)" "(y, b) \<in> set (view S k')" "k' \<in> set ks" for x a y b k'
    using view_key [OF that(1)] view_key [OF that(2)] that(3) Cons.prems by (auto simp: mvccEncode_less_iff)
  then show ?case using Cons view_sorted [OF assms(1,2)] by (fastforce simp: sorted_wrt_append)
qed simp

text \<open>The keys of the store in a range; an empty end is no bound.\<close>

definition in_range :: "bytes \<Rightarrow> bytes \<Rightarrow> bytes \<Rightarrow> bool" where
  "in_range startKey endKey k = (startKey \<le> k \<and> (endKey = [] \<or> k < endKey))"

definition range_keys :: "store \<Rightarrow> bytes \<Rightarrow> bytes \<Rightarrow> bytes list" where
  "range_keys S startKey endKey = sorted_list_of_set {k \<in> keys S. in_range startKey endKey k}"

definition start_bound :: "bytes \<Rightarrow> bytes" where
  "start_bound startKey = (if length startKey > 0 then mvccEncode startKey lockVer else [])"

definition end_bound :: "bytes \<Rightarrow> bytes option" where
  "end_bound endKey = (if length endKey > 0 then Some (mvccEncode endKey lockVer) else None)"

lemma range_keys_set: "finite_store S \<Longrightarrow> set (range_keys S a b) = {k \<in> keys S. in_range a b k}"
  by (simp add: range_keys_def finite_store_def)

lemma range_keys_sorted [simp]: "sorted_wrt (<) (range_keys S a b)"
  by (simp add: range_keys_def)

lemma bounds_in_range:
  "start_bound a \<le> mvccEncode k v \<and> (\<forall>l. end_bound b = Some l \<longrightarrow> mvccEncode k v < l) \<longleftrightarrow> in_range a b k"
  by (auto simp: start_bound_def end_bound_def in_range_def mvccEncode_lock_le mvccEncode_less_lock)

lemma view_Nil: "k \<notin> keys S \<Longrightarrow> view S k = []"
  by (auto simp: keys_def view_def vpairs_def versions_def split: option.splits)

lemma rep_in_keys:
  assumes "rep S m" "m (mvccEncode k v) = Some b"
  shows "k \<in> keys S"
proof (cases "v = lockVer")
  case True
  then show ?thesis using assms rep_lock [of S m k] by (auto simp: keys_def)
next
  case False
  then show ?thesis using assms rep_write [of S m v k] by (force simp: keys_def fun_eq_iff)
qed

context leveldb
begin

lemma rep_finite_store: "rep S (contents db) \<Longrightarrow> finite_store S"
  using rep_finite finite_contents by blast

lemma iter_views:
  assumes "rep S (contents db)" and P: "\<And>k v. start \<le> mvccEncode k v \<and> (\<forall>l. limit = Some l \<longrightarrow> mvccEncode k v < l) \<longleftrightarrow> P k"
  shows "newIterator D db start limit =
    \<lparr>items = concat (map (view S) (sorted_list_of_set {k \<in> keys S. P k})), iter_err = None\<rparr>"
proof -
  let ?ks = "sorted_list_of_set {k \<in> keys S. P k}"
  have fin: "finite (keys S)" "\<And>k. finite (dom (writes S k))"
    using rep_finite_store [OF assms(1)] by (auto simp: finite_store_def)
  have "set (concat (map (view S) ?ks)) =
      {(x, y). contents db x = Some y \<and> (\<exists>k v. x = mvccEncode k v \<and> k \<in> keys S \<and> P k)}"
    using fin(1) by (auto simp: view_set [OF assms(1) fin(2)])
  also have "\<dots> = {(x, y). contents db x = Some y \<and> start \<le> x \<and> (\<forall>l. limit = Some l \<longrightarrow> x < l)}"
    using P rep_in_keys [OF assms(1)] rep_key [OF assms(1)] by (intro set_eqI) (clarsimp, metis)
  finally have "fst (NewIterator D db start limit) = concat (map (view S) ?ks)"
    by (intro iter_unique views_sorted) (simp_all add: rep_ok [OF assms(1)] fin)
  then show ?thesis by (simp add: newIterator_eq)
qed

lemma iter_range:
  assumes "rep S (contents db)"
  shows "newIterator D db (start_bound a) (end_bound b) =
    \<lparr>items = concat (map (view S) (range_keys S a b)), iter_err = None\<rparr>"
  unfolding range_keys_def using assms bounds_in_range by (rule iter_views)

text \<open>From the lock position of a key on, an iterator starts with the pairs of the key.\<close>

lemma iter_from_key:
  assumes "rep S (contents db)"
  obtains ks where "newIterator D db (mvccEncode k lockVer) None = \<lparr>items = view S k @ concat (map (view S) ks), iter_err = None\<rparr>"
    "\<forall>k' \<in> set ks. k < k' \<and> k' \<in> keys S"
proof -
  let ?R = "sorted_list_of_set {k' \<in> keys S. k < k'}"
  have fin: "finite (keys S)" using rep_finite_store [OF assms] by (simp add: finite_store_def)
  have "newIterator D db (mvccEncode k lockVer) None =
      \<lparr>items = concat (map (view S) (sorted_list_of_set {k' \<in> keys S. k \<le> k'})), iter_err = None\<rparr>"
    by (rule iter_views [OF assms]) (simp add: mvccEncode_lock_le)
  moreover have "concat (map (view S) (sorted_list_of_set {k' \<in> keys S. k \<le> k'})) = view S k @ concat (map (view S) ?R)"
  proof (cases "k \<in> keys S")
    case True
    have "sorted_list_of_set {k' \<in> keys S. k \<le> k'} = k # ?R"
      using fin True by (intro strict_sorted_equal) auto
    then show ?thesis by simp
  next
    case False
    then have "{k' \<in> keys S. k \<le> k'} = {k' \<in> keys S. k < k'}" by (auto simp: le_less)
    then show ?thesis using False by (simp add: view_Nil)
  qed
  ultimately have "newIterator D db (mvccEncode k lockVer) None = \<lparr>items = view S k @ concat (map (view S) ?R), iter_err = None\<rparr>"
    by (simp only:)
  then show thesis by (rule that) (simp add: fin)
qed

end

end
