(* ===== verification/Mvcc_Memory.thy ===== *)
theory Mvcc_Memory
  imports Mvcc_Layout
begin

text \<open>
  A database in memory that keeps the laws of the locale \<open>leveldb\<close>: the engine on top of it is the
  in-memory store that \<open>NewMVCCLevelDB\<close> opens for an empty path, and what is proved in the locale
  holds of it by the interpretation \<open>mem\<close>.
\<close>

type_synonym memdb = "(bytes \<times> bytes) list"

definition mem_iter :: "memdb \<Rightarrow> bytes \<Rightarrow> bytes option \<Rightarrow> (bytes \<times> bytes) list \<times> nat option" where
  "mem_iter db start limit =
     (map (\<lambda>k. (k, the (map_of db k)))
        (filter (\<lambda>k. start \<le> k \<and> (case limit of None \<Rightarrow> True | Some l \<Rightarrow> k < l)) (sort (remdups (map fst db)))), None)"

fun mem_op :: "batch_op \<Rightarrow> memdb \<Rightarrow> memdb" where
  "mem_op (BPut k v) db = (k, v) # db"
| "mem_op (BDelete k) db = filter (\<lambda>p. fst p \<noteq> k) db"

definition mem_deps :: "memdb deps" where
  "mem_deps = \<lparr>NewIterator = mem_iter, Write = (\<lambda>db b. Inr (fold mem_op b db)),
     DbGet = (\<lambda>db k. case map_of db k of None \<Rightarrow> Inl 0 | Some v \<Rightarrow> Inr v), Op_Put = 0, Op_Lock = 3\<rparr>"

lemma map_of_mem_op: "map_of (mem_op x db) = apply_op x (map_of db)"
proof (cases x)
  case (BDelete k)
  then show ?thesis by (induction db) (auto simp: fun_eq_iff)
qed simp

lemma map_of_mem_batch: "map_of (fold mem_op b db) = apply_batch b (map_of db)"
  by (induction b arbitrary: db) (simp_all add: map_of_mem_op)

lemma mem_iter_sorted: "sorted_wrt (<) (map fst (fst (mem_iter db start limit)))"
  by (simp add: mem_iter_def comp_def strict_sorted_iff sorted_filter [of id, simplified])

lemma mem_iter_set:
  "set (fst (mem_iter db start limit)) =
     {(k, v). map_of db k = Some v \<and> start \<le> k \<and> (\<forall>l. limit = Some l \<longrightarrow> k < l)}"
proof -
  have "k \<in> fst ` set db \<longleftrightarrow> (\<exists>v. map_of db k = Some v)" for k
    by (metis domIff dom_map_of_conv_image_fst not_None_eq)
  then show ?thesis by (auto simp: mem_iter_def split: option.splits)
qed

interpretation mem: leveldb mem_deps map_of
proof unfold_locales
  show "set (fst (NewIterator mem_deps db start limit)) =
      {(k, v). map_of db k = Some v \<and> start \<le> k \<and> (\<forall>l. limit = Some l \<longrightarrow> k < l)}" for db start limit
    by (simp add: mem_deps_def mem_iter_set)
  show "snd (NewIterator mem_deps db start limit) = None" for db start limit
    by (simp add: mem_deps_def mem_iter_def)
qed (auto simp: mem_deps_def mem_iter_sorted map_of_mem_batch split: option.splits)

lemma rep_empty: "rep \<lparr>locks = Map.empty, writes = \<lambda>_. Map.empty\<rparr> (map_of [])"
  by (simp add: rep_def store_ok_def)

end
