(* ===== verification/Mvcc_Read.thy ===== *)
theory Mvcc_Read
  imports Mvcc_Memory
begin

text \<open>
  Reading: the decoders of \<open>mvcc_leveldb.go\<close> over the pairs of one key, the version a reader sees,
  and the refinement of \<open>Get\<close> to the snapshot specification.
\<close>

section \<open>Decoders over the pairs of a key\<close>

text \<open>The pairs that follow those of \<open>k\<close> start with another key.\<close>

definition foreign :: "bytes \<Rightarrow> (bytes \<times> bytes) list \<Rightarrow> bool" where
  "foreign k R = (case R of [] \<Rightarrow> True | (x, _) # _ \<Rightarrow> \<exists>k' v. x = mvccEncode k' v \<and> k' \<noteq> k)"

abbreviation iter_of :: "(bytes \<times> bytes) list \<Rightarrow> Iterator" where
  "iter_of xs \<equiv> \<lparr>items = xs, iter_err = None\<rparr>"

lemma view_first: "k \<in> keys S \<Longrightarrow> finite (dom (writes S k)) \<Longrightarrow> \<exists>v b xs. view S k = (mvccEncode k v, b) # xs"
proof -
  assume k: "k \<in> keys S" and fin: "finite (dom (writes S k))"
  have "view S k \<noteq> []"
    using k versions_set [OF fin] by (auto simp: view_def vpairs_def keys_def fun_eq_iff ran_def split: option.splits)
  then obtain x b xs where "view S k = (x, b) # xs" by (cases "view S k") auto
  then show ?thesis using view_key [of x b S k] by auto
qed

lemma foreign_views:
  assumes "finite_store S" "\<forall>k' \<in> set ks. k < k' \<and> k' \<in> keys S"
  shows "foreign k (concat (map (view S) ks))"
proof (cases ks)
  case (Cons k' ks')
  then obtain v b xs where "view S k' = (mvccEncode k' v, b) # xs"
    using view_first [of k' S] assms by (auto simp: finite_store_def)
  then show ?thesis using Cons assms(2) by (auto simp: foreign_def)
qed (simp add: foreign_def)

lemma value_keys: "store_ok S \<Longrightarrow> finite (dom (writes S k)) \<Longrightarrow> w \<in> set (versions S k) \<Longrightarrow> commitTS w \<noteq> lockVer \<and> value_ok w"
  using versions_set [of S k] store_okD [of S] by (fastforce simp: ran_def)

lemma lockDecoder_view:
  assumes "store_ok S" "finite (dom (writes S k))" "foreign k R"
  shows "lockDecoder_Decode k (iter_of (view S k @ R)) = (Inr (locks S k), iter_of (vpairs k (versions S k) @ R))"
proof (cases "locks S k")
  case (Some l)
  then show ?thesis using store_okD(1) [OF assms(1) Some]
    by (simp add: view_def lockDecoder_Decode_def iter_defs)
next
  case None
  show ?thesis
  proof (cases "versions S k")
    case Nil
    then show ?thesis using None assms(3)
      by (cases R) (auto simp: view_def vpairs_def lockDecoder_Decode_def iter_defs foreign_def)
  next
    case (Cons w ws)
    then show ?thesis using None value_keys [OF assms(1,2), of w]
      by (simp add: view_def vpairs_def lockDecoder_Decode_def iter_defs)
  qed
qed

lemma valueDecoder_Cons:
  assumes "value_ok w" "commitTS w \<noteq> lockVer"
  shows "valueDecoder_Decode k (iter_of (vpairs k (w # ws) @ R)) = (Inr (Some w), iter_of (vpairs k ws @ R))"
  using assms by (simp add: vpairs_def valueDecoder_Decode_def iter_defs)

lemma valueDecoder_Nil:
  assumes "foreign k R"
  shows "valueDecoder_Decode k (iter_of (vpairs k [] @ R)) = (Inr None, iter_of R)"
  using assms by (cases R) (auto simp: vpairs_def valueDecoder_Decode_def iter_defs foreign_def)

lemma skipDecoder_own: "skipDecoder_loop k (iter_of (vpairs k ws @ R)) = skipDecoder_loop k (iter_of R)"
proof (induction ws)
  case (Cons w ws)
  then show ?case by (subst skipDecoder_loop.simps) (simp add: vpairs_def iter_defs)
qed (simp add: vpairs_def)

lemma skipDecoder_views:
  assumes "finite_store S" "\<forall>k' \<in> set ks. k < k' \<and> k' \<in> keys S"
  shows "skipDecoder_Decode k (iter_of (vpairs k ws @ concat (map (view S) ks))) =
    (case ks of [] \<Rightarrow> (Inr None, iter_of []) | k' # _ \<Rightarrow> (Inr (Some k'), iter_of (concat (map (view S) ks))))"
proof (cases ks)
  case Nil
  then show ?thesis using skipDecoder_own [of k ws "[]"]
    by (simp add: skipDecoder_Decode_def iter_Error_def skipDecoder_loop.simps [of k "iter_of []"] Valid_def)
next
  case (Cons k' ks')
  then obtain v b xs where v: "view S k' = (mvccEncode k' v, b) # xs" "k' \<noteq> k"
    using view_first [of k' S] assms by (auto simp: finite_store_def)
  have "skipDecoder_loop k (iter_of (concat (map (view S) ks))) = (Inr (Some k'), iter_of (concat (map (view S) ks)))"
    using v Cons by (subst skipDecoder_loop.simps) (simp add: iter_defs)
  moreover have "iter_Error (iter_of xs) = None" for xs by (simp add: iter_Error_def)
  ultimately show ?thesis using Cons by (simp add: skipDecoder_Decode_def skipDecoder_own)
qed

section \<open>Visible versions\<close>

text \<open>The first version of a newest-first list that a reader at \<open>ts\<close> sees.\<close>

definition visible :: "mvccValue list \<Rightarrow> u64 \<Rightarrow> bytes option" where
  "visible ws ts =
     (case List.find (\<lambda>w. valueType w \<noteq> typeRollback \<and> commitTS w \<le> ts) ws of
        None \<Rightarrow> None
      | Some w \<Rightarrow> if valueType w = typeDelete then None else Some (v_value w))"

lemma Valid_vpairs [simp]: "Valid (iter_of (vpairs k (w # ws) @ R))"
  by (simp add: Valid_def vpairs_def)

lemma getValue_loop_Cons:
  assumes "value_ok w" "commitTS w \<noteq> lockVer"
  shows "getValue_loop k ts (iter_of (vpairs k (w # ws) @ R)) =
    (if valueType w = typeRollback \<or> \<not> commitTS w \<le> ts then getValue_loop k ts (iter_of (vpairs k ws @ R))
     else (Inr (if valueType w = typeDelete then None else Some (v_value w)), iter_of (vpairs k ws @ R)))"
  unfolding getValue_loop.simps [of k ts "iter_of (vpairs k (w # ws) @ R)"] valueDecoder_Cons [OF assms] by simp

lemma getValue_loop_Nil:
  assumes "foreign k R"
  shows "getValue_loop k ts (iter_of (vpairs k [] @ R)) = (Inr None, iter_of R)"
  unfolding getValue_loop.simps [of k ts "iter_of (vpairs k [] @ R)"] valueDecoder_Nil [OF assms]
  by (simp add: vpairs_def)

lemma getValue_loop_view:
  assumes "\<forall>w \<in> set ws. value_ok w \<and> commitTS w \<noteq> lockVer" "foreign k R"
  shows "\<exists>ws'. getValue_loop k ts (iter_of (vpairs k ws @ R)) = (Inr (visible ws ts), iter_of (vpairs k ws' @ R))"
  using assms(1)
proof (induction ws)
  case Nil
  show ?case using getValue_loop_Nil [OF assms(2)] by (intro exI [of _ "[]"]) (simp add: visible_def vpairs_def)
next
  case (Cons w ws)
  then have "value_ok w" "commitTS w \<noteq> lockVer" by simp_all
  note step = getValue_loop_Cons [OF this, of k ts ws R]
  show ?case
  proof (cases "valueType w = typeRollback \<or> \<not> commitTS w \<le> ts")
    case True
    then have "visible (w # ws) ts = visible ws ts" by (auto simp: visible_def)
    then show ?thesis using Cons True step by simp
  next
    case False
    then show ?thesis using step by (intro exI [of _ ws]) (simp add: visible_def)
  qed
qed

section \<open>Snapshot reads\<close>

text \<open>
  The specification of a read: of the versions committed no later than \<open>ts\<close>, rollback records
  aside, the one with the largest commit timestamp counts; a delete reads as absent.
\<close>

definition committed :: "store \<Rightarrow> bytes \<Rightarrow> u64 \<Rightarrow> u64 set" where
  "committed S k ts = {v. v \<le> ts \<and> (\<exists>w. writes S k v = Some w \<and> valueType w \<noteq> typeRollback)}"

definition snapshot :: "store \<Rightarrow> bytes \<Rightarrow> u64 \<Rightarrow> bytes option" where
  "snapshot S k ts =
     (if committed S k ts = {} then None
      else let w = the (writes S k (Max (committed S k ts))) in
        if valueType w = typeDelete then None else Some (v_value w))"

lemma find_Some_sorted:
  assumes "sorted_wrt (\<lambda>a b. f b < f a) ws" "List.find P ws = Some w"
  shows "w \<in> set ws \<and> P w \<and> (\<forall>x \<in> set ws. P x \<longrightarrow> f x \<le> (f w :: 'a :: linorder))"
  using assms by (induction ws) (auto split: if_splits)

lemma find_None: "List.find P ws = None \<longleftrightarrow> (\<forall>x \<in> set ws. \<not> P x)"
  by (induction ws) auto

lemma visible_snapshot:
  assumes "store_ok S" "finite (dom (writes S k))"
  shows "visible (versions S k) ts = snapshot S k ts"
proof -
  let ?P = "\<lambda>w. valueType w \<noteq> typeRollback \<and> commitTS w \<le> ts"
  note vs = versions_set [OF assms(2)]
  show ?thesis
  proof (cases "List.find ?P (versions S k)")
    case None
    then have "committed S k ts = {}"
      using vs store_okD(3) [OF assms(1)] by (force simp: committed_def find_None ran_def)
    then show ?thesis using None by (simp add: visible_def snapshot_def)
  next
    case (Some w)
    note f = find_Some_sorted [OF versions_sorted [OF assms] Some]
    from f obtain v where v: "writes S k v = Some w" using vs by (auto simp: ran_def)
    have cv: "commitTS w = v" using store_okD(3) [OF assms(1) v] .
    have "v \<in> committed S k ts" using f v cv by (auto simp: committed_def)
    moreover have "x \<le> v" if "x \<in> committed S k ts" for x
      using that f cv vs store_okD(3) [OF assms(1)] by (force simp: committed_def ran_def)
    moreover have "finite (committed S k ts)"
      by (rule finite_subset [OF _ assms(2)]) (auto simp: committed_def)
    ultimately have "Max (committed S k ts) = v" "committed S k ts \<noteq> {}" by (auto intro: Max_eqI)
    then show ?thesis using Some v by (simp add: visible_def snapshot_def)
  qed
qed

text \<open>The whole read: the lock decides first.\<close>

definition spec_Get :: "op \<Rightarrow> store \<Rightarrow> bytes \<Rightarrow> u64 \<Rightarrow> mvcc_err + bytes option" where
  "spec_Get oplock S k ts =
     (case locks S k of
        None \<Rightarrow> Inr (snapshot S k ts)
      | Some l \<Rightarrow> map_sum id (snapshot S k) (lock_check oplock l ts k))"

lemma getValue_view:
  assumes "store_ok S" "finite (dom (writes S k))" "foreign k R"
  shows "\<exists>ws'. getValue ol (iter_of (view S k @ R)) k ts = (spec_Get ol S k ts, iter_of (vpairs k ws' @ R))"
proof -
  have ws: "\<forall>w \<in> set (versions S k). value_ok w \<and> commitTS w \<noteq> lockVer"
    using value_keys [OF assms(1,2)] by blast
  note loop = getValue_loop_view [OF ws assms(3), unfolded visible_snapshot [OF assms(1,2)]]
  show ?thesis
  proof (cases "locks S k")
    case None
    then show ?thesis using loop by (simp add: getValue_def lockDecoder_view [OF assms] spec_Get_def)
  next
    case (Some l)
    then show ?thesis using loop
      by (cases "lock_check ol l ts k") (auto simp: getValue_def lockDecoder_view [OF assms] spec_Get_def)
  qed
qed

context leveldb
begin

lemma Get_spec:
  assumes "rep S (contents db)"
  shows "Get D db k ts = spec_Get (Op_Lock D) S k ts"
proof -
  obtain ks where ks: "newIterator D db (mvccEncode k lockVer) None = iter_of (view S k @ concat (map (view S) ks))"
    "\<forall>k' \<in> set ks. k < k' \<and> k' \<in> keys S" using iter_from_key [OF assms] .
  have fin: "finite_store S" using rep_finite_store [OF assms] .
  have "foreign k (concat (map (view S) ks))" using foreign_views [OF fin ks(2)] .
  then show ?thesis
    using getValue_view [OF rep_ok [OF assms], of k _ "Op_Lock D" ts] fin ks(1) by (fastforce simp: Get_def finite_store_def)
qed

end

end
