(* ===== verification/Mvcc_Write.thy ===== *)
theory Mvcc_Write
  imports Mvcc_Read
begin

text \<open>
  Writing: what \<open>Prewrite\<close>, \<open>Commit\<close>, \<open>Rollback\<close>, \<open>Cleanup\<close>, \<open>CheckTxnStatus\<close> and \<open>TxnHeartBeat\<close>
  of \<open>mvcc_leveldb.go\<close> do to the abstract store.  A batch is a list of actions on locks and versions;
  each operation is shown to return what its specification on the abstract store says and to write
  a batch with that effect, or to write nothing.
\<close>

section \<open>Actions on the abstract store\<close>

datatype action = ALock bytes mvccLock | AUnlock bytes | AWrite bytes mvccValue | AErase bytes u64

fun conc :: "action \<Rightarrow> batch_op" where
  "conc (ALock k l) = BPut (mvccEncode k lockVer) (MarshalLock l)"
| "conc (AUnlock k) = BDelete (mvccEncode k lockVer)"
| "conc (AWrite k w) = BPut (mvccEncode k (commitTS w)) (MarshalValue w)"
| "conc (AErase k v) = BDelete (mvccEncode k v)"

fun act :: "action \<Rightarrow> store \<Rightarrow> store" where
  "act (ALock k l) S = S\<lparr>locks := (locks S)(k \<mapsto> l)\<rparr>"
| "act (AUnlock k) S = S\<lparr>locks := (locks S)(k := None)\<rparr>"
| "act (AWrite k w) S = S\<lparr>writes := (writes S)(k := (writes S k)(commitTS w \<mapsto> w))\<rparr>"
| "act (AErase k v) S = S\<lparr>writes := (writes S)(k := (writes S k)(v := None))\<rparr>"

text \<open>Actions that keep the store well-formed: slices that can be read back, timestamps below the
  version that is reserved for locks.\<close>

fun action_ok :: "action \<Rightarrow> bool" where
  "action_ok (ALock k l) = lock_ok l"
| "action_ok (AUnlock k) = True"
| "action_ok (AWrite k w) = (value_ok w \<and> commitTS w \<noteq> lockVer)"
| "action_ok (AErase k v) = (v \<noteq> lockVer)"

definition acts :: "action list \<Rightarrow> store \<Rightarrow> store" where
  "acts as S = fold act as S"

lemma acts_simps [simp]: "acts [] S = S" "acts (a # as) S = acts as (act a S)" "acts (as @ bs) S = acts bs (acts as S)"
  by (simp_all add: acts_def)

lemma rep_act:
  assumes "rep S m" "action_ok a"
  shows "rep (act a S) (apply_op (conc a) m)"
proof (cases a)
  case (ALock k l)
  then show ?thesis using assms by (auto simp: rep_def store_ok_def)
next
  case (AUnlock k)
  then show ?thesis using assms by (auto simp: rep_def store_ok_def)
next
  case (AWrite k w)
  then show ?thesis using assms by (auto simp: rep_def store_ok_def)
next
  case (AErase k v)
  then show ?thesis using assms by (auto simp: rep_def store_ok_def)
qed

lemma rep_acts:
  "rep S m \<Longrightarrow> list_all action_ok as \<Longrightarrow> rep (acts as S) (apply_batch (map conc as) m)"
  by (induction as arbitrary: S m) (auto simp: rep_act)


section \<open>The operations on one key\<close>

text \<open>What \<open>prewriteMutation\<close> checks: a lock of another transaction, and without a lock the newest
  version, for which a zero version stands when there is none.\<close>

definition newest :: "store \<Rightarrow> bytes \<Rightarrow> mvccValue" where
  "newest S k = (case versions S k of [] \<Rightarrow> zeroValue | w # _ \<Rightarrow> w)"

definition prewrite_err :: "store \<Rightarrow> bytes \<Rightarrow> u64 \<Rightarrow> mvcc_err option" where
  "prewrite_err S k ts =
     (case locks S k of
        Some l \<Rightarrow> if l_startTS l = ts then None else Some (lockErr l k)
      | None \<Rightarrow>
          if commitTS (newest S k) < ts then None
          else Some (ErrConflict ts (v_startTS (newest S k)) (commitTS (newest S k)) k))"

definition lock_of :: "Mutation \<Rightarrow> u64 \<Rightarrow> bytes \<Rightarrow> u64 \<Rightarrow> mvccLock" where
  "lock_of m ts prim ttl' =
     \<lparr>l_startTS = ts, primary = prim, l_value = m_value m, l_op = m_op m, ttl = ttl', forUpdateTS = 0\<rparr>"

text \<open>The record a transaction has left on a key, and what commit and rollback do with a key.\<close>

definition txn_record :: "store \<Rightarrow> bytes \<Rightarrow> u64 \<Rightarrow> mvccValue option" where
  "txn_record S k ts = List.find (\<lambda>w. v_startTS w = ts) (versions S k)"

definition owns_lock :: "store \<Rightarrow> bytes \<Rightarrow> u64 \<Rightarrow> bool" where
  "owns_lock S k ts = (case locks S k of Some l \<Rightarrow> l_startTS l = ts | None \<Rightarrow> False)"

definition committed_value :: "'db deps \<Rightarrow> mvccLock \<Rightarrow> u64 \<Rightarrow> mvccValue" where
  "committed_value D l c =
     \<lparr>valueType = if l_op l = Op_Put D then typePut else typeDelete, v_startTS = l_startTS l, commitTS = c,
      v_value = l_value l\<rparr>"

definition lock_acts :: "'db deps \<Rightarrow> bytes \<Rightarrow> mvccLock \<Rightarrow> u64 \<Rightarrow> action list" where
  "lock_acts D k l c =
     (if l_op l \<noteq> Op_Lock D then [AWrite k (committed_value D l c)] else []) @ [AUnlock k]"

definition commit_acts :: "'db deps \<Rightarrow> store \<Rightarrow> u64 \<Rightarrow> u64 \<Rightarrow> bytes \<Rightarrow> mvcc_err + action list" where
  "commit_acts D S ts c k =
     (if owns_lock S k ts then Inr (lock_acts D k (the (locks S k)) c)
      else case txn_record S k ts of
        Some w \<Rightarrow> if valueType w \<noteq> typeRollback then Inr [] else Inl ErrRetryable
      | None \<Rightarrow> Inl ErrRetryable)"

definition rollback_acts :: "store \<Rightarrow> u64 \<Rightarrow> bytes \<Rightarrow> mvcc_err + action list" where
  "rollback_acts S ts k =
     (if owns_lock S k ts then Inr [AWrite k (rollbackRecord ts), AUnlock k]
      else case txn_record S k ts of
        Some w \<Rightarrow> if valueType w \<noteq> typeRollback then Inl (ErrAlreadyCommitted (commitTS w)) else Inr []
      | None \<Rightarrow> Inr [AWrite k (rollbackRecord ts)])"

text \<open>The results of one key after the other, up to the first error.\<close>

fun all_acts :: "(bytes \<Rightarrow> mvcc_err + action list) \<Rightarrow> bytes list \<Rightarrow> mvcc_err + action list" where
  "all_acts f [] = Inr []"
| "all_acts f (k # ks) =
     (case f k of Inl e \<Rightarrow> Inl e
      | Inr as \<Rightarrow> (case all_acts f ks of Inl e \<Rightarrow> Inl e | Inr bs \<Rightarrow> Inr (as @ bs)))"

lemma getTxnCommitInfo_view:
  assumes "\<forall>w \<in> set ws. value_ok w \<and> commitTS w \<noteq> lockVer" "foreign k R"
  shows "getTxnCommitInfo (iter_of (vpairs k ws @ R)) k ts = Inr (List.find (\<lambda>w. v_startTS w = ts) ws)"
  using assms(1)
proof (induction ws)
  case Nil
  show ?case unfolding getTxnCommitInfo.simps [of "iter_of (vpairs k [] @ R)"] valueDecoder_Nil [OF assms(2)] by simp
next
  case (Cons w ws)
  then have "value_ok w" "commitTS w \<noteq> lockVer" by simp_all
  then show ?case using Cons
    unfolding getTxnCommitInfo.simps [of "iter_of (vpairs k (w # ws) @ R)"] valueDecoder_Cons [OF \<open>value_ok w\<close> \<open>commitTS w \<noteq> lockVer\<close>]
    by simp
qed

lemma checkConflictValue_view:
  assumes "store_ok S" "finite (dom (writes S k))" "foreign k R" "m_key m = k"
  shows "checkConflictValue (iter_of (vpairs k (versions S k) @ R)) m ts =
    (if commitTS (newest S k) < ts then None
     else Some (ErrConflict ts (v_startTS (newest S k)) (commitTS (newest S k)) k))"
proof (cases "versions S k")
  case Nil
  then show ?thesis using valueDecoder_Nil [OF assms(3)] assms(4) by (auto simp: checkConflictValue_def newest_def)
next
  case (Cons w ws)
  then have "value_ok w" "commitTS w \<noteq> lockVer" using value_keys [OF assms(1,2), of w] by simp_all
  from valueDecoder_Cons [OF this, of k ws R] show ?thesis
    using Cons assms(4) by (auto simp: checkConflictValue_def newest_def)
qed

context leveldb
begin

text \<open>An iterator at the lock position of a key, taken apart.\<close>

lemma key_iterator:
  assumes "rep S (contents db)"
  obtains R where "newIterator D db (mvccEncode k lockVer) None = iter_of (view S k @ R)" "foreign k R"
    "lockDecoder_Decode k (iter_of (view S k @ R)) = (Inr (locks S k), iter_of (vpairs k (versions S k) @ R))"
    "getTxnCommitInfo (iter_of (vpairs k (versions S k) @ R)) k ts = Inr (txn_record S k ts)"
proof -
  obtain ks where ks: "newIterator D db (mvccEncode k lockVer) None = iter_of (view S k @ concat (map (view S) ks))"
    "\<forall>k' \<in> set ks. k < k' \<and> k' \<in> keys S" using iter_from_key [OF assms] .
  let ?R = "concat (map (view S) ks)"
  have fin: "finite_store S" and ok: "store_ok S" using rep_finite_store [OF assms] rep_ok [OF assms] .
  then have fk: "finite (dom (writes S k))" by (simp add: finite_store_def)
  have R: "foreign k ?R" using foreign_views [OF fin ks(2)] .
  have ws: "\<forall>w \<in> set (versions S k). value_ok w \<and> commitTS w \<noteq> lockVer" using value_keys [OF ok fk] by blast
  show ?thesis
    using that [OF ks(1) R lockDecoder_view [OF ok fk R]] getTxnCommitInfo_view [OF ws R] by (simp add: txn_record_def)
qed

lemma prewriteMutation_spec:
  assumes "rep S (contents db)"
  shows "prewriteMutation D db b m ts prim ttl' =
    (prewrite_err S (m_key m) ts,
     if prewrite_err S (m_key m) ts = None then b @ [conc (ALock (m_key m) (lock_of m ts prim ttl'))] else b)"
proof -
  obtain R where R: "newIterator D db (mvccEncode (m_key m) lockVer) None = iter_of (view S (m_key m) @ R)" "foreign (m_key m) R"
    "lockDecoder_Decode (m_key m) (iter_of (view S (m_key m) @ R)) =
       (Inr (locks S (m_key m)), iter_of (vpairs (m_key m) (versions S (m_key m)) @ R))"
    by (rule key_iterator [OF assms])
  have "finite (dom (writes S (m_key m)))" using rep_finite_store [OF assms] by (simp add: finite_store_def)
  note c = checkConflictValue_view [OF rep_ok [OF assms] this R(2) refl]
  show ?thesis
    by (simp add: prewriteMutation_def R(1,3) c prewrite_err_def lock_of_def split: option.split)
qed

lemma commitKey_spec:
  assumes "rep S (contents db)"
  shows "commitKey D db b k ts c = map_sum id (\<lambda>as. b @ map conc as) (commit_acts D S ts c k)"
proof -
  obtain R where R: "newIterator D db (mvccEncode k lockVer) None = iter_of (view S k @ R)"
    "lockDecoder_Decode k (iter_of (view S k @ R)) = (Inr (locks S k), iter_of (vpairs k (versions S k) @ R))"
    "getTxnCommitInfo (iter_of (vpairs k (versions S k) @ R)) k ts = Inr (txn_record S k ts)"
    by (rule key_iterator [OF assms])
  show ?thesis
    by (auto simp: commitKey_def R commit_acts_def owns_lock_def commitLock_def lock_acts_def committed_value_def
        split: option.split)
qed

lemma rollbackKey_spec:
  assumes "rep S (contents db)"
  shows "rollbackKey D db b k ts = map_sum id (\<lambda>as. b @ map conc as) (rollback_acts S ts k)"
proof -
  obtain R where R: "newIterator D db (mvccEncode k lockVer) None = iter_of (view S k @ R)"
    "lockDecoder_Decode k (iter_of (view S k @ R)) = (Inr (locks S k), iter_of (vpairs k (versions S k) @ R))"
    "getTxnCommitInfo (iter_of (vpairs k (versions S k) @ R)) k ts = Inr (txn_record S k ts)"
    by (rule key_iterator [OF assms])
  have "locks S k = None \<and> txn_record S k ts = None" if "view S k @ R = []"
    using that by (auto simp: view_def vpairs_def txn_record_def split: option.splits)
  then show ?thesis
    by (auto simp: rollbackKey_def R rollback_acts_def owns_lock_def rollbackLock_def rollbackRecord_def Valid_def Let_def
        split: option.split)
qed

end

section \<open>Whole operations\<close>

lemma committed_value_ok: "lock_ok l \<Longrightarrow> value_ok (committed_value D l c)"
  by (simp add: lock_ok_def value_ok_def committed_value_def)

lemma committed_value_simps [simp]:
  "commitTS (committed_value D l c) = c" "v_startTS (committed_value D l c) = l_startTS l"
  "v_value (committed_value D l c) = l_value l" "valueType (committed_value D l c) \<noteq> typeRollback"
  "valueType (committed_value D l c) = typePut \<or> valueType (committed_value D l c) = typeDelete"
  by (simp_all add: committed_value_def typePut_def typeDelete_def typeRollback_def)

lemma rollbackRecord_simps [simp]:
  "commitTS (rollbackRecord ts) = ts" "v_startTS (rollbackRecord ts) = ts"
  "valueType (rollbackRecord ts) = typeRollback" "value_ok (rollbackRecord ts)"
  by (simp_all add: rollbackRecord_def value_ok_def small_def)

lemma lock_acts_ok: "lock_ok l \<Longrightarrow> c \<noteq> lockVer \<Longrightarrow> list_all action_ok (lock_acts D k l c)"
  by (simp add: lock_acts_def committed_value_ok)

lemma commit_acts_ok:
  assumes "store_ok S" "c \<noteq> lockVer" "commit_acts D S ts c k = Inr as"
  shows "list_all action_ok as"
  using assms store_okD(1) [OF assms(1), of k]
  by (auto simp: commit_acts_def owns_lock_def intro!: lock_acts_ok split: if_splits option.splits)

lemma rollback_acts_ok:
  "ts \<noteq> lockVer \<Longrightarrow> rollback_acts S ts k = Inr as \<Longrightarrow> list_all action_ok as"
  by (auto simp: rollback_acts_def split: if_splits option.splits)

lemma all_acts_ok:
  "all_acts f ks = Inr as \<Longrightarrow> (\<And>k bs. k \<in> set ks \<Longrightarrow> f k = Inr bs \<Longrightarrow> list_all P bs) \<Longrightarrow> list_all P as"
  by (induction ks arbitrary: as) (fastforce split: sum.splits)+

lemma all_acts_all:
  "all_acts f ks = Inr as \<Longrightarrow> as = concat (map (projr \<circ> f) ks) \<and> (\<forall>k \<in> set ks. \<exists>bs. f k = Inr bs)"
  by (induction ks arbitrary: as) (fastforce split: sum.splits)+

text \<open>A prewrite locks every key or, when one of them has an error, none.\<close>

definition prewrite_acts :: "Mutation list \<Rightarrow> u64 \<Rightarrow> bytes \<Rightarrow> u64 \<Rightarrow> action list" where
  "prewrite_acts ms ts prim ttl' = map (\<lambda>m. ALock (m_key m) (lock_of m ts prim ttl')) ms"

definition prewrite_errs :: "store \<Rightarrow> Mutation list \<Rightarrow> u64 \<Rightarrow> mvcc_err option list" where
  "prewrite_errs S ms ts = map (\<lambda>m. prewrite_err S (m_key m) ts) ms"

definition mutations_ok :: "Mutation list \<Rightarrow> bytes \<Rightarrow> bool" where
  "mutations_ok ms prim = (small prim \<and> (\<forall>m \<in> set ms. small (m_value m)))"

lemma prewrite_acts_ok: "mutations_ok ms prim \<Longrightarrow> list_all action_ok (prewrite_acts ms ts prim ttl')"
  by (auto simp: prewrite_acts_def mutations_ok_def list_all_iff lock_of_def lock_ok_def)

context leveldb
begin

lemma write_acts:
  assumes "rep S (contents db)" "list_all action_ok as"
  obtains db' where "Write D db (map conc as) = Inr db'" "rep (acts as S) (contents db')"
    "write_batch D db (map conc as) = (None, db')"
  using write_applies [of db "map conc as"] rep_acts [OF assms] by (auto simp: write_batch_def)

lemma Prewrite_loop_spec:
  assumes "rep S (contents db)"
  shows "Prewrite_loop D db ms ts prim ttl' b errs =
    (errs @ prewrite_errs S ms ts,
     b @ map conc (prewrite_acts (filter (\<lambda>m. prewrite_err S (m_key m) ts = None) ms) ts prim ttl'))"
  by (induction ms arbitrary: b errs)
    (simp_all add: prewriteMutation_spec [OF assms] prewrite_errs_def prewrite_acts_def)

lemma Prewrite_spec:
  assumes "rep S (contents db)" "mutations_ok ms prim"
  shows "\<exists>db'. Prewrite D db ms prim ts ttl' = (prewrite_errs S ms ts, db') \<and>
    (if \<forall>m \<in> set ms. prewrite_err S (m_key m) ts = None
     then rep (acts (prewrite_acts ms ts prim ttl') S) (contents db') else db' = db)"
proof (cases "\<forall>m \<in> set ms. prewrite_err S (m_key m) ts = None")
  case True
  then have "filter (\<lambda>m. prewrite_err S (m_key m) ts = None) ms = ms" by simp
  then show ?thesis using True
    by (auto simp: Prewrite_def Prewrite_loop_spec [OF assms(1)] prewrite_errs_def
        intro: write_acts [OF assms(1) prewrite_acts_ok [OF assms(2), of ts ttl']])
next
  case False
  then show ?thesis by (auto simp: Prewrite_def Prewrite_loop_spec [OF assms(1)] prewrite_errs_def)
qed

lemma Commit_loop_spec:
  assumes "rep S (contents db)"
  shows "Commit_loop D db b ks ts c = map_sum id (\<lambda>as. b @ map conc as) (all_acts (commit_acts D S ts c) ks)"
  by (induction ks arbitrary: b) (simp_all add: commitKey_spec [OF assms] split: sum.split)

lemma Rollback_loop_spec:
  assumes "rep S (contents db)"
  shows "Rollback_loop D db b ks ts = map_sum id (\<lambda>as. b @ map conc as) (all_acts (rollback_acts S ts) ks)"
  by (induction ks arbitrary: b) (simp_all add: rollbackKey_spec [OF assms] split: sum.split)

lemma Commit_spec:
  assumes "rep S (contents db)" "c \<noteq> lockVer"
  shows "case all_acts (commit_acts D S ts c) ks of
      Inl e \<Rightarrow> Commit D db ks ts c = (Some e, db)
    | Inr as \<Rightarrow> \<exists>db'. Commit D db ks ts c = (None, db') \<and> rep (acts as S) (contents db')"
proof (cases "all_acts (commit_acts D S ts c) ks")
  case (Inr as)
  then have "list_all action_ok as" by (rule all_acts_ok) (rule commit_acts_ok [OF rep_ok [OF assms(1)] assms(2)])
  from write_acts [OF assms(1) this] Inr show ?thesis by (auto simp: Commit_def Commit_loop_spec [OF assms(1)])
qed (simp add: Commit_def Commit_loop_spec [OF assms(1)])

lemma Rollback_spec:
  assumes "rep S (contents db)" "ts \<noteq> lockVer"
  shows "case all_acts (rollback_acts S ts) ks of
      Inl e \<Rightarrow> Rollback D db ks ts = (Some e, db)
    | Inr as \<Rightarrow> \<exists>db'. Rollback D db ks ts = (None, db') \<and> rep (acts as S) (contents db')"
proof (cases "all_acts (rollback_acts S ts) ks")
  case (Inr as)
  then have "list_all action_ok as" by (rule all_acts_ok) (rule rollback_acts_ok [OF assms(2)])
  from write_acts [OF assms(1) this] Inr show ?thesis by (auto simp: Rollback_def Rollback_loop_spec [OF assms(1)])
qed (simp add: Rollback_def Rollback_loop_spec [OF assms(1)])

end

section \<open>Transaction status\<close>

definition rollback_own :: "bytes \<Rightarrow> u64 \<Rightarrow> action list" where
  "rollback_own k ts = [AWrite k (rollbackRecord ts), AUnlock k]"

lemma rollback_own_ok: "ts \<noteq> lockVer \<Longrightarrow> list_all action_ok (rollback_own k ts)"
  by (simp add: rollback_own_def)

definition cleanup_result :: "store \<Rightarrow> bytes \<Rightarrow> u64 \<Rightarrow> u64 \<Rightarrow> mvcc_err option \<times> action list" where
  "cleanup_result S k ts cur =
     (if owns_lock S k ts then
        (if cur = 0 \<or> lock_expired (the (locks S k)) cur then (None, rollback_own k ts)
         else (Some (lockErr (the (locks S k)) k), []))
      else (case txn_record S k ts of
              Some w \<Rightarrow> if valueType w \<noteq> typeRollback then Some (ErrAlreadyCommitted (commitTS w)) else None
            | None \<Rightarrow> None, []))"

definition status_result :: "store \<Rightarrow> bytes \<Rightarrow> u64 \<Rightarrow> u64 \<Rightarrow> (u64 \<times> u64 \<times> Action) \<times> action list" where
  "status_result S k ts cur =
     (if owns_lock S k ts then
        (if lock_expired (the (locks S k)) cur then ((0, 0, Action_TTLExpireRollback), rollback_own k ts)
         else ((ttl (the (locks S k)), 0, Action_NoAction), []))
      else ((0, case txn_record S k ts of
                  Some w \<Rightarrow> if valueType w \<noteq> typeRollback then commitTS w else 0
                | None \<Rightarrow> 0, Action_NoAction), []))"

definition heartbeat_result :: "store \<Rightarrow> bytes \<Rightarrow> u64 \<Rightarrow> u64 \<Rightarrow> (mvcc_err + u64) \<times> action list" where
  "heartbeat_result S k ts adv =
     (if owns_lock S k ts then
        let l = the (locks S k) in
        (if primary l \<noteq> k then (Inl ErrHeartBeatNonPrimary, [])
         else if adv > ttl l then (Inr adv, [ALock k (l\<lparr>ttl := adv\<rparr>)])
         else (Inr (ttl l), []))
      else (Inl ErrLockNotExist, []))"

lemma no_pairs: "view S k @ R = [] \<Longrightarrow> locks S k = None \<and> txn_record S k ts = None"
  by (auto simp: view_def vpairs_def txn_record_def split: option.splits)

context leveldb
begin

lemma Cleanup_spec:
  assumes "rep S (contents db)" "ts \<noteq> lockVer"
  shows "\<exists>db'. Cleanup D db k ts cur = (fst (cleanup_result S k ts cur), db') \<and>
    rep (acts (snd (cleanup_result S k ts cur)) S) (contents db')"
proof -
  obtain R where R: "newIterator D db (mvccEncode k lockVer) None = iter_of (view S k @ R)"
    "lockDecoder_Decode k (iter_of (view S k @ R)) = (Inr (locks S k), iter_of (vpairs k (versions S k) @ R))"
    "getTxnCommitInfo (iter_of (vpairs k (versions S k) @ R)) k ts = Inr (txn_record S k ts)"
    by (rule key_iterator [OF assms(1)])
  obtain db' where w: "write_batch D db (rollbackLock [] k ts) = (None, db')" "rep (acts (rollback_own k ts) S) (contents db')"
    using write_acts [OF assms(1) rollback_own_ok [OF assms(2)], of k]
    by (auto simp: rollback_own_def rollbackLock_def rollbackRecord_def)
  show ?thesis using no_pairs [of S k R ts] w assms(1)
    by (cases "view S k @ R = []")
      (auto simp: Cleanup_def R Valid_def cleanup_result_def owns_lock_def split: option.split)
qed

lemma CheckTxnStatus_spec:
  assumes "rep S (contents db)" "ts \<noteq> lockVer"
  shows "\<exists>db'. CheckTxnStatus D db k ts cur = (Inr (fst (status_result S k ts cur)), db') \<and>
    rep (acts (snd (status_result S k ts cur)) S) (contents db')"
proof -
  obtain R where R: "newIterator D db (mvccEncode k lockVer) None = iter_of (view S k @ R)"
    "lockDecoder_Decode k (iter_of (view S k @ R)) = (Inr (locks S k), iter_of (vpairs k (versions S k) @ R))"
    "getTxnCommitInfo (iter_of (vpairs k (versions S k) @ R)) k ts = Inr (txn_record S k ts)"
    by (rule key_iterator [OF assms(1)])
  obtain db' where w: "Write D db (rollbackLock [] k ts) = Inr db'" "rep (acts (rollback_own k ts) S) (contents db')"
    using write_acts [OF assms(1) rollback_own_ok [OF assms(2)], of k]
    by (auto simp: rollback_own_def rollbackLock_def rollbackRecord_def)
  show ?thesis using no_pairs [of S k R ts] w assms(1)
    by (cases "view S k @ R = []")
      (auto simp: CheckTxnStatus_def R Valid_def status_result_def owns_lock_def split: option.split)
qed

lemma TxnHeartBeat_spec:
  assumes "rep S (contents db)"
  shows "\<exists>db'. TxnHeartBeat D db k ts adv = (fst (heartbeat_result S k ts adv), db') \<and>
    rep (acts (snd (heartbeat_result S k ts adv)) S) (contents db')"
proof -
  obtain R where R: "newIterator D db (mvccEncode k lockVer) None = iter_of (view S k @ R)"
    "lockDecoder_Decode k (iter_of (view S k @ R)) = (Inr (locks S k), iter_of (vpairs k (versions S k) @ R))"
    by (rule key_iterator [OF assms(1)])
  have w: "\<exists>db'. Write D db [BPut (mvccEncode k lockVer) (MarshalLock (l\<lparr>ttl := adv\<rparr>))] = Inr db' \<and>
      rep (act (ALock k (l\<lparr>ttl := adv\<rparr>)) S) (contents db')" if "locks S k = Some l" for l
    using write_acts [OF assms, of "[ALock k (l\<lparr>ttl := adv\<rparr>)]"] store_okD(1) [OF rep_ok [OF assms] that]
    by (auto simp: lock_ok_def)
  show ?thesis
  proof (cases "locks S k")
    case None
    then show ?thesis using assms
      by (auto simp: TxnHeartBeat_def R Valid_def heartbeat_result_def owns_lock_def)
  next
    case (Some l)
    then have "view S k @ R \<noteq> []" using no_pairs by fastforce
    then show ?thesis using Some assms w [OF Some]
      by (auto simp: TxnHeartBeat_def R Valid_def heartbeat_result_def owns_lock_def Let_def)
  qed
qed

end

end
