(* ===== verification/Mvcc_Range.thy ===== *)
theory Mvcc_Range
  imports Mvcc_Write
begin

text \<open>
  The operations over a range of keys, \<open>Scan\<close>, \<open>ScanLock\<close>, \<open>ResolveLock\<close>, \<open>BatchResolveLock\<close>,
  \<open>GC\<close> and \<open>DeleteRange\<close>: their loops go through the keys of the store in the range exactly once and
  have the effect of their specifications on the abstract store.
\<close>

section \<open>Scans\<close>

definition pair_of :: "op \<Rightarrow> store \<Rightarrow> u64 \<Rightarrow> bytes \<Rightarrow> Pair list" where
  "pair_of ol S ts k =
     (case spec_Get ol S k ts of
        Inl e \<Rightarrow> [\<lparr>p_key = k, p_value = None, p_err = Some e\<rparr>]
      | Inr None \<Rightarrow> []
      | Inr (Some v) \<Rightarrow> [\<lparr>p_key = k, p_value = Some v, p_err = None\<rparr>])"

definition lock_info :: "store \<Rightarrow> u64 \<Rightarrow> bytes \<Rightarrow> LockInfo list" where
  "lock_info S maxTS k =
     (case locks S k of
        Some l \<Rightarrow> if l_startTS l \<le> maxTS then [\<lparr>li_primary = primary l, li_version = l_startTS l, li_key = k\<rparr>] else []
      | None \<Rightarrow> [])"

definition resolve_acts :: "'db deps \<Rightarrow> store \<Rightarrow> (u64 \<Rightarrow> u64 option) \<Rightarrow> bytes \<Rightarrow> action list" where
  "resolve_acts D S decide k =
     (case locks S k of
        Some l \<Rightarrow> (case decide (l_startTS l) of
            Some c \<Rightarrow> if c > 0 then lock_acts D k l c else rollback_own k (l_startTS l)
          | None \<Rightarrow> [])
      | None \<Rightarrow> [])"

lemma pair_of_Nil: "k \<notin> keys S \<Longrightarrow> pair_of ol S ts k = []"
  by (auto simp: pair_of_def spec_Get_def keys_def snapshot_def committed_def split: option.splits)

lemma lock_info_Nil: "k \<notin> keys S \<Longrightarrow> lock_info S maxTS k = []"
  by (auto simp: lock_info_def keys_def split: option.splits)

lemma resolve_acts_Nil: "k \<notin> keys S \<Longrightarrow> resolve_acts D S decide k = []"
  by (auto simp: resolve_acts_def keys_def split: option.splits)

text \<open>The keys a scan goes through: the current key, which need not be in the store, and the keys of
  the store after it.\<close>

definition scan_keys :: "store \<Rightarrow> bytes list \<Rightarrow> bool" where
  "scan_keys S ks = (sorted_wrt (<) ks \<and> set (tl ks) \<subseteq> keys S)"

lemma scan_keys_Cons: "scan_keys S (k # ks) \<Longrightarrow> (\<forall>k' \<in> set ks. k < k' \<and> k' \<in> keys S) \<and> scan_keys S ks"
  by (cases ks) (auto simp: scan_keys_def)

lemma concat_in_keys:
  "(\<And>k. k \<notin> keys S \<Longrightarrow> f k = []) \<Longrightarrow> concat (map f (filter (\<lambda>k. k \<in> keys S) ks)) = concat (map f ks)"
  by (induction ks) auto

context leveldb
begin

lemma newScanIterator_spec:
  assumes "rep S (contents db)"
  obtains (keys) k ks where "newScanIterator D db a b = Inr (iter_of (concat (map (view S) (k # ks))), k)"
      "scan_keys S (k # ks)" "filter (\<lambda>k. k \<in> keys S) (k # ks) = range_keys S a b"
  | (none) k where "newScanIterator D db a b = Inr (iter_of [], k)" "range_keys S a b = []"
proof -
  let ?ks = "range_keys S a b"
  have fin: "finite_store S" using rep_finite_store [OF assms] .
  have it: "newIterator D db (if length a > 0 then mvccEncode a lockVer else [])
      (if length b > 0 then Some (mvccEncode b lockVer) else None) = iter_of (concat (map (view S) ?ks))"
    using iter_range [OF assms, of a b] by (simp add: start_bound_def end_bound_def)
  have inS: "set ?ks \<subseteq> keys S" and a: "\<forall>k \<in> set ?ks. a \<le> k" using range_keys_set [OF fin, of a b] by (auto simp: in_range_def)
  show ?thesis
  proof (cases ?ks)
    case Nil
    then show ?thesis using none [of a] it by (cases "a = []") (auto simp: newScanIterator_def Valid_def)
  next
    case (Cons k ks)
    obtain v y xs where v: "view S k = (mvccEncode k v, y) # xs"
      using view_first [of k S] fin inS Cons by (auto simp: finite_store_def)
    have sorted: "sorted_wrt (<) (k # ks)" using range_keys_sorted [of S a b] Cons by simp
    have filt: "filter (\<lambda>k. k \<in> keys S) ks = ks" using inS Cons by (auto simp: filter_id_conv)
    consider "a = []" | "a \<noteq> []" "a = k" | "a \<noteq> []" "a < k" using a Cons by force
    then show ?thesis
    proof cases
      case 1
      then show ?thesis using it v Cons inS sorted filt
        by (intro keys [of k ks]) (auto simp: newScanIterator_def Valid_def iter_Key_def scan_keys_def)
    next
      case 2
      then show ?thesis using it Cons inS sorted filt
        by (intro keys [of k ks]) (auto simp: newScanIterator_def scan_keys_def)
    next
      case 3
      have "a \<notin> set ?ks" using 3 sorted Cons by auto
      moreover have "a \<in> set ?ks" if "a \<in> keys S"
        using that 3 Cons range_keys_set [OF fin, of a b] by (force simp: in_range_def)
      ultimately have "a \<notin> keys S" by blast
      then show ?thesis using 3 it Cons inS sorted filt view_Nil [of a S]
        by (intro keys [of a "k # ks"]) (auto simp: newScanIterator_def scan_keys_def)
    qed
  qed
qed

end

section \<open>Range loops\<close>

lemma pair_of_short: "length (pair_of ol S ts k) \<le> 1"
  by (simp add: pair_of_def split: sum.split option.split)

lemma scan_step:
  assumes "finite_store S" "store_ok S" "scan_keys S (k # ks)"
  shows "\<exists>ws. getValue ol (iter_of (concat (map (view S) (k # ks)))) k ts =
      (spec_Get ol S k ts, iter_of (vpairs k ws @ concat (map (view S) ks)))"
    and "lockDecoder_Decode k (iter_of (concat (map (view S) (k # ks)))) =
      (Inr (locks S k), iter_of (vpairs k (versions S k) @ concat (map (view S) ks)))"
    and "skipDecoder_Decode k (iter_of (vpairs k vs @ concat (map (view S) ks))) =
      (case ks of [] \<Rightarrow> (Inr None, iter_of []) | k' # _ \<Rightarrow> (Inr (Some k'), iter_of (concat (map (view S) ks))))"
    and "foreign k (concat (map (view S) ks))"
proof -
  have ks: "\<forall>k' \<in> set ks. k < k' \<and> k' \<in> keys S" using scan_keys_Cons [OF assms(3)] by simp
  have fk: "finite (dom (writes S k))" using assms(1) by (simp add: finite_store_def)
  show R: "foreign k (concat (map (view S) ks))" using foreign_views [OF assms(1) ks] .
  show "\<exists>ws. getValue ol (iter_of (concat (map (view S) (k # ks)))) k ts =
      (spec_Get ol S k ts, iter_of (vpairs k ws @ concat (map (view S) ks)))"
    using getValue_view [OF assms(2) fk R] by simp
  show "lockDecoder_Decode k (iter_of (concat (map (view S) (k # ks)))) =
      (Inr (locks S k), iter_of (vpairs k (versions S k) @ concat (map (view S) ks)))"
    using lockDecoder_view [OF assms(2) fk R] by simp
  show "skipDecoder_Decode k (iter_of (vpairs k vs @ concat (map (view S) ks))) =
      (case ks of [] \<Rightarrow> (Inr None, iter_of []) | k' # _ \<Rightarrow> (Inr (Some k'), iter_of (concat (map (view S) ks))))"
    using skipDecoder_views [OF assms(1) ks] .
qed

lemma take_pair:
  assumes "length ps \<le> (1 :: nat)" "int (length acc) < limit"
  shows "acc @ take (nat (limit - int (length acc))) (ps @ qs) =
    (acc @ ps) @ take (nat (limit - int (length (acc @ ps)))) qs"
proof -
  have "take (nat (limit - int (length acc))) ps = ps" using assms by simp
  moreover have "nat (limit - int (length acc)) - length ps = nat (limit - int (length (acc @ ps)))" by simp
  ultimately show ?thesis by simp
qed

lemma Scan_loop_step:
  assumes "getValue ol iter k ts = (spec_Get ol S k ts, iter1)"
  shows "Scan_loop ol ts limit iter k acc =
    (if int (length acc) < limit then
       (case skipDecoder_Decode k iter1 of
          (Inr (Some k'), iter2) \<Rightarrow> Scan_loop ol ts limit iter2 k' (acc @ pair_of ol S ts k)
        | _ \<Rightarrow> acc @ pair_of ol S ts k)
     else acc)"
  unfolding Scan_loop.simps [of ol ts limit iter] assms pair_of_def
  by (cases "skipDecoder_Decode k iter1") (auto simp: Let_def split: sum.split option.split)

lemma Scan_loop_spec:
  assumes "finite_store S" "store_ok S" "scan_keys S (k # ks)"
  shows "Scan_loop ol ts limit (iter_of (concat (map (view S) (k # ks)))) k acc =
    acc @ take (nat (limit - int (length acc))) (concat (map (pair_of ol S ts) (k # ks)))"
  using assms(3)
proof (induction ks arbitrary: k acc)
  case Nil
  obtain ws where "getValue ol (iter_of (concat (map (view S) [k]))) k ts = (spec_Get ol S k ts, iter_of (vpairs k ws @ []))"
    using scan_step(1) [OF assms(1,2) Nil] by auto
  then show ?case
    using scan_step(3) [OF assms(1,2) Nil, of ws] take_pair [OF pair_of_short, of acc limit ol S ts k "[]"]
    by (simp add: Scan_loop_step)
next
  case (Cons k' ks)
  obtain ws where g: "getValue ol (iter_of (concat (map (view S) (k # k' # ks)))) k ts =
      (spec_Get ol S k ts, iter_of (vpairs k ws @ concat (map (view S) (k' # ks))))"
    using scan_step(1) [OF assms(1,2) Cons.prems] by auto
  have "scan_keys S (k' # ks)" using scan_keys_Cons [OF Cons.prems] by simp
  note IH = Cons.IH [OF this, of "acc @ pair_of ol S ts k"]
  show ?case unfolding Scan_loop_step [OF g] scan_step(3) [OF assms(1,2) Cons.prems] list.case prod.case sum.case option.case IH
    using take_pair [OF pair_of_short, of acc limit ol S ts k "concat (map (pair_of ol S ts) (k' # ks))"] by simp
qed

lemma ScanLock_loop_spec:
  assumes "finite_store S" "store_ok S" "scan_keys S (k # ks)"
  shows "ScanLock_loop maxTS (iter_of (concat (map (view S) (k # ks)))) k acc =
    Inr (acc @ concat (map (lock_info S maxTS) (k # ks)))"
  using assms(3)
proof (induction ks arbitrary: k acc)
  case Nil
  show ?case using scan_step(2,3) [OF assms(1,2) Nil] no_pairs [of S k "[]"]
    unfolding ScanLock_loop.simps [of maxTS "iter_of (concat (map (view S) [k]))"]
    by (auto simp: lock_info_def Valid_def split: option.splits)
next
  case (Cons k' ks)
  have v: "Valid (iter_of (concat (map (view S) (k # k' # ks))))"
    using view_first [of k' S] assms(1) scan_keys_Cons [OF Cons.prems] by (auto simp: Valid_def finite_store_def)
  show ?case using v scan_step(2,3) [OF assms(1,2) Cons.prems] Cons.IH [of k'] scan_keys_Cons [OF Cons.prems]
    unfolding ScanLock_loop.simps [of maxTS "iter_of (concat (map (view S) (k # k' # ks)))"]
    by (auto simp: lock_info_def split: option.splits)
qed

lemma resolveOne_conc:
  "resolveOne D b l k c = b @ map conc (if c > 0 then lock_acts D k l c else rollback_own k (l_startTS l))"
  by (simp add: resolveOne_def commitLock_def lock_acts_def committed_value_def rollbackLock_def rollback_own_def
      rollbackRecord_def)

lemma Resolve_loop_spec:
  assumes "finite_store S" "store_ok S" "scan_keys S (k # ks)"
  shows "Resolve_loop D decide (iter_of (concat (map (view S) (k # ks)))) k b =
    Inr (b @ map conc (concat (map (resolve_acts D S decide) (k # ks))))"
  using assms(3)
proof (induction ks arbitrary: k b)
  case Nil
  show ?case using scan_step(2,3) [OF assms(1,2) Nil] no_pairs [of S k "[]"]
    unfolding Resolve_loop.simps [of D decide "iter_of (concat (map (view S) [k]))"]
    by (auto simp: resolve_acts_def resolveOne_conc Valid_def split: option.splits)
next
  case (Cons k' ks)
  have v: "Valid (iter_of (concat (map (view S) (k # k' # ks))))"
    using view_first [of k' S] assms(1) scan_keys_Cons [OF Cons.prems] by (auto simp: Valid_def finite_store_def)
  show ?case using v scan_step(2,3) [OF assms(1,2) Cons.prems] Cons.IH [of k'] scan_keys_Cons [OF Cons.prems]
    unfolding Resolve_loop.simps [of D decide "iter_of (concat (map (view S) (k # k' # ks)))"]
    by (auto simp: resolve_acts_def resolveOne_conc split: option.splits)
qed

lemma empty_loops:
  "Scan_loop ol ts limit (iter_of []) k acc = acc"
  "ScanLock_loop maxTS (iter_of []) k locks' = Inr locks'"
  "Resolve_loop D decide (iter_of []) k b = Inr b"
  "GC_loop sp (iter_of []) k b = Inr b"
  by (simp_all add: Scan_loop.simps ScanLock_loop.simps Resolve_loop.simps GC_loop.simps Valid_def getValue_def
      lockDecoder_Decode_def iter_Error_def getValue_loop.simps skipDecoder_Decode_def skipDecoder_loop.simps)

section \<open>Garbage collection\<close>

text \<open>The versions of a key, newest first, that are collected.\<close>

fun gc_dead :: "u64 \<Rightarrow> bool \<Rightarrow> mvccValue list \<Rightarrow> mvccValue list" where
  "gc_dead sp keep [] = []"
| "gc_dead sp keep (w # ws) =
     (if commitTS w > sp then gc_dead sp keep ws
      else if valueType w = typePut \<or> valueType w = typeDelete then
        (if \<not> keep \<or> valueType w = typeDelete then [w] else []) @ gc_dead sp False ws
      else w # gc_dead sp keep ws)"

definition gc_acts :: "store \<Rightarrow> u64 \<Rightarrow> bytes \<Rightarrow> mvcc_err + action list" where
  "gc_acts S sp k =
     (case locks S k of
        Some l \<Rightarrow> if l_startTS l \<le> sp then Inl (ErrGCLock k (l_startTS l) sp)
                  else Inr (map (\<lambda>w. AErase k (commitTS w)) (gc_dead sp True (versions S k)))
      | None \<Rightarrow> Inr (map (\<lambda>w. AErase k (commitTS w)) (gc_dead sp True (versions S k))))"

lemma GC_versions_view:
  assumes "\<forall>w \<in> set ws. value_ok w \<and> commitTS w \<noteq> lockVer" "foreign k R"
  shows "GC_versions sp k (iter_of (vpairs k ws @ R)) keep b =
    Inr (case R of [] \<Rightarrow> k | (x, _) # _ \<Rightarrow> fst (projr (mvccDecode x)), iter_of R,
         b @ map (\<lambda>w. BDelete (mvccEncode k (commitTS w))) (gc_dead sp keep ws))"
  using assms(1)
proof (induction ws arbitrary: keep b)
  case Nil
  then show ?case using assms(2) valueDecoder_Nil [OF assms(2)]
    unfolding GC_versions.simps [of sp k "iter_of (vpairs k [] @ R)"]
    by (cases R) (auto simp: foreign_def vpairs_def Valid_def iter_Key_def)
next
  case (Cons w ws)
  then have "value_ok w" "commitTS w \<noteq> lockVer" by simp_all
  then show ?case using Cons
    unfolding GC_versions.simps [of sp k "iter_of (vpairs k (w # ws) @ R)"] valueDecoder_Cons [OF \<open>value_ok w\<close> \<open>commitTS w \<noteq> lockVer\<close>]
    by simp
qed

lemma GC_loop_spec:
  assumes "finite_store S" "store_ok S" "scan_keys S (k # ks)"
  shows "GC_loop sp (iter_of (concat (map (view S) (k # ks)))) k b =
    map_sum id (\<lambda>as. b @ map conc as) (all_acts (gc_acts S sp) (k # ks))"
  using assms(3)
proof (induction ks arbitrary: k b)
  case Nil
  have ws: "\<forall>w \<in> set (versions S k). value_ok w \<and> commitTS w \<noteq> lockVer"
    using value_keys [OF assms(2)] assms(1) by (auto simp: finite_store_def)
  have e: "versions S k = [] \<and> locks S k = None" if "view S k = []" using that by (auto simp: view_def vpairs_def split: option.splits)
  show ?case using scan_step(2) [OF assms(1,2) Nil] GC_versions_view [OF ws, of k "[]" sp True b] e
    unfolding GC_loop.simps [of sp "iter_of (concat (map (view S) [k]))"]
    by (auto simp: gc_acts_def Valid_def foreign_def empty_loops comp_def split: option.splits)
next
  case (Cons k' ks)
  have ws: "\<forall>w \<in> set (versions S k). value_ok w \<and> commitTS w \<noteq> lockVer"
    using value_keys [OF assms(2)] assms(1) by (auto simp: finite_store_def)
  obtain v y xs where v: "view S k' = (mvccEncode k' v, y) # xs"
    using view_first [of k' S] assms(1) scan_keys_Cons [OF Cons.prems] by (auto simp: finite_store_def)
  show ?case
    using v scan_step(2,4) [OF assms(1,2) Cons.prems] Cons.IH [of k'] scan_keys_Cons [OF Cons.prems]
      GC_versions_view [OF ws, of k "concat (map (view S) (k' # ks))" sp True b]
    unfolding GC_loop.simps [of sp "iter_of (concat (map (view S) (k # k' # ks)))"]
    by (auto simp: gc_acts_def Valid_def comp_def split: option.splits sum.splits)
qed

section \<open>Operations on ranges\<close>

text \<open>\<open>DeleteRange\<close> removes the locks and versions of all keys in a half-open range.\<close>

definition drop_range :: "bytes \<Rightarrow> bytes \<Rightarrow> store \<Rightarrow> store" where
  "drop_range a b S =
     \<lparr>locks = (\<lambda>k. if a \<le> k \<and> k < b then None else locks S k),
      writes = (\<lambda>k. if a \<le> k \<and> k < b then Map.empty else writes S k)\<rparr>"

lemma bytes_range: "EncodeBytes [] a \<le> mvccEncode k v \<and> mvccEncode k v < EncodeBytes [] b \<longleftrightarrow> a \<le> k \<and> k < b"
proof -
  obtain y where y: "mvccEncode k v = EncodeBytes [] k @ y"
    by (simp add: mvccEncode_def EncodeUintDesc_def)
  have "EncodeBytes [] k @ y < EncodeBytes [] c @ [] \<longleftrightarrow> k < c" for c
    using cmp_bytes.enc_less_iff [of k y c "[]"] by auto
  then show ?thesis unfolding y by (auto simp: not_less [symmetric])
qed

lemma apply_deletes: "apply_batch (map BDelete xs) m x = (if x \<in> set xs then None else m x)"
  by (induction xs arbitrary: m) auto

lemma rep_drop_range:
  assumes "rep S m" "\<And>x. m' x = (if EncodeBytes [] a \<le> x \<and> x < EncodeBytes [] b then None else m x)"
  shows "rep (drop_range a b S) m'"
  using assms(1) rep_key [OF assms(1)]
  by (auto simp: rep_def store_ok_def drop_range_def assms(2) bytes_range split: if_splits)

lemma resolve_acts_ok:
  assumes "store_ok S" "\<And>l. locks S k = Some l \<Longrightarrow> l_startTS l \<noteq> lockVer" "\<And>ts. decide ts \<noteq> Some lockVer"
  shows "list_all action_ok (resolve_acts D S decide k)"
proof (cases "locks S k")
  case (Some l)
  have "c \<noteq> lockVer" if "decide (l_startTS l) = Some c" for c using assms(3) that by metis
  then show ?thesis using Some assms(2) lock_acts_ok [OF store_okD(1) [OF assms(1) Some]]
    by (auto simp: resolve_acts_def rollback_own_ok split: option.split)
qed (simp add: resolve_acts_def)

lemma gc_dead_subset: "set (gc_dead sp keep ws) \<subseteq> set ws"
  by (induction ws arbitrary: keep) auto

lemma gc_acts_ok:
  assumes "store_ok S" "finite (dom (writes S k))" "gc_acts S sp k = Inr as"
  shows "list_all action_ok as"
proof -
  have "commitTS w \<noteq> lockVer" if "w \<in> set (gc_dead sp True (versions S k))" for w
    using that value_keys [OF assms(1,2)] gc_dead_subset by blast
  then show ?thesis using assms(3) by (auto simp: gc_acts_def list_all_iff split: option.splits if_splits)
qed

lemma all_acts_filter:
  "(\<And>k. k \<notin> keys S \<Longrightarrow> f k = Inr []) \<Longrightarrow> all_acts f (filter (\<lambda>k. k \<in> keys S) ks) = all_acts f ks"
  by (induction ks) (auto split: sum.split)

lemma gc_acts_Nil: "k \<notin> keys S \<Longrightarrow> gc_acts S sp k = Inr []"
  by (auto simp: gc_acts_def keys_def versions_def split: option.splits)

context leveldb
begin

lemma Scan_spec:
  assumes "rep S (contents db)"
  shows "Scan D db a b limit ts = Inr (take (nat limit) (concat (map (pair_of (Op_Lock D) S ts) (range_keys S a b))))"
  using assms
proof (cases rule: newScanIterator_spec [of S db a b])
  case (keys k ks)
  have e: "concat (map (pair_of (Op_Lock D) S ts) (k # ks)) = concat (map (pair_of (Op_Lock D) S ts) (range_keys S a b))"
    unfolding keys(3) [symmetric] by (rule concat_in_keys [symmetric]) (rule pair_of_Nil)
  show ?thesis
    unfolding Scan_def keys(1) prod.case sum.case
      Scan_loop_spec [OF rep_finite_store [OF assms] rep_ok [OF assms] keys(2)] e by simp
next
  case (none k)
  then show ?thesis by (simp add: Scan_def empty_loops)
qed

lemma ScanLock_spec:
  assumes "rep S (contents db)"
  shows "ScanLock D db a b maxTS = Inr (concat (map (lock_info S maxTS) (range_keys S a b)))"
  using assms
proof (cases rule: newScanIterator_spec [of S db a b])
  case (keys k ks)
  have e: "concat (map (lock_info S maxTS) (k # ks)) = concat (map (lock_info S maxTS) (range_keys S a b))"
    unfolding keys(3) [symmetric] by (rule concat_in_keys [symmetric]) (rule lock_info_Nil)
  show ?thesis
    unfolding ScanLock_def keys(1) prod.case sum.case
      ScanLock_loop_spec [OF rep_finite_store [OF assms] rep_ok [OF assms] keys(2)] e by simp
next
  case (none k)
  then show ?thesis by (simp add: ScanLock_def empty_loops)
qed

lemma BatchResolveLock_spec:
  assumes "rep S (contents db)" "\<And>k l. locks S k = Some l \<Longrightarrow> l_startTS l \<noteq> lockVer" "\<And>ts. infos ts \<noteq> Some lockVer"
  shows "\<exists>db'. BatchResolveLock D db a b infos = (None, db') \<and>
    rep (acts (concat (map (resolve_acts D S infos) (range_keys S a b))) S) (contents db')"
proof -
  let ?as = "concat (map (resolve_acts D S infos) (range_keys S a b))"
  have "list_all action_ok ?as"
    using resolve_acts_ok [OF rep_ok [OF assms(1)] assms(2,3)] by (fastforce simp: list_all_iff)
  then obtain db' where w: "write_batch D db (map conc ?as) = (None, db')" "rep (acts ?as S) (contents db')"
    using write_acts [OF assms(1)] by metis
  from assms(1) show ?thesis
  proof (cases rule: newScanIterator_spec [of S db a b])
    case (keys k ks)
    have e: "concat (map (resolve_acts D S infos) (k # ks)) = ?as"
      unfolding keys(3) [symmetric] by (rule concat_in_keys [symmetric]) (rule resolve_acts_Nil)
    show ?thesis
      unfolding BatchResolveLock_def keys(1) prod.case sum.case
        Resolve_loop_spec [OF rep_finite_store [OF assms(1)] rep_ok [OF assms(1)] keys(2)] e
      using w by simp
  next
    case (none k)
    then show ?thesis using w by (simp add: BatchResolveLock_def empty_loops)
  qed
qed

lemma ResolveLock_batch:
  "ResolveLock D db a b ts c = BatchResolveLock D db a b [ts \<mapsto> c]"
proof -
  have "(\<lambda>x. if x = ts then Some c else None) = [ts \<mapsto> c]" by auto
  show ?thesis unfolding ResolveLock_def BatchResolveLock_def \<open>_ = _\<close> ..
qed

lemma GC_spec:
  assumes "rep S (contents db)"
  shows "case all_acts (gc_acts S sp) (range_keys S a b) of
      Inl e \<Rightarrow> GC D db a b sp = (Some e, db)
    | Inr as \<Rightarrow> \<exists>db'. GC D db a b sp = (None, db') \<and> rep (acts as S) (contents db')"
proof -
  have w: "\<exists>db'. write_batch D db (map conc as) = (None, db') \<and> rep (acts as S) (contents db')"
    if "all_acts (gc_acts S sp) (range_keys S a b) = Inr as" for as
  proof -
    have "list_all action_ok as"
      using all_acts_ok [OF that] gc_acts_ok [OF rep_ok [OF assms]] rep_finite_store [OF assms]
      by (auto simp: finite_store_def)
    then show ?thesis using write_acts [OF assms] by metis
  qed
  from assms show ?thesis
  proof (cases rule: newScanIterator_spec [of S db a b])
    case (keys k ks)
    have e: "all_acts (gc_acts S sp) (k # ks) = all_acts (gc_acts S sp) (range_keys S a b)"
      unfolding keys(3) [symmetric] by (rule all_acts_filter [symmetric]) (rule gc_acts_Nil)
    show ?thesis
      unfolding GC_def keys(1) prod.case sum.case
        GC_loop_spec [OF rep_finite_store [OF assms] rep_ok [OF assms] keys(2)] e
      using w by (auto split: sum.split)
  next
    case (none k)
    then show ?thesis using w by (auto simp: GC_def empty_loops)
  qed
qed

lemma DeleteRange_spec:
  assumes "rep S (contents db)"
  shows "\<exists>db'. DeleteRange D db a b = (None, db') \<and> rep (drop_range a b S) (contents db')"
proof -
  let ?xs = "fst (NewIterator D db (EncodeBytes [] a) (Some (EncodeBytes [] b)))"
  obtain db' where w: "Write D db (map (BDelete \<circ> fst) ?xs) = Inr db'"
    "contents db' = apply_batch (map BDelete (map fst ?xs)) (contents db)"
    using write_applies [of db "map (BDelete \<circ> fst) ?xs"] by auto
  have "contents db' x = (if EncodeBytes [] a \<le> x \<and> x < EncodeBytes [] b then None else contents db x)" for x
  proof -
    have "x \<in> set (map fst ?xs) \<longleftrightarrow> contents db x \<noteq> None \<and> EncodeBytes [] a \<le> x \<and> x < EncodeBytes [] b"
      using iter_pairs [of db "EncodeBytes [] a" "Some (EncodeBytes [] b)"] by force
    then show ?thesis unfolding w(2) apply_deletes by auto
  qed
  then show ?thesis using w(1) rep_drop_range [OF assms] by (auto simp: DeleteRange_def doRawDeleteRange_def write_batch_def)
qed

end

end
