(* ===== verification/Mvcc_Txn.thy ===== *)
theory Mvcc_Txn
  imports Mvcc_Range
begin

text \<open>
  The store as a state machine.  A run is a sequence of requests; each request keeps the transaction
  invariant of every key: versions are stamped consistently, a transaction has one outcome on a key,
  committed versions do not overlap, and a lock is newer than what is committed.
\<close>

section \<open>Actions key by key\<close>

fun akey :: "action \<Rightarrow> bytes" where
  "akey (ALock k l) = k" | "akey (AUnlock k) = k" | "akey (AWrite k w) = k" | "akey (AErase k v) = k"

lemma act_other: "akey a \<noteq> k \<Longrightarrow> locks (act a S) k = locks S k \<and> writes (act a S) k = writes S k"
  by (cases a) auto

lemma acts_other:
  "\<forall>a \<in> set as. akey a \<noteq> k \<Longrightarrow> locks (acts as S) k = locks S k \<and> writes (acts as S) k = writes S k"
  by (induction as arbitrary: S) (auto simp: act_other)

lemma act_local:
  "locks S k = locks S' k \<Longrightarrow> writes S k = writes S' k \<Longrightarrow> akey a = k \<Longrightarrow>
     locks (act a S) k = locks (act a S') k \<and> writes (act a S) k = writes (act a S') k"
  by (cases a) auto

lemma acts_local:
  "locks S k = locks S' k \<Longrightarrow> writes S k = writes S' k \<Longrightarrow> \<forall>a \<in> set as. akey a = k \<Longrightarrow>
     locks (acts as S) k = locks (acts as S') k \<and> writes (acts as S) k = writes (acts as S') k"
proof (induction as arbitrary: S S')
  case (Cons a as)
  have "locks (act a S) k = locks (act a S') k" "writes (act a S) k = writes (act a S') k"
    using act_local [OF Cons.prems(1,2)] Cons.prems(3) by auto
  from Cons.IH [OF this] Cons.prems(3) show ?case by simp
qed simp

text \<open>A batch made of one group per key acts on every key as the group of that key, however often
  the key occurs.\<close>

definition key_group :: "bytes \<Rightarrow> action list \<Rightarrow> bool" where
  "key_group k as = ((\<forall>a \<in> set as. akey a = k) \<and> (\<forall>S. acts as (acts as S) = acts as S))"

lemma acts_groups:
  assumes "\<And>k. key_group k (g k)"
  shows "locks (acts (concat (map g ks)) S) k = (if k \<in> set ks then locks (acts (g k) S) k else locks S k) \<and>
    writes (acts (concat (map g ks)) S) k = (if k \<in> set ks then writes (acts (g k) S) k else writes S k)"
proof (induction ks arbitrary: S)
  case (Cons j ks)
  have g: "\<forall>a \<in> set (g k). akey a = k" "\<forall>a \<in> set (g j). akey a = j" "acts (g k) (acts (g k) S) = acts (g k) S"
    using assms by (auto simp: key_group_def)
  show ?case
  proof (cases "j = k")
    case True
    then show ?thesis using Cons.IH [of "acts (g k) S"] g(3) by simp
  next
    case False
    have o: "locks (acts (g j) S) k = locks S k \<and> writes (acts (g j) S) k = writes S k"
      using acts_other [of "g j" k S] g(2) False by auto
    show ?thesis using Cons.IH [of "acts (g j) S"] acts_local [of "acts (g j) S" k S "g k"] o g(1) False by simp
  qed
qed simp

lemma acts_erase:
  "acts (map (AErase k) vs) S = S\<lparr>writes := (writes S)(k := (writes S k) |` (- set vs))\<rparr>"
proof (induction vs arbitrary: S)
  case (Cons v vs)
  show ?case unfolding list.map acts_simps Cons
    by (rule store.equality) (auto simp: fun_eq_iff restrict_map_def)
qed (simp add: restrict_map_def)

lemma key_groups [simp]:
  "key_group k []" "key_group k (lock_acts D k l c)" "key_group k (rollback_own k ts)"
  "key_group k [AWrite k w]" "key_group k (map (AErase k) vs)"
proof -
  show "key_group k (map (AErase k) vs)"
    unfolding key_group_def acts_erase by auto
qed (auto simp: key_group_def lock_acts_def rollback_own_def)

text \<open>The same for operations that may fail on a key.\<close>

definition acts_of :: "(bytes \<Rightarrow> mvcc_err + action list) \<Rightarrow> bytes \<Rightarrow> action list" where
  "acts_of f k = (case f k of Inl _ \<Rightarrow> [] | Inr as \<Rightarrow> as)"

lemma all_acts_of: "all_acts f ks = Inr as \<longleftrightarrow> as = concat (map (acts_of f) ks) \<and> (\<forall>k \<in> set ks. \<exists>bs. f k = Inr bs)"
  by (induction ks arbitrary: as) (auto simp: acts_of_def split: sum.splits)

lemma key_group_ops [simp]:
  "key_group k (acts_of (commit_acts D S ts c) k)"
  "key_group k (acts_of (rollback_acts S ts) k)"
  "key_group k (acts_of (gc_acts S sp) k)"
  "key_group k (resolve_acts D S decide k)"
proof -
  show "key_group k (acts_of (gc_acts S sp) k)"
    using key_groups(5) [of k "map commitTS ws" for ws]
    by (auto simp: acts_of_def gc_acts_def comp_def split: option.splits)
qed (auto simp: acts_of_def commit_acts_def rollback_acts_def resolve_acts_def rollback_own_def [symmetric]
    split: option.split)

lemma all_acts_groups:
  assumes "all_acts f ks = Inr as" "\<And>k. key_group k (acts_of f k)"
  shows "locks (acts as S) k = (if k \<in> set ks then locks (acts (acts_of f k) S) k else locks S k)"
    and "writes (acts as S) k = (if k \<in> set ks then writes (acts (acts_of f k) S) k else writes S k)"
  using acts_groups [of "acts_of f", OF assms(2)] assms(1) by (auto simp: all_acts_of)

section \<open>Requests\<close>

text \<open>The requests that change the store, and what serving one does to the database and to the
  abstract store.\<close>

datatype request =
    ReqPrewrite "Mutation list" bytes u64 u64
  | ReqCommit "bytes list" u64 u64
  | ReqRollback "bytes list" u64
  | ReqCleanup bytes u64 u64
  | ReqCheckTxnStatus bytes u64 u64
  | ReqTxnHeartBeat bytes u64 u64
  | ReqResolveLock bytes bytes u64 u64
  | ReqBatchResolveLock bytes bytes "u64 \<rightharpoonup> u64"
  | ReqGC bytes bytes u64
  | ReqDeleteRange bytes bytes

fun serve :: "'db deps \<Rightarrow> request \<Rightarrow> 'db \<Rightarrow> 'db" where
  "serve D (ReqPrewrite ms prim ts ttl') db = snd (Prewrite D db ms prim ts ttl')"
| "serve D (ReqCommit ks ts c) db = snd (Commit D db ks ts c)"
| "serve D (ReqRollback ks ts) db = snd (Rollback D db ks ts)"
| "serve D (ReqCleanup k ts cur) db = snd (Cleanup D db k ts cur)"
| "serve D (ReqCheckTxnStatus k ts cur) db = snd (CheckTxnStatus D db k ts cur)"
| "serve D (ReqTxnHeartBeat k ts adv) db = snd (TxnHeartBeat D db k ts adv)"
| "serve D (ReqResolveLock a b ts c) db = snd (ResolveLock D db a b ts c)"
| "serve D (ReqBatchResolveLock a b infos) db = snd (BatchResolveLock D db a b infos)"
| "serve D (ReqGC a b sp) db = snd (GC D db a b sp)"
| "serve D (ReqDeleteRange a b) db = snd (DeleteRange D db a b)"

definition try_acts :: "mvcc_err + action list \<Rightarrow> store \<Rightarrow> store" where
  "try_acts r S = (case r of Inl _ \<Rightarrow> S | Inr as \<Rightarrow> acts as S)"

fun spec_serve :: "'db deps \<Rightarrow> request \<Rightarrow> store \<Rightarrow> store" where
  "spec_serve D (ReqPrewrite ms prim ts ttl') S =
     (if \<forall>m \<in> set ms. prewrite_err S (m_key m) ts = None then acts (prewrite_acts ms ts prim ttl') S else S)"
| "spec_serve D (ReqCommit ks ts c) S = try_acts (all_acts (commit_acts D S ts c) ks) S"
| "spec_serve D (ReqRollback ks ts) S = try_acts (all_acts (rollback_acts S ts) ks) S"
| "spec_serve D (ReqCleanup k ts cur) S = acts (snd (cleanup_result S k ts cur)) S"
| "spec_serve D (ReqCheckTxnStatus k ts cur) S = acts (snd (status_result S k ts cur)) S"
| "spec_serve D (ReqTxnHeartBeat k ts adv) S = acts (snd (heartbeat_result S k ts adv)) S"
| "spec_serve D (ReqResolveLock a b ts c) S = acts (concat (map (resolve_acts D S [ts \<mapsto> c]) (range_keys S a b))) S"
| "spec_serve D (ReqBatchResolveLock a b infos) S = acts (concat (map (resolve_acts D S infos) (range_keys S a b))) S"
| "spec_serve D (ReqGC a b sp) S = try_acts (all_acts (gc_acts S sp) (range_keys S a b)) S"
| "spec_serve D (ReqDeleteRange a b) S = drop_range a b S"

text \<open>
  What a client owes the store.  Timestamps come from the oracle, which never issues one twice:
  \<open>st\<close> tells the timestamps issued to start a transaction from those issued to commit one.  A commit
  timestamp is larger than the start timestamp, none is the reserved version, and slices are no
  longer than the store can read back.
\<close>

definition commit_ok :: "(u64 \<Rightarrow> bool) \<Rightarrow> u64 \<Rightarrow> u64 \<Rightarrow> bool" where
  "commit_ok st ts c = (ts < c \<and> \<not> st c \<and> c \<noteq> lockVer)"

definition start_ok :: "(u64 \<Rightarrow> bool) \<Rightarrow> u64 \<Rightarrow> bool" where
  "start_ok st ts = (st ts \<and> ts \<noteq> lockVer)"

fun request_ok :: "(u64 \<Rightarrow> bool) \<Rightarrow> request \<Rightarrow> bool" where
  "request_ok st (ReqPrewrite ms prim ts ttl') = (start_ok st ts \<and> mutations_ok ms prim)"
| "request_ok st (ReqCommit ks ts c) = commit_ok st ts c"
| "request_ok st (ReqRollback ks ts) = start_ok st ts"
| "request_ok st (ReqCleanup k ts cur) = start_ok st ts"
| "request_ok st (ReqCheckTxnStatus k ts cur) = start_ok st ts"
| "request_ok st (ReqTxnHeartBeat k ts adv) = True"
| "request_ok st (ReqResolveLock a b ts c) = (c = 0 \<or> commit_ok st ts c)"
| "request_ok st (ReqBatchResolveLock a b infos) = (\<forall>ts c. infos ts = Some c \<longrightarrow> c = 0 \<or> commit_ok st ts c)"
| "request_ok st (ReqGC a b sp) = True"
| "request_ok st (ReqDeleteRange a b) = True"

inductive mvcc_run :: "'db deps \<Rightarrow> (u64 \<Rightarrow> bool) \<Rightarrow> 'db \<Rightarrow> request list \<Rightarrow> 'db \<Rightarrow> bool" for D st db where
  run_nil: "mvcc_run D st db [] db"
| run_snoc: "mvcc_run D st db rs db' \<Longrightarrow> request_ok st r \<Longrightarrow> mvcc_run D st db (rs @ [r]) (serve D r db')"

section \<open>The invariant of a key\<close>

definition stamped :: "(u64 \<Rightarrow> bool) \<Rightarrow> (u64 \<rightharpoonup> mvccValue) \<Rightarrow> bool" where
  "stamped st m = (\<forall>c w. m c = Some w \<longrightarrow> st (v_startTS w) \<and> valueType w \<in> {typePut, typeDelete, typeRollback} \<and>
     (if valueType w = typeRollback then v_startTS w = c else v_startTS w < c \<and> \<not> st c))"

definition serial :: "(u64 \<rightharpoonup> mvccValue) \<Rightarrow> bool" where
  "serial m = (\<forall>c d w x. m c = Some w \<longrightarrow> m d = Some x \<longrightarrow> valueType w \<noteq> typeRollback \<longrightarrow>
     valueType x \<noteq> typeRollback \<longrightarrow> c < d \<longrightarrow> c < v_startTS x)"

definition one_outcome :: "(u64 \<rightharpoonup> mvccValue) \<Rightarrow> bool" where
  "one_outcome m = (\<forall>c d w x. m c = Some w \<longrightarrow> m d = Some x \<longrightarrow> v_startTS w = v_startTS x \<longrightarrow> c = d)"

definition lock_fresh :: "(u64 \<Rightarrow> bool) \<Rightarrow> mvccLock option \<Rightarrow> (u64 \<rightharpoonup> mvccValue) \<Rightarrow> bool" where
  "lock_fresh st lk m = (\<forall>l. lk = Some l \<longrightarrow> start_ok st (l_startTS l) \<and>
     (\<forall>c w. m c = Some w \<longrightarrow> v_startTS w \<noteq> l_startTS l \<and> (valueType w \<noteq> typeRollback \<longrightarrow> c < l_startTS l)))"

definition key_inv :: "(u64 \<Rightarrow> bool) \<Rightarrow> mvccLock option \<Rightarrow> (u64 \<rightharpoonup> mvccValue) \<Rightarrow> bool" where
  "key_inv st lk m = (stamped st m \<and> serial m \<and> one_outcome m \<and> lock_fresh st lk m)"

definition txn_inv :: "(u64 \<Rightarrow> bool) \<Rightarrow> store \<Rightarrow> bool" where
  "txn_inv st S = (\<forall>k. key_inv st (locks S k) (writes S k))"

lemmas key_inv_defs = key_inv_def stamped_def serial_def one_outcome_def lock_fresh_def

lemma key_inv_empty [simp]: "key_inv st None Map.empty"
  by (simp add: key_inv_defs)

lemma key_inv_unlock: "key_inv st lk m \<Longrightarrow> key_inv st None m"
  by (simp add: key_inv_def lock_fresh_def)

lemma key_inv_restrict:
  assumes "key_inv st lk m"
  shows "key_inv st lk (m |` A)"
proof -
  have sub: "m c = Some w" if "(m |` A) c = Some w" for c w using that by (auto simp: restrict_map_def split: if_splits)
  have inv: "stamped st m" "serial m" "one_outcome m" "lock_fresh st lk m" using assms by (simp_all add: key_inv_def)
  have "stamped st (m |` A)" using inv(1) sub unfolding stamped_def by blast
  moreover have "serial (m |` A)" using inv(2) sub unfolding serial_def by blast
  moreover have "one_outcome (m |` A)" using inv(3) sub unfolding one_outcome_def by blast
  moreover have "lock_fresh st lk (m |` A)" using inv(4) sub unfolding lock_fresh_def by blast
  ultimately show ?thesis by (simp add: key_inv_def)
qed

lemma key_inv_commit:
  assumes "key_inv st (Some l) m" "commit_ok st (l_startTS l) c"
  shows "key_inv st None (m(c \<mapsto> committed_value D l c))"
proof -
  let ?v = "committed_value D l c"
  have l: "st (l_startTS l)" "l_startTS l < c" "\<not> st c" using assms by (auto simp: key_inv_def lock_fresh_def start_ok_def commit_ok_def)
  have m: "v_startTS w \<noteq> l_startTS l \<and> (valueType w \<noteq> typeRollback \<longrightarrow> d < l_startTS l)" if "m d = Some w" for d w
    using assms(1) that by (simp add: key_inv_def lock_fresh_def)
  have "stamped st (m(c \<mapsto> ?v))" using assms(1) l by (auto simp: key_inv_def stamped_def)
  moreover have "serial (m(c \<mapsto> ?v))"
    unfolding serial_def
  proof (intro allI impI)
    fix a d w x
    assume h: "(m(c \<mapsto> ?v)) a = Some w" "(m(c \<mapsto> ?v)) d = Some x" "valueType w \<noteq> typeRollback"
      "valueType x \<noteq> typeRollback" "a < d"
    have old: "serial m" using assms(1) by (simp add: key_inv_def)
    show "a < v_startTS x"
    proof (cases "a = c")
      case True
      then have "d < l_startTS l" using h m [of d x] by (auto split: if_splits)
      then show ?thesis using True h(5) l(2) by order
    next
      case False
      then show ?thesis using h m [of a w] old by (cases "d = c") (auto simp: serial_def)
    qed
  qed
  moreover have "one_outcome (m(c \<mapsto> ?v))"
    unfolding one_outcome_def
  proof (intro allI impI)
    fix a d w x
    assume h: "(m(c \<mapsto> ?v)) a = Some w" "(m(c \<mapsto> ?v)) d = Some x" "v_startTS w = v_startTS x"
    have old: "one_outcome m" using assms(1) by (simp add: key_inv_def)
    show "a = d" using h old m [of a w] m [of d x] by (cases "a = c"; cases "d = c") (auto simp: one_outcome_def)
  qed
  ultimately show ?thesis by (simp add: key_inv_def lock_fresh_def)
qed

lemma key_inv_rollback:
  assumes "key_inv st lk m" "start_ok st ts" "\<And>c w. m c = Some w \<Longrightarrow> v_startTS w \<noteq> ts"
    and "\<And>l. lk = Some l \<Longrightarrow> l_startTS l \<noteq> ts"
  shows "key_inv st lk (m(ts \<mapsto> rollbackRecord ts))"
proof -
  have "stamped st (m(ts \<mapsto> rollbackRecord ts))"
    using assms(1,2) by (auto simp: key_inv_def stamped_def start_ok_def)
  moreover have "serial (m(ts \<mapsto> rollbackRecord ts))"
    using assms(1) unfolding key_inv_def serial_def by auto
  moreover have "one_outcome (m(ts \<mapsto> rollbackRecord ts))"
    using assms(1,3) unfolding key_inv_def one_outcome_def by (auto split: if_splits)
  moreover have "lock_fresh st lk (m(ts \<mapsto> rollbackRecord ts))"
    using assms(1,4) unfolding key_inv_def lock_fresh_def by auto
  ultimately show ?thesis by (simp add: key_inv_def)
qed

lemma key_inv_rollback_own:
  assumes "key_inv st (Some l) m"
  shows "key_inv st None (m(l_startTS l \<mapsto> rollbackRecord (l_startTS l)))"
  using assms by (intro key_inv_rollback) (auto simp: key_inv_def lock_fresh_def)

lemma key_inv_lock:
  assumes "key_inv st lk m" "start_ok st ts" "l_startTS l = ts"
    and "(\<exists>l'. lk = Some l' \<and> l_startTS l' = ts) \<or> (\<forall>c \<in> dom m. c < ts)"
  shows "key_inv st (Some l) m"
  using assms(4)
proof (elim disjE exE conjE)
  assume d: "\<forall>c \<in> dom m. c < ts"
  have "v_startTS w \<noteq> ts" if "m c = Some w" for c w
  proof -
    have "c < ts" using d that by auto
    moreover have "v_startTS w \<le> c"
      using assms(1) that unfolding key_inv_def stamped_def by (metis order.refl less_imp_le)
    ultimately show ?thesis by auto
  qed
  then show ?thesis using assms(1-3) d by (auto simp: key_inv_def lock_fresh_def)
qed (use assms in \<open>auto simp: key_inv_def lock_fresh_def\<close>)

section \<open>Requests preserve the invariant\<close>

lemma versions_startTS:
  assumes "finite (dom (writes S k))" "txn_record S k ts = None" "writes S k c = Some w"
  shows "v_startTS w \<noteq> ts"
  using assms(2,3) versions_set [OF assms(1)] by (auto simp: txn_record_def find_None ran_def)

lemma newest_max:
  assumes "store_ok S" "finite (dom (writes S k))" "c \<in> dom (writes S k)"
  shows "c \<le> commitTS (newest S k)"
proof -
  obtain w where w: "writes S k c = Some w" using assms(3) by auto
  then have "w \<in> set (versions S k)" using versions_set [OF assms(2)] by (auto simp: ran_def)
  moreover have "commitTS w = c" using store_okD(3) [OF assms(1) w] .
  ultimately show ?thesis using versions_sorted [OF assms(1,2)] by (cases "versions S k") (auto simp: newest_def)
qed

lemma newest_version:
  assumes "finite (dom (writes S k))" "store_ok S"
  shows "newest S k = zeroValue \<and> writes S k = Map.empty \<or> writes S k (commitTS (newest S k)) = Some (newest S k)"
proof (cases "versions S k")
  case Nil
  then have "ran (writes S k) = {}" using versions_set [OF assms(1)] by simp
  then have "writes S k = Map.empty" by (auto simp: ran_def fun_eq_iff) (metis option.exhaust)
  then show ?thesis using Nil by (simp add: newest_def)
next
  case (Cons w ws)
  then have "w \<in> ran (writes S k)" using versions_set [OF assms(1)] by auto
  then show ?thesis using Cons store_okD(3) [OF assms(2)] by (auto simp: newest_def ran_def)
qed

lemma prewrite_err_None:
  assumes "store_ok S" "finite (dom (writes S k))"
  shows "prewrite_err S k ts = None \<longleftrightarrow>
    owns_lock S k ts \<or> locks S k = None \<and> 0 < ts \<and> (\<forall>c \<in> dom (writes S k). c < ts)"
proof -
  have "commitTS (newest S k) < ts \<longleftrightarrow> 0 < ts \<and> (\<forall>c \<in> dom (writes S k). c < ts)"
  proof
    assume lt: "commitTS (newest S k) < ts"
    then have "\<forall>c \<in> dom (writes S k). c < ts" using newest_max [OF assms] by fastforce
    moreover have "0 < ts" using lt by (metis word_gt_0 word_not_simps(1))
    ultimately show "0 < ts \<and> (\<forall>c \<in> dom (writes S k). c < ts)" by simp
  next
    assume "0 < ts \<and> (\<forall>c \<in> dom (writes S k). c < ts)"
    then show "commitTS (newest S k) < ts" using newest_version [OF assms(2,1)] by (auto simp: zeroValue_def)
  qed
  then show ?thesis by (auto simp: prewrite_err_def owns_lock_def split: option.split)
qed

lemma prewrite_acts_writes [simp]: "writes (acts (prewrite_acts ms ts prim ttl') S) = writes S"
  by (induction ms arbitrary: S) (simp_all add: prewrite_acts_def)

lemma prewrite_acts_locks:
  "(\<exists>m \<in> set ms. m_key m = k \<and> locks (acts (prewrite_acts ms ts prim ttl') S) k = Some (lock_of m ts prim ttl')) \<or>
   k \<notin> m_key ` set ms \<and> locks (acts (prewrite_acts ms ts prim ttl') S) k = locks S k"
proof (induction ms arbitrary: S)
  case (Cons m ms)
  from Cons [of "act (ALock (m_key m) (lock_of m ts prim ttl')) S"] show ?case
    by (auto simp: prewrite_acts_def)
qed (simp add: prewrite_acts_def)

lemma lock_acts_at:
  "locks (acts (lock_acts D k l c) S) k = None"
  "writes (acts (lock_acts D k l c) S) k =
     (if l_op l \<noteq> Op_Lock D then (writes S k)(c \<mapsto> committed_value D l c) else writes S k)"
  by (simp_all add: lock_acts_def)

lemma rollback_own_at:
  "locks (acts (rollback_own k ts) S) k = None"
  "writes (acts (rollback_own k ts) S) k = (writes S k)(ts \<mapsto> rollbackRecord ts)"
  by (simp_all add: rollback_own_def)

lemma rollback_own_other:
  "j \<noteq> k \<Longrightarrow> locks (acts (rollback_own k ts) S) j = locks S j \<and> writes (acts (rollback_own k ts) S) j = writes S j"
  by (simp add: rollback_own_def)

lemma txn_invD: "txn_inv st S \<Longrightarrow> key_inv st (locks S k) (writes S k)"
  by (simp add: txn_inv_def)

text \<open>What the groups of a key do to the invariant of the key.\<close>

lemma inv_prewrite:
  assumes "txn_inv st S" "store_ok S" "finite_store S" "start_ok st ts" "\<forall>m \<in> set ms. prewrite_err S (m_key m) ts = None"
  shows "txn_inv st (acts (prewrite_acts ms ts prim ttl') S)"
  unfolding txn_inv_def
proof
  fix k
  let ?S = "acts (prewrite_acts ms ts prim ttl') S"
  have k: "key_inv st (locks S k) (writes S k)" and fk: "finite (dom (writes S k))"
    using assms(1,3) by (auto simp: txn_inv_def finite_store_def)
  from prewrite_acts_locks [of ms k ts prim ttl' S] show "key_inv st (locks ?S k) (writes ?S k)"
  proof
    assume "\<exists>m \<in> set ms. m_key m = k \<and> locks ?S k = Some (lock_of m ts prim ttl')"
    then obtain m where m: "m \<in> set ms" "m_key m = k" "locks ?S k = Some (lock_of m ts prim ttl')" by blast
    have p: "prewrite_err S k ts = None" using assms(5) m by auto
    have "(\<exists>l. locks S k = Some l \<and> l_startTS l = ts) \<or> (\<forall>c \<in> dom (writes S k). c < ts)"
      using p newest_max [OF assms(2) fk]
      by (fastforce simp: prewrite_err_def split: option.splits if_splits)
    from key_inv_lock [OF k assms(4) _ this, of "lock_of m ts prim ttl'"] show ?thesis
      using m(3) by (simp add: lock_of_def)
  qed (use k in simp)
qed

lemma inv_commit_key:
  assumes "key_inv st (locks S k) (writes S k)" "commit_ok st ts c"
  shows "key_inv st (locks (acts (acts_of (commit_acts D S ts c) k) S) k) (writes (acts (acts_of (commit_acts D S ts c) k) S) k)"
proof (cases "owns_lock S k ts")
  case True
  then obtain l where l: "locks S k = Some l" "l_startTS l = ts" by (auto simp: owns_lock_def split: option.splits)
  then show ?thesis using True assms key_inv_commit [of st l "writes S k" c D] key_inv_unlock
    by (auto simp: acts_of_def commit_acts_def lock_acts_at)
next
  case False
  then show ?thesis using assms by (auto simp: acts_of_def commit_acts_def split: option.split)
qed

lemma inv_rollback_key:
  assumes "key_inv st (locks S k) (writes S k)" "start_ok st ts" "finite (dom (writes S k))"
  shows "key_inv st (locks (acts (acts_of (rollback_acts S ts) k) S) k) (writes (acts (acts_of (rollback_acts S ts) k) S) k)"
proof (cases "owns_lock S k ts")
  case True
  then obtain l where l: "locks S k = Some l" "l_startTS l = ts" by (auto simp: owns_lock_def split: option.splits)
  then show ?thesis using True assms(1) key_inv_rollback_own [of st l "writes S k"]
    by (simp add: acts_of_def rollback_acts_def)
next
  case False
  then have o: "\<And>l. locks S k = Some l \<Longrightarrow> l_startTS l \<noteq> ts" by (auto simp: owns_lock_def)
  show ?thesis
  proof (cases "txn_record S k ts")
    case None
    then show ?thesis
      using False key_inv_rollback [OF assms(1,2) versions_startTS [OF assms(3) None] o]
      by (simp add: acts_of_def rollback_acts_def)
  next
    case (Some w)
    then show ?thesis using False assms(1) by (simp add: acts_of_def rollback_acts_def)
  qed
qed

lemma inv_rollback_own:
  assumes "txn_inv st S" "owns_lock S k ts"
  shows "txn_inv st (acts (rollback_own k ts) S)"
  unfolding txn_inv_def
proof
  fix j
  obtain l where l: "locks S k = Some l" "l_startTS l = ts"
    using assms(2) by (auto simp: owns_lock_def split: option.splits)
  have inv: "key_inv st (locks S i) (writes S i)" for i using assms(1) by (simp add: txn_inv_def)
  show "key_inv st (locks (acts (rollback_own k ts) S) j) (writes (acts (rollback_own k ts) S) j)"
    using key_inv_rollback_own [of st l "writes S k"] inv [of k] inv [of j] l rollback_own_other [of j k ts S]
    by (cases "j = k") (auto simp: rollback_own_at)
qed

lemma inv_resolve_key:
  assumes "key_inv st (locks S k) (writes S k)" "\<And>ts c. decide ts = Some c \<Longrightarrow> c = 0 \<or> commit_ok st ts c"
  shows "key_inv st (locks (acts (resolve_acts D S decide k) S) k) (writes (acts (resolve_acts D S decide k) S) k)"
proof (cases "locks S k")
  case None
  then show ?thesis using assms(1) by (simp add: resolve_acts_def)
next
  case (Some l)
  show ?thesis
  proof (cases "decide (l_startTS l)")
    case None
    then show ?thesis using Some assms(1) by (simp add: resolve_acts_def)
  next
    case (Some c)
    then have c: "c = 0 \<or> commit_ok st (l_startTS l) c" using assms(2) by blast
    have i: "key_inv st (Some l) (writes S k)" using assms(1) \<open>locks S k = Some l\<close> by simp
    show ?thesis
    proof (cases "c > 0")
      case True
      then show ?thesis using Some \<open>locks S k = Some l\<close> c key_inv_commit [OF i, of c D] key_inv_unlock [OF i]
        by (auto simp: resolve_acts_def lock_acts_at)
    next
      case False
      then show ?thesis using Some \<open>locks S k = Some l\<close> key_inv_rollback_own [OF i]
        by (simp add: resolve_acts_def rollback_own_at)
    qed
  qed
qed

lemma gc_acts_erase:
  "\<exists>vs. acts_of (gc_acts S sp) k = map (AErase k) vs"
proof -
  let ?ws = "gc_dead sp True (versions S k)"
  have "map (\<lambda>w. AErase k (commitTS w)) ?ws = map (AErase k) (map commitTS ?ws)" by (simp add: comp_def)
  then have "acts_of (gc_acts S sp) k \<in> {map (AErase k) (map commitTS ?ws), map (AErase k) []}"
    by (auto simp: acts_of_def gc_acts_def split: option.split)
  then show ?thesis by blast
qed

lemma gc_key:
  "\<exists>A. writes (acts (acts_of (gc_acts S sp) k) S) k = writes S k |` A \<and> locks (acts (acts_of (gc_acts S sp) k) S) k = locks S k"
proof -
  obtain vs where "acts_of (gc_acts S sp) k = map (AErase k) vs" using gc_acts_erase by blast
  then show ?thesis by (intro exI [of _ "- set vs"]) (simp add: acts_erase)
qed

lemma inv_all_acts:
  assumes "txn_inv st S" "\<And>k. key_group k (acts_of f k)"
    and "\<And>k. key_inv st (locks (acts (acts_of f k) S) k) (writes (acts (acts_of f k) S) k)"
  shows "txn_inv st (try_acts (all_acts f ks) S)"
proof (cases "all_acts f ks")
  case (Inr as)
  show ?thesis using assms(1,3) unfolding txn_inv_def Inr try_acts_def sum.case
    by (simp add: all_acts_groups [OF Inr assms(2)])
qed (use assms(1) in \<open>simp add: try_acts_def\<close>)

lemma inv_resolve:
  assumes "txn_inv st S" "\<And>ts c. decide ts = Some c \<Longrightarrow> c = 0 \<or> commit_ok st ts c"
  shows "txn_inv st (acts (concat (map (resolve_acts D S decide) ks)) S)"
  using acts_groups [of "resolve_acts D S decide" ks S] assms(1) inv_resolve_key [of st S _ decide D, OF _ assms(2)]
  by (auto simp: txn_inv_def)

lemma spec_serve_inv:
  assumes "txn_inv st S" "store_ok S" "finite_store S" "request_ok st r"
  shows "txn_inv st (spec_serve D r S)"
proof (cases r)
  case (ReqPrewrite ms prim ts ttl')
  then show ?thesis using assms inv_prewrite [OF assms(1-3)] by simp
next
  case (ReqCommit ks ts c)
  then have "commit_ok st ts c" using assms(4) by simp
  then show ?thesis unfolding ReqCommit spec_serve.simps
    by (intro inv_all_acts inv_commit_key key_group_ops assms(1) txn_invD)
next
  case (ReqRollback ks ts)
  then have "start_ok st ts" using assms(4) by simp
  moreover have "finite (dom (writes S k))" for k using assms(3) by (simp add: finite_store_def)
  ultimately show ?thesis unfolding ReqRollback spec_serve.simps
    by (intro inv_all_acts inv_rollback_key key_group_ops assms(1) txn_invD)
next
  case (ReqCleanup k ts cur)
  then show ?thesis using assms inv_rollback_own by (auto simp: cleanup_result_def)
next
  case (ReqCheckTxnStatus k ts cur)
  then show ?thesis using assms inv_rollback_own by (auto simp: status_result_def)
next
  case (ReqTxnHeartBeat k ts adv)
  then show ?thesis using assms(1)
    by (auto simp: heartbeat_result_def Let_def owns_lock_def txn_inv_def key_inv_def lock_fresh_def split: option.splits)
next
  case (ReqResolveLock a b ts c)
  then show ?thesis using assms by (auto intro!: inv_resolve split: if_splits)
next
  case (ReqBatchResolveLock a b infos)
  then show ?thesis using assms by (auto intro!: inv_resolve)
next
  case (ReqGC a b sp)
  have "key_inv st (locks (acts (acts_of (gc_acts S sp) k) S) k) (writes (acts (acts_of (gc_acts S sp) k) S) k)" for k
    using gc_key [of S sp k] assms(1) key_inv_restrict [of st "locks S k" "writes S k"] by (auto simp: txn_inv_def)
  then show ?thesis unfolding ReqGC spec_serve.simps by (intro inv_all_acts key_group_ops assms(1))
next
  case (ReqDeleteRange a b)
  then show ?thesis using assms(1) by (auto simp: txn_inv_def drop_range_def)
qed

end
