(* ===== verification/Mvcc_Snapshot.thy ===== *)
theory Mvcc_Snapshot
  imports Mvcc_Txn
begin

text \<open>
  What requests do to snapshots: commits add to later snapshots only, rollbacks and garbage collection
  leave them alone; transactions are atomic, aborted ones stay aborted, resolved locks are gone.
\<close>

section \<open>Requests and snapshots\<close>

lemma snapshot_eqI:
  assumes "\<And>v w. v \<le> t \<Longrightarrow> valueType w \<noteq> typeRollback \<Longrightarrow> writes S k v = Some w \<longleftrightarrow> writes S' k v = Some w"
  shows "snapshot S k t = snapshot S' k t"
proof -
  have c: "committed S k t = committed S' k t" using assms by (auto simp: committed_def)
  have "writes S k (Max (committed S k t)) = writes S' k (Max (committed S k t))" if "committed S k t \<noteq> {}"
  proof -
    have "Max (committed S k t) \<in> committed S k t" using that by simp
    then obtain w where "Max (committed S k t) \<le> t" "writes S k (Max (committed S k t)) = Some w" "valueType w \<noteq> typeRollback"
      unfolding committed_def by blast
    then show ?thesis using assms by metis
  qed
  then show ?thesis unfolding snapshot_def c [symmetric] by simp
qed

lemma snapshot_cong: "writes S k = writes S' k \<Longrightarrow> snapshot S k t = snapshot S' k t"
  by (rule snapshot_eqI) simp

text \<open>Committing a lock adds its value on top of everything committed before.\<close>

lemma snapshot_commit:
  assumes "key_inv st (Some l) (writes S k)" "commit_ok st (l_startTS l) c"
    and "writes S' k = (writes S k)(c \<mapsto> committed_value D l c)"
  shows "snapshot S' k t =
    (if c \<le> t then (if l_op l = Op_Put D then Some (l_value l) else None) else snapshot S k t)"
proof (cases "c \<le> t")
  case True
  have "v \<le> c" if "v \<in> committed S' k t" for v
  proof (cases "v = c")
    case False
    then have "v < l_startTS l" using that assms(1,3) by (auto simp: committed_def key_inv_def lock_fresh_def)
    then show ?thesis using assms(2) by (auto simp: commit_ok_def)
  qed simp
  moreover have "c \<in> committed S' k t" using True assms(3) by (simp add: committed_def)
  ultimately have "Max (committed S' k t) = c" "committed S' k t \<noteq> {}" by (auto intro: Max_eqI)
  then show ?thesis using True assms(3)
    by (simp add: snapshot_def committed_value_def typePut_def typeDelete_def)
next
  case False
  then show ?thesis using assms(3) by (auto intro!: snapshot_eqI split: if_splits)
qed

lemma snapshot_rollback:
  assumes "stamped st (writes S k)" "st ts" "writes S' k = (writes S k)(ts \<mapsto> rollbackRecord ts)"
  shows "snapshot S' k t = snapshot S k t"
proof (rule snapshot_eqI)
  fix v and w :: mvccValue assume w: "valueType w \<noteq> typeRollback"
  then have "writes S k ts \<noteq> Some w" using assms(1,2) by (auto simp: stamped_def)
  then show "writes S' k v = Some w \<longleftrightarrow> writes S k v = Some w" using assms(3) w by auto
qed

section \<open>Garbage collection and snapshots\<close>

abbreviation is_data :: "mvccValue \<Rightarrow> bool" where
  "is_data w \<equiv> valueType w = typePut \<or> valueType w = typeDelete"

lemma gc_dead_iff:
  assumes "sorted_wrt (\<lambda>a b. commitTS b < commitTS a) ws"
  shows "w \<in> set (gc_dead sp keep ws) \<longleftrightarrow> w \<in> set ws \<and> commitTS w \<le> sp \<and>
    (\<not> is_data w \<or> valueType w = typeDelete \<or> \<not> keep \<or>
     (\<exists>x \<in> set ws. is_data x \<and> commitTS x \<le> sp \<and> commitTS w < commitTS x))"
  using assms
proof (induction ws arbitrary: keep)
  case (Cons v ws)
  then have IH: "w \<in> set (gc_dead sp keep ws) \<longleftrightarrow> w \<in> set ws \<and> commitTS w \<le> sp \<and>
    (\<not> is_data w \<or> valueType w = typeDelete \<or> \<not> keep \<or>
     (\<exists>x \<in> set ws. is_data x \<and> commitTS x \<le> sp \<and> commitTS w < commitTS x))" for keep
    by simp
  have v: "commitTS x < commitTS v" if "x \<in> set ws" for x using Cons.prems that by simp
  have irr: "w = v \<Longrightarrow> w \<notin> set ws" using v by blast
  show ?case
  proof (cases "sp < commitTS v")
    case True
    then show ?thesis using irr by (auto simp: IH)
  next
    case False
    then show ?thesis
      by (cases "is_data v") (use irr v [of w] in \<open>auto simp: IH dest: v\<close>)
  qed
qed simp

text \<open>When the version a reader sees is collected, it is a delete and everything below it goes too.\<close>

lemma gc_dead_max:
  assumes inv: "key_inv st lk (writes S k)" and ok: "store_ok S" and fin: "finite (dom (writes S k))" and sp: "sp \<le> t"
    and M: "committed S k t \<noteq> {}" "Max (committed S k t) \<in> commitTS ` set (gc_dead sp True (versions S k))"
  shows "valueType (the (writes S k (Max (committed S k t)))) = typeDelete"
    and "committed S k t \<subseteq> commitTS ` set (gc_dead sp True (versions S k))"
proof -
  let ?C = "committed S k t" and ?dead = "set (gc_dead sp True (versions S k))"
  let ?M = "Max ?C"
  have val: "w \<in> set (versions S k)" "commitTS w = v" if "writes S k v = Some w" for v w
    using that versions_set [OF fin] store_okD(3) [OF ok] by (auto simp: ran_def)
  have inv_val: "writes S k (commitTS w) = Some w" if "w \<in> set (versions S k)" for w
    using that versions_set [OF fin] store_okD(3) [OF ok] by (force simp: ran_def)
  have data: "is_data w \<longleftrightarrow> valueType w \<noteq> typeRollback" if "writes S k v = Some w" for v w
    using that inv by (auto simp: key_inv_def stamped_def typePut_def typeDelete_def typeRollback_def)
  note dead = gc_dead_iff [OF versions_sorted [OF ok fin], of _ sp True]
  have "?M \<in> ?C" using M(1) by simp
  then obtain w where w: "writes S k ?M = Some w" "valueType w \<noteq> typeRollback" unfolding committed_def by blast
  obtain w' where w': "w' \<in> ?dead" "commitTS w' = ?M" using M(2) by auto
  have "w' = w" using w' dead [of w'] inv_val [of w'] w(1) by simp
  moreover have "\<not> (is_data x \<and> commitTS x \<le> sp \<and> ?M < commitTS x)" if x: "x \<in> set (versions S k)" for x
  proof
    assume h: "is_data x \<and> commitTS x \<le> sp \<and> ?M < commitTS x"
    then have "commitTS x \<le> t" "valueType x \<noteq> typeRollback" using data [OF inv_val [OF x]] sp by auto
    then have "commitTS x \<in> ?C" unfolding committed_def using inv_val [OF x] by blast
    then have "commitTS x \<le> ?M" by simp
    then show False using h by auto
  qed
  ultimately have del: "valueType w = typeDelete" "?M \<le> sp" using w' dead [of w'] data [OF w(1)] w(2) by auto
  then show "valueType (the (writes S k ?M)) = typeDelete" using w(1) by simp
  show "?C \<subseteq> commitTS ` ?dead"
  proof
    fix v assume v: "v \<in> ?C"
    then obtain x where x: "writes S k v = Some x" "valueType x \<noteq> typeRollback" unfolding committed_def by blast
    have "v \<le> ?M" using v by simp
    moreover have "x = w" if "v = ?M" using that x(1) w(1) by simp
    ultimately have "x \<in> ?dead"
      using dead [of x] val [OF x(1)] val [OF w(1)] data [OF w(1)] w(2) del by (cases "v = ?M") auto
    then show "v \<in> commitTS ` ?dead" using val(2) [OF x(1)] by force
  qed
qed

lemma snapshot_gc:
  assumes "key_inv st lk (writes S k)" "store_ok S" "finite (dom (writes S k))" "sp \<le> t"
    and "writes S' k = writes S k |` (- commitTS ` set (gc_dead sp True (versions S k)))"
  shows "snapshot S' k t = snapshot S k t"
proof (cases "committed S k t = {}")
  let ?C = "committed S k t" and ?dead = "commitTS ` set (gc_dead sp True (versions S k))"
  have C': "committed S' k t = {v \<in> ?C. v \<notin> ?dead}"
    using assms(5) by (auto simp: committed_def restrict_map_def split: if_splits)
  {
    case True
    then show ?thesis using C' by (simp add: snapshot_def)
  next
    case False
    show ?thesis
    proof (cases "Max ?C \<in> ?dead")
      case True
      note d = gc_dead_max [OF assms(1-4) False True]
      then have "committed S' k t = {}" using C' by auto
      then show ?thesis using False d(1) by (simp add: snapshot_def)
    next
      case alive: False
      have "Max ?C \<in> ?C" using False by simp
      then have "Max (committed S' k t) = Max ?C" "committed S' k t \<noteq> {}" using C' alive by (auto intro!: Max_eqI)
      moreover have "writes S' k (Max ?C) = writes S k (Max ?C)" using alive assms(5) by simp
      ultimately show ?thesis using False by (simp add: snapshot_def)
    qed
  }
qed

section \<open>Snapshots over time\<close>

text \<open>Requests that come after a read at \<open>t\<close>: commits get larger timestamps, garbage collection
  stays at or below \<open>t\<close>, and no range is deleted unsafely.\<close>

fun request_after :: "u64 \<Rightarrow> request \<Rightarrow> bool" where
  "request_after t (ReqCommit ks ts c) = (t < c)"
| "request_after t (ReqResolveLock a b ts c) = (c = 0 \<or> t < c)"
| "request_after t (ReqBatchResolveLock a b infos) = (\<forall>ts c. infos ts = Some c \<longrightarrow> c = 0 \<or> t < c)"
| "request_after t (ReqGC a b sp) = (sp \<le> t)"
| "request_after t (ReqDeleteRange a b) = False"
| "request_after t _ = True"

lemma snapshot_unchanged:
  assumes "key_inv st lk (writes S k)" "writes S' k = (writes S k)(c \<mapsto> w)" "t < c \<or> w = rollbackRecord c \<and> st c"
  shows "snapshot S' k t = snapshot S k t"
  using assms(3)
proof
  assume "t < c"
  then show ?thesis using assms(2) by (auto intro!: snapshot_eqI split: if_splits)
next
  assume "w = rollbackRecord c \<and> st c"
  then show ?thesis using assms snapshot_rollback [of st S k c S' t] by (simp add: key_inv_def)
qed

lemma snapshot_commit_key:
  assumes "key_inv st (locks S k) (writes S k)" "t < c"
  shows "snapshot (acts (acts_of (commit_acts D S ts c) k) S) k t = snapshot S k t"
proof -
  have "writes (acts (acts_of (commit_acts D S ts c) k) S) k \<in>
      {writes S k, (writes S k)(c \<mapsto> committed_value D (the (locks S k)) c)}"
    by (auto simp: acts_of_def commit_acts_def lock_acts_at split: option.split)
  then show ?thesis using snapshot_cong snapshot_unchanged [OF assms(1)] assms(2) by blast
qed

lemma snapshot_rollback_key:
  assumes "key_inv st (locks S k) (writes S k)" "st ts"
  shows "snapshot (acts (acts_of (rollback_acts S ts) k) S) k t = snapshot S k t"
proof -
  have "writes (acts (acts_of (rollback_acts S ts) k) S) k \<in> {writes S k, (writes S k)(ts \<mapsto> rollbackRecord ts)}"
    by (auto simp: acts_of_def rollback_acts_def split: option.split)
  then show ?thesis using snapshot_cong snapshot_unchanged [OF assms(1)] assms(2) by blast
qed

lemma snapshot_resolve_key:
  assumes "key_inv st (locks S k) (writes S k)" "\<And>ts c. decide ts = Some c \<Longrightarrow> c = 0 \<or> t < c"
  shows "snapshot (acts (resolve_acts D S decide k) S) k t = snapshot S k t"
proof (cases "locks S k")
  case None
  then show ?thesis by (simp add: resolve_acts_def)
next
  case (Some l)
  have "st (l_startTS l)" using assms(1) Some by (simp add: key_inv_def lock_fresh_def start_ok_def)
  moreover have "writes (acts (resolve_acts D S decide k) S) k \<in>
      {writes S k, (writes S k)(l_startTS l \<mapsto> rollbackRecord (l_startTS l))} \<union>
      {(writes S k)(c \<mapsto> committed_value D l c) | c. t < c}"
    using Some assms(2) by (auto simp: resolve_acts_def lock_acts_at rollback_own_at split: option.split)
  ultimately show ?thesis using snapshot_cong snapshot_unchanged [OF assms(1)] by blast
qed

lemma snapshot_gc_key:
  assumes "key_inv st (locks S k) (writes S k)" "store_ok S" "finite (dom (writes S k))" "sp \<le> t"
  shows "snapshot (acts (acts_of (gc_acts S sp) k) S) k t = snapshot S k t"
proof -
  let ?ws = "gc_dead sp True (versions S k)"
  have "acts (map (\<lambda>w. AErase k (commitTS w)) ?ws) S = acts (map (AErase k) (map commitTS ?ws)) S" by (simp add: comp_def)
  also have "\<dots> = S\<lparr>writes := (writes S)(k := writes S k |` (- set (map commitTS ?ws)))\<rparr>" by (rule acts_erase)
  finally have "writes (acts (acts_of (gc_acts S sp) k) S) k \<in> {writes S k |` (- commitTS ` set ?ws), writes S k}"
    by (auto simp: acts_of_def gc_acts_def split: option.split)
  then show ?thesis using snapshot_gc [OF assms] snapshot_cong by blast
qed

lemma snapshot_all_acts:
  assumes "\<And>k. key_group k (acts_of f k)" "snapshot (acts (acts_of f k) S) k t = snapshot S k t"
  shows "snapshot (try_acts (all_acts f ks) S) k t = snapshot S k t"
proof (cases "all_acts f ks")
  case (Inr as)
  have "writes (acts as S) k = writes S k \<or> writes (acts as S) k = writes (acts (acts_of f k) S) k"
    using all_acts_groups(2) [OF Inr assms(1)] by auto
  then have "snapshot (acts as S) k t = snapshot S k t"
    by (elim disjE) (drule snapshot_cong [where t = t], simp add: assms(2))+
  then show ?thesis by (simp add: Inr try_acts_def)
qed (simp add: try_acts_def)

lemma snapshot_resolve:
  assumes "key_inv st (locks S k) (writes S k)" "\<And>ts c. decide ts = Some c \<Longrightarrow> c = 0 \<or> t < c"
  shows "snapshot (acts (concat (map (resolve_acts D S decide) ks)) S) k t = snapshot S k t"
proof -
  have "writes (acts (concat (map (resolve_acts D S decide) ks)) S) k = writes S k \<or>
      writes (acts (concat (map (resolve_acts D S decide) ks)) S) k = writes (acts (resolve_acts D S decide k) S) k"
    using acts_groups [of "resolve_acts D S decide" ks S k] by auto
  then show ?thesis
    by (elim disjE) (drule snapshot_cong [where t = t], simp add: snapshot_resolve_key [OF assms])+
qed

lemma snapshot_rollback_own:
  assumes "txn_inv st S" "start_ok st ts"
  shows "snapshot (acts (rollback_own j ts) S) k t = snapshot S k t"
proof (cases "k = j")
  case True
  then show ?thesis using snapshot_unchanged [OF txn_invD [OF assms(1)], of "acts (rollback_own j ts) S" k] assms(2)
    by (simp add: rollback_own_at start_ok_def)
next
  case False
  then show ?thesis using rollback_own_other [of k j ts S] by (auto intro: snapshot_cong)
qed

lemma spec_serve_snapshot:
  assumes "txn_inv st S" "store_ok S" "finite_store S" "request_ok st r" "request_after t r"
  shows "snapshot (spec_serve D r S) k t = snapshot S k t"
proof -
  note k = txn_invD [OF assms(1), of k]
  have fk: "finite (dom (writes S k))" using assms(3) by (simp add: finite_store_def)
  show ?thesis
  proof (cases r)
    case (ReqPrewrite ms prim ts ttl')
    then show ?thesis by (auto intro: snapshot_cong)
  next
    case (ReqCommit ks ts c)
    then show ?thesis using snapshot_commit_key [OF k] assms(5) by (auto intro!: snapshot_all_acts)
  next
    case (ReqRollback ks ts)
    then show ?thesis using snapshot_rollback_key [OF k] assms(4) by (auto simp: start_ok_def intro!: snapshot_all_acts)
  next
    case (ReqCleanup j ts cur)
    then show ?thesis using snapshot_rollback_own [OF assms(1)] assms(4) by (simp add: cleanup_result_def)
  next
    case (ReqCheckTxnStatus j ts cur)
    then show ?thesis using snapshot_rollback_own [OF assms(1)] assms(4) by (simp add: status_result_def)
  next
    case (ReqTxnHeartBeat j ts adv)
    then show ?thesis by (auto simp: heartbeat_result_def Let_def intro: snapshot_cong)
  next
    case (ReqResolveLock a b ts c)
    then show ?thesis unfolding ReqResolveLock spec_serve.simps
      by (intro snapshot_resolve [OF k]) (use assms(5) ReqResolveLock in \<open>auto split: if_splits\<close>)
  next
    case (ReqBatchResolveLock a b infos)
    then show ?thesis unfolding ReqBatchResolveLock spec_serve.simps
      by (intro snapshot_resolve [OF k]) (use assms(5) ReqBatchResolveLock in auto)
  next
    case (ReqGC a b sp)
    then show ?thesis using snapshot_gc_key [OF k assms(2) fk] assms(5) by (auto intro!: snapshot_all_acts)
  next
    case (ReqDeleteRange a b)
    then show ?thesis using assms(5) by simp
  qed
qed

section \<open>The store serves the specification\<close>

context leveldb
begin

lemma serve_spec:
  assumes "rep S (contents db)" "txn_inv st S" "request_ok st r"
  shows "rep (spec_serve D r S) (contents (serve D r db))"
proof -
  have l: "\<And>k l. locks S k = Some l \<Longrightarrow> l_startTS l \<noteq> lockVer"
    using assms(2) by (auto simp: txn_inv_def key_inv_def lock_fresh_def start_ok_def)
  have nz: "(0 :: u64) \<noteq> lockVer" by (simp add: lockVer_def)
  show ?thesis
  proof (cases r)
    case (ReqPrewrite ms prim ts ttl')
    then show ?thesis using Prewrite_spec [OF assms(1), of ms prim ts ttl'] assms by (auto split: if_splits)
  next
    case (ReqCommit ks ts c)
    then show ?thesis using Commit_spec [OF assms(1), of c ks ts] assms
      by (auto simp: commit_ok_def try_acts_def split: sum.splits)
  next
    case (ReqRollback ks ts)
    then show ?thesis using Rollback_spec [OF assms(1), of ts ks] assms
      by (auto simp: start_ok_def try_acts_def split: sum.splits)
  next
    case (ReqCleanup k ts cur)
    then show ?thesis using Cleanup_spec [OF assms(1), of ts k cur] assms(3) by (auto simp: start_ok_def)
  next
    case (ReqCheckTxnStatus k ts cur)
    then show ?thesis using CheckTxnStatus_spec [OF assms(1), of ts k cur] assms(3) by (auto simp: start_ok_def)
  next
    case (ReqTxnHeartBeat k ts adv)
    then show ?thesis using TxnHeartBeat_spec [OF assms(1), of k ts adv] by auto
  next
    case (ReqResolveLock a b ts c)
    have d: "[ts \<mapsto> c] x \<noteq> Some lockVer" for x using ReqResolveLock assms(3) nz by (auto simp: commit_ok_def)
    have "\<exists>db'. BatchResolveLock D db a b ([ts \<mapsto> c]) = (None, db') \<and>
        rep (acts (concat (map (resolve_acts D S ([ts \<mapsto> c])) (range_keys S a b))) S) (contents db')"
      by (rule BatchResolveLock_spec [OF assms(1)]) (erule l, rule d)
    then show ?thesis
      unfolding ReqResolveLock serve.simps spec_serve.simps ResolveLock_batch by auto
  next
    case (ReqBatchResolveLock a b infos)
    have d: "infos x \<noteq> Some lockVer" for x using ReqBatchResolveLock assms(3) nz by (auto simp: commit_ok_def)
    have "\<exists>db'. BatchResolveLock D db a b infos = (None, db') \<and>
        rep (acts (concat (map (resolve_acts D S infos) (range_keys S a b))) S) (contents db')"
      by (rule BatchResolveLock_spec [OF assms(1)]) (erule l, rule d)
    then show ?thesis
      unfolding ReqBatchResolveLock serve.simps spec_serve.simps by auto
  next
    case (ReqGC a b sp)
    then show ?thesis using GC_spec [OF assms(1), of a b sp] assms(1) by (auto simp: try_acts_def split: sum.splits)
  next
    case (ReqDeleteRange a b)
    then show ?thesis using DeleteRange_spec [OF assms(1), of a b] by auto
  qed
qed

lemma run_spec:
  assumes "mvcc_run D st db rs db'" "rep S (contents db)" "txn_inv st S"
  shows "rep (fold (spec_serve D) rs S) (contents db') \<and> txn_inv st (fold (spec_serve D) rs S)"
  using assms(1)
proof induction
  case run_nil
  then show ?case using assms(2,3) by simp
next
  case (run_snoc rs db' r)
  then show ?case using serve_spec spec_serve_inv rep_ok rep_finite_store by fastforce
qed

lemma run_snapshot:
  assumes "mvcc_run D st db rs db'" "rep S (contents db)" "txn_inv st S" "\<forall>r \<in> set rs. request_after t r"
  shows "snapshot (fold (spec_serve D) rs S) k t = snapshot S k t"
  using assms(1,4)
proof induction
  case (run_snoc rs db' r)
  then have "rep (fold (spec_serve D) rs S) (contents db')" "txn_inv st (fold (spec_serve D) rs S)"
    using run_spec assms(2,3) by blast+
  then show ?case using run_snoc spec_serve_snapshot [of st "fold (spec_serve D) rs S" r t D k] rep_ok rep_finite_store by auto
qed simp

end

definition empty_store :: store where
  "empty_store = \<lparr>locks = Map.empty, writes = \<lambda>_. Map.empty\<rparr>"

lemma empty_store_simps [simp]: "locks empty_store k = None" "writes empty_store k = Map.empty"
  by (simp_all add: empty_store_def)

lemma txn_inv_empty [simp]: "txn_inv st empty_store"
  by (simp add: txn_inv_def)

lemma rep_empty_map: "rep empty_store Map.empty"
  by (simp add: rep_def store_ok_def)

text \<open>A database in memory with given locks and versions.\<close>

definition mem_of :: "action list \<Rightarrow> memdb" where
  "mem_of as = fold mem_op (map conc as) []"

lemma rep_mem_of: "list_all action_ok as \<Longrightarrow> rep (acts as empty_store) (map_of (mem_of as))"
  using rep_acts [OF rep_empty_map] by (simp add: mem_of_def map_of_mem_batch)

lemma spec_Get_cong:
  assumes "locks S k = locks S' k" "writes S k = writes S' k"
  shows "spec_Get ol S k t = spec_Get ol S' k t"
proof -
  have "snapshot S k = snapshot S' k" using snapshot_cong [OF assms(2)] by blast
  then show ?thesis unfolding spec_Get_def assms(1) by (simp only:)
qed

text \<open>Committing keys that are all locked by the transaction.\<close>

lemma commit_locked:
  assumes "\<forall>k \<in> set ks. \<exists>l. locks S k = Some l \<and> l_startTS l = ts"
  shows "\<exists>as. all_acts (commit_acts D S ts c) ks = Inr as \<and>
    (\<forall>k. k \<notin> set ks \<longrightarrow> locks (acts as S) k = locks S k \<and> writes (acts as S) k = writes S k) \<and>
    (\<forall>k l. k \<in> set ks \<longrightarrow> locks S k = Some l \<longrightarrow> locks (acts as S) k = None \<and>
       writes (acts as S) k = (if l_op l \<noteq> Op_Lock D then (writes S k)(c \<mapsto> committed_value D l c) else writes S k))"
proof -
  have own: "commit_acts D S ts c k = Inr (lock_acts D k (the (locks S k)) c)" if "k \<in> set ks" for k
    using assms that by (auto simp: commit_acts_def owns_lock_def)
  then obtain as where as: "all_acts (commit_acts D S ts c) ks = Inr as"
    using all_acts_of [of "commit_acts D S ts c" ks] by auto
  note groups = all_acts_groups [OF as key_group_ops(1), of S]
  have "locks (acts as S) k = None \<and>
       writes (acts as S) k = (if l_op l \<noteq> Op_Lock D then (writes S k)(c \<mapsto> committed_value D l c) else writes S k)"
    if "k \<in> set ks" "locks S k = Some l" for k l
    using that groups own [of k] by (simp add: acts_of_def lock_acts_at)
  then show ?thesis using as groups by auto
qed

context leveldb
begin

lemma Get_after:
  assumes "rep S (contents db)" "locks S k = None"
  shows "Get D db k t = Inr (snapshot S k t)"
  using Get_spec [OF assms(1)] assms(2) by (simp add: spec_Get_def)

lemma Prewrite_succeeds:
  assumes "rep S (contents db)" "mutations_ok ms prim" "Prewrite D db ms prim ts ttl' = (replicate (length ms) None, db1)"
  shows "\<forall>m \<in> set ms. prewrite_err S (m_key m) ts = None" "rep (acts (prewrite_acts ms ts prim ttl') S) (contents db1)"
proof -
  note p = Prewrite_spec [OF assms(1,2), of ts ttl']
  show none: "\<forall>m \<in> set ms. prewrite_err S (m_key m) ts = None"
    using p assms(3) by (auto simp: prewrite_errs_def list_eq_iff_nth_eq in_set_conv_nth)
  show "rep (acts (prewrite_acts ms ts prim ttl') S) (contents db1)" using p none assms(3) by auto
qed

lemma txn_atomic:
  assumes rep: "rep S (contents db)" and inv: "txn_inv st S" and ok: "start_ok st ts" "commit_ok st ts c" "mutations_ok ms prim"
    and ms: "distinct (map m_key ms)" "\<forall>m \<in> set ms. m_op m \<noteq> Op_Lock D"
    and pre: "Prewrite D db ms prim ts ttl' = (replicate (length ms) None, db1)"
    and com: "Commit D db1 (map m_key ms) ts c = (err, db2)"
  shows "err = None" and "\<And>m. m \<in> set ms \<Longrightarrow> Get D db2 (m_key m) t =
      Inr (if c \<le> t then (if m_op m = Op_Put D then Some (m_value m) else None) else snapshot S (m_key m) t)"
    and "\<And>k. k \<notin> m_key ` set ms \<Longrightarrow> Get D db2 k t = Get D db k t"
proof -
  let ?S1 = "acts (prewrite_acts ms ts prim ttl') S"
  note none = Prewrite_succeeds [OF rep ok(3) pre]
  have inv1: "txn_inv st ?S1" using inv_prewrite [OF inv rep_ok [OF rep] rep_finite_store [OF rep] ok(1) none(1)] .
  have lk: "locks ?S1 (m_key m) = Some (lock_of m ts prim ttl')" if "m \<in> set ms" for m
    using prewrite_acts_locks [of ms "m_key m" ts prim ttl' S] that ms(1) by (auto simp: distinct_map inj_on_def)
  have "\<forall>k \<in> set (map m_key ms). \<exists>l. locks ?S1 k = Some l \<and> l_startTS l = ts" using lk by (auto simp: lock_of_def)
  then obtain as where as: "all_acts (commit_acts D ?S1 ts c) (map m_key ms) = Inr as"
    and other: "\<forall>k. k \<notin> set (map m_key ms) \<longrightarrow> locks (acts as ?S1) k = locks ?S1 k \<and> writes (acts as ?S1) k = writes ?S1 k"
    and own: "\<forall>k l. k \<in> set (map m_key ms) \<longrightarrow> locks ?S1 k = Some l \<longrightarrow> locks (acts as ?S1) k = None \<and>
      writes (acts as ?S1) k = (if l_op l \<noteq> Op_Lock D then (writes ?S1 k)(c \<mapsto> committed_value D l c) else writes ?S1 k)"
    using commit_locked [of "map m_key ms" ?S1 ts D c] by blast
  have "c \<noteq> lockVer" using ok(2) by (simp add: commit_ok_def)
  then have e: "err = None" and rep2: "rep (acts as ?S1) (contents db2)"
    using Commit_spec [OF none(2), of c "map m_key ms" ts] as com by auto
  show "err = None" by (rule e)
  show "Get D db2 (m_key m) t =
      Inr (if c \<le> t then (if m_op m = Op_Put D then Some (m_value m) else None) else snapshot S (m_key m) t)" if m: "m \<in> set ms" for m
  proof -
    let ?l = "lock_of m ts prim ttl'"
    have w: "locks (acts as ?S1) (m_key m) = None" "writes (acts as ?S1) (m_key m) = (writes ?S1 (m_key m))(c \<mapsto> committed_value D ?l c)"
      using own lk [OF m] m ms(2) by (auto simp: lock_of_def)
    have i: "key_inv st (Some ?l) (writes ?S1 (m_key m))" using txn_invD [OF inv1, of "m_key m"] lk [OF m] by simp
    have "snapshot ?S1 (m_key m) t = snapshot S (m_key m) t" by (rule snapshot_cong) simp
    then show ?thesis
      using Get_after [OF rep2 w(1), of t] snapshot_commit [OF i _ w(2), of t] ok(2) by (simp add: lock_of_def)
  qed
  show "Get D db2 k t = Get D db k t" if k: "k \<notin> m_key ` set ms" for k
    unfolding Get_spec [OF rep2] Get_spec [OF rep]
    by (rule spec_Get_cong) (use other k prewrite_acts_locks [of ms k ts prim ttl' S] in auto)
qed

lemma read_repeatable:
  assumes "rep S (contents db)" "txn_inv st S" "mvcc_run D st db rs db'" "\<forall>r \<in> set rs. request_after t r"
    and "t \<noteq> MaxUint64" "Get D db k t = Inr v"
  shows "Get D db' k t = Inr v \<or> (\<exists>l. l_startTS l \<le> t \<and> Get D db' k t = Inl (lockErr l k))"
proof -
  let ?S = "fold (spec_serve D) rs S"
  have rep': "rep ?S (contents db')" using run_spec [OF assms(3,1,2)] by simp
  have s: "snapshot ?S k t = snapshot S k t" using run_snapshot [OF assms(3,1,2,4)] .
  have "v = snapshot S k t" using assms(5,6) unfolding Get_spec [OF assms(1)] spec_Get_def
    by (auto simp: lock_check_def split: option.splits if_splits)
  then show ?thesis unfolding Get_spec [OF rep'] spec_Get_def using s assms(5)
    by (auto simp: lock_check_def split: option.splits) (metis linorder_not_less)
qed

end

section \<open>Aborted transactions\<close>

text \<open>A transaction is aborted on a key when it has left a rollback record there and no lock.\<close>

definition aborted :: "store \<Rightarrow> bytes \<Rightarrow> u64 \<Rightarrow> bool" where
  "aborted S k ts = (\<not> owns_lock S k ts \<and> (\<exists>w. writes S k ts = Some w \<and> valueType w = typeRollback \<and> v_startTS w = ts))"

lemma txn_record_unique:
  assumes "key_inv st lk (writes S k)" "store_ok S" "finite (dom (writes S k))" "writes S k c = Some w" "v_startTS w = ts"
  shows "txn_record S k ts = Some w"
proof (cases "txn_record S k ts")
  case None
  then show ?thesis using versions_startTS [OF assms(3) None assms(4)] assms(5) by simp
next
  case (Some x)
  then have "x \<in> set (versions S k)" "v_startTS x = ts"
    by (auto simp: txn_record_def find_Some_iff)
  then obtain d where "writes S k d = Some x" using versions_set [OF assms(3)] by (auto simp: ran_def)
  then have "d = c" using assms(1,4,5) \<open>v_startTS x = ts\<close> unfolding key_inv_def one_outcome_def by metis
  then show ?thesis using Some assms(4) \<open>writes S k d = Some x\<close> by simp
qed

lemma aborted_record:
  assumes "txn_inv st S" "store_ok S" "finite_store S" "aborted S k ts"
  obtains w where "txn_record S k ts = Some w" "valueType w = typeRollback"
  using assms txn_record_unique [OF txn_invD [OF assms(1)] assms(2), of k ts] by (auto simp: aborted_def finite_store_def)

lemma aborted_rejects:
  assumes "txn_inv st S" "store_ok S" "finite_store S" "aborted S k ts"
  shows "commit_acts D S ts c k = Inl ErrRetryable" "rollback_acts S ts k = Inr []" "prewrite_err S k ts \<noteq> None"
proof -
  obtain w where w: "txn_record S k ts = Some w" "valueType w = typeRollback" using aborted_record [OF assms] .
  have o: "\<not> owns_lock S k ts" "ts \<in> dom (writes S k)" using assms(4) by (auto simp: aborted_def)
  then show "commit_acts D S ts c k = Inl ErrRetryable" "rollback_acts S ts k = Inr []"
    using w by (simp_all add: commit_acts_def rollback_acts_def)
  have "finite (dom (writes S k))" using assms(3) by (simp add: finite_store_def)
  then have "ts \<le> commitTS (newest S k)" using newest_max [OF assms(2) _ o(2)] by simp
  then show "prewrite_err S k ts \<noteq> None" using o(1) by (auto simp: prewrite_err_def owns_lock_def split: option.splits)
qed

lemma rollback_aborts:
  assumes "txn_inv st S" "store_ok S" "finite_store S" "all_acts (rollback_acts S ts) ks = Inr as" "k \<in> set ks"
  shows "aborted (acts as S) k ts"
proof -
  have l: "locks (acts as S) k = locks (acts (acts_of (rollback_acts S ts) k) S) k"
    and w: "writes (acts as S) k = writes (acts (acts_of (rollback_acts S ts) k) S) k"
    using all_acts_groups [OF assms(4) key_group_ops(2), of S k] assms(5) by simp_all
  have ok: "\<exists>bs. rollback_acts S ts k = Inr bs" using assms(4,5) by (auto simp: all_acts_of)
  show ?thesis
  proof (cases "owns_lock S k ts")
    case True
    then show ?thesis using l w by (simp add: aborted_def owns_lock_def acts_of_def rollback_acts_def)
  next
    case False
    show ?thesis
    proof (cases "txn_record S k ts")
      case None
      then show ?thesis using l w False by (simp add: aborted_def owns_lock_def acts_of_def rollback_acts_def)
    next
      case (Some x)
      have "x \<in> set (versions S k)" "v_startTS x = ts" using Some by (auto simp: txn_record_def find_Some_iff)
      moreover have "valueType x = typeRollback"
        using Some ok False by (auto simp: rollback_acts_def split: if_splits)
      ultimately obtain d where x: "v_startTS x = ts" "valueType x = typeRollback" and d: "writes S k d = Some x"
        using versions_set [of S k] assms(3) by (auto simp: finite_store_def ran_def)
      then have "d = ts" using x txn_invD [OF assms(1), of k] by (auto simp: key_inv_def stamped_def)
      then show ?thesis using l w False Some x d by (simp add: aborted_def owns_lock_def acts_of_def rollback_acts_def)
    qed
  qed
qed

lemma rollback_own_aborts: "aborted (acts (rollback_own k ts) S) k ts"
  by (simp add: aborted_def owns_lock_def rollback_own_at)

context leveldb
begin

lemma aborted_operations:
  assumes "rep S (contents db)" "txn_inv st S" "aborted S k ts" "ts \<noteq> lockVer"
  shows "c \<noteq> lockVer \<Longrightarrow> Commit D db [k] ts c = (Some ErrRetryable, db)"
    and "mutations_ok [m] prim \<Longrightarrow> m_key m = k \<Longrightarrow>
      fst (Prewrite D db [m] prim ts ttl') \<noteq> [None] \<and> snd (Prewrite D db [m] prim ts ttl') = db"
    and "fst (Rollback D db [k] ts) = None"
    and "fst (Cleanup D db k ts cur) = None"
    and "fst (CheckTxnStatus D db k ts cur) = Inr (0, 0, Action_NoAction)"
proof -
  note fin = rep_finite_store [OF assms(1)] and ok = rep_ok [OF assms(1)]
  note r = aborted_rejects [OF assms(2) ok fin assms(3)]
  obtain w where w: "txn_record S k ts = Some w" "valueType w = typeRollback" using aborted_record [OF assms(2) ok fin assms(3)] .
  have o: "\<not> owns_lock S k ts" using assms(3) by (simp add: aborted_def)
  show "Commit D db [k] ts c = (Some ErrRetryable, db)" if "c \<noteq> lockVer"
    using Commit_spec [OF assms(1) that, of "[k]" ts] r(1) [of D c] by simp
  show "fst (Prewrite D db [m] prim ts ttl') \<noteq> [None] \<and> snd (Prewrite D db [m] prim ts ttl') = db"
    if "mutations_ok [m] prim" "m_key m = k"
    using Prewrite_spec [OF assms(1) that(1), of ts ttl'] r(3) that(2) by (auto simp: prewrite_errs_def)
  show "fst (Rollback D db [k] ts) = None"
    using Rollback_spec [OF assms(1,4), of "[k]"] r(2) by auto
  show "fst (Cleanup D db k ts cur) = None"
    using Cleanup_spec [OF assms(1,4), of k cur] o w by (auto simp: cleanup_result_def)
  show "fst (CheckTxnStatus D db k ts cur) = Inr (0, 0, Action_NoAction)"
    using CheckTxnStatus_spec [OF assms(1,4), of k cur] o w by (auto simp: status_result_def)
qed

lemma Rollback_aborts:
  assumes "rep S (contents db)" "txn_inv st S" "start_ok st ts" "Rollback D db ks ts = (None, db')" "k \<in> set ks"
  shows "\<exists>S'. rep S' (contents db') \<and> txn_inv st S' \<and> aborted S' k ts"
proof -
  have ts: "ts \<noteq> lockVer" using assms(3) by (simp add: start_ok_def)
  obtain as where as: "all_acts (rollback_acts S ts) ks = Inr as" "rep (acts as S) (contents db')"
    using Rollback_spec [OF assms(1) ts, of ks] assms(4) by (cases "all_acts (rollback_acts S ts) ks") auto
  moreover have "txn_inv st (acts as S)"
    using spec_serve_inv [OF assms(2) rep_ok [OF assms(1)] rep_finite_store [OF assms(1)], of "ReqRollback ks ts" D] assms(3) as(1)
    by (simp add: try_acts_def)
  moreover have "aborted (acts as S) k ts"
    using rollback_aborts [OF assms(2) rep_ok [OF assms(1)] rep_finite_store [OF assms(1)] as(1) assms(5)] .
  ultimately show ?thesis by blast
qed

section \<open>Garbage collection and lock resolution\<close>

lemma GC_reads:
  assumes "rep S (contents db)" "txn_inv st S" "GC D db a b sp = (None, db')" "sp \<le> t"
  shows "Get D db' k t = Get D db k t"
proof -
  note fin = rep_finite_store [OF assms(1)] and ok = rep_ok [OF assms(1)]
  obtain as where as: "all_acts (gc_acts S sp) (range_keys S a b) = Inr as" "rep (acts as S) (contents db')"
    using GC_spec [OF assms(1), of a b sp] assms(3) by (cases "all_acts (gc_acts S sp) (range_keys S a b)") auto
  note g = all_acts_groups [OF as(1) key_group_ops(3), of S k]
  have snap: "snapshot (acts as S) k t' = snapshot S k t'" if "sp \<le> t'" for t'
    using snapshot_all_acts [of "gc_acts S sp" k S t' "range_keys S a b", OF key_group_ops(3)]
      snapshot_gc_key [OF txn_invD [OF assms(2)] ok _ that, of k] fin as(1) by (auto simp: try_acts_def finite_store_def)
  have lk: "locks (acts as S) k = locks S k" using g(1) gc_key [of S sp k] by auto
  show ?thesis
  proof (cases "k \<in> set (range_keys S a b)")
    case True
    have l: "sp < l_startTS l" if "locks S k = Some l" for l
    proof -
      have "\<exists>bs. gc_acts S sp k = Inr bs" using as(1) True by (auto simp: all_acts_of)
      then show ?thesis using that by (auto simp: gc_acts_def split: if_splits)
    qed
    have m: "sp \<le> x - 1" if "sp < x" for x :: u64
    proof -
      have "x \<noteq> 0" using that by auto
      then show ?thesis using that by (simp add: word_less_nat_alt word_le_nat_alt unat_minus_one)
    qed
    show ?thesis unfolding Get_spec [OF as(2)] Get_spec [OF assms(1)] spec_Get_def lk
      using snap assms(4) l m by (auto simp: lock_check_def split: option.split)
  next
    case False
    then show ?thesis unfolding Get_spec [OF as(2)] Get_spec [OF assms(1)] using g lk by (intro spec_Get_cong) auto
  qed
qed

lemma ResolveLock_clears:
  assumes "rep S (contents db)" "txn_inv st S" "c = 0 \<or> commit_ok st ts c" "ResolveLock D db a b ts c = (err, db')"
  shows "err = None" and "\<exists>S'. rep S' (contents db') \<and> (\<forall>k. in_range a b k \<longrightarrow> \<not> owns_lock S' k ts)"
proof -
  have l: "locks S k = Some l \<Longrightarrow> l_startTS l \<noteq> lockVer" for k l
    using assms(2) by (auto simp: txn_inv_def key_inv_def lock_fresh_def start_ok_def)
  have "(0 :: u64) \<noteq> lockVer" by (simp add: lockVer_def)
  then have d: "[ts \<mapsto> c] x \<noteq> Some lockVer" for x using assms(3) by (auto simp: commit_ok_def)
  let ?as = "concat (map (resolve_acts D S [ts \<mapsto> c]) (range_keys S a b))"
  have r: "\<exists>db'. BatchResolveLock D db a b [ts \<mapsto> c] = (None, db') \<and> rep (acts ?as S) (contents db')"
    by (rule BatchResolveLock_spec [OF assms(1)]) (erule l, rule d)
  then show "err = None" using assms(4) by (auto simp: ResolveLock_batch)
  have "\<not> owns_lock (acts ?as S) k ts" if "in_range a b k" for k
  proof (cases "locks S k")
    case None
    then show ?thesis using acts_groups [of "resolve_acts D S [ts \<mapsto> c]", OF key_group_ops(4), of "range_keys S a b" S k]
      by (auto simp: owns_lock_def resolve_acts_def)
  next
    case (Some l)
    then have "k \<in> set (range_keys S a b)"
      using that range_keys_set [OF rep_finite_store [OF assms(1)], of a b] by (auto simp: keys_def)
    then show ?thesis using acts_groups [of "resolve_acts D S [ts \<mapsto> c]", OF key_group_ops(4), of "range_keys S a b" S k] Some
      by (auto simp: owns_lock_def resolve_acts_def lock_acts_at rollback_own_at)
  qed
  then show "\<exists>S'. rep S' (contents db') \<and> (\<forall>k. in_range a b k \<longrightarrow> \<not> owns_lock S' k ts)"
    using r assms(4) by (auto simp: ResolveLock_batch)
qed

end

end
