(* ===== verification/Mvcc_Correct.thy ===== *)
theory Mvcc_Correct
  imports Mvcc_Snapshot
begin

text \<open>
  The correctness properties of the transactional store of \<open>mocktikv\<close>, stated of the operations of
  \<open>mvcc_leveldb.go\<close> over any database that keeps the laws of LevelDB, with witnesses on the database in
  memory.
\<close>

section \<open>A small example\<close>

definition ex_put :: mvccValue where
  "ex_put = \<lparr>valueType = typePut, v_startTS = 3, commitTS = 4, v_value = [9]\<rparr>"

definition ex_mut :: Mutation where
  "ex_mut = \<lparr>m_op = 0, m_key = [1], m_value = [7]\<rparr>"

definition ex_st :: "u64 \<Rightarrow> bool" where
  "ex_st ts = (ts = 3 \<or> ts = 5)"

definition ex_store :: store where "ex_store = acts [AWrite [1] ex_put] empty_store"
definition ex_db :: memdb where "ex_db = mem_of [AWrite [1] ex_put]"

lemma ex_store_simps [simp]:
  "locks ex_store k = None" "writes ex_store k = (if k = [1] then [4 \<mapsto> ex_put] else Map.empty)"
  by (simp_all add: ex_store_def ex_put_def)

lemma lockVer_numeral [simp]: "(3 :: u64) \<noteq> lockVer" "(4 :: u64) \<noteq> lockVer" "(5 :: u64) \<noteq> lockVer" "(6 :: u64) \<noteq> lockVer"
  by (simp_all add: lockVer_def)

lemma ex_rep: "rep ex_store (map_of ex_db)"
  unfolding ex_store_def ex_db_def by (rule rep_mem_of) (simp add: ex_put_def value_ok_def small_def)

lemma ex_inv: "txn_inv ex_st ex_store"
  by (simp add: txn_inv_def key_inv_defs ex_st_def ex_put_def typePut_def typeRollback_def)

lemma ex_versions: "versions ex_store [1] = [ex_put]"
  by (simp add: versions_def)

lemma ex_mutations_ok: "mutations_ok [ex_mut] [1]"
  by (simp add: mutations_ok_def small_def ex_mut_def)

lemma ex_prewrite: "prewrite_errs ex_store [ex_mut] 5 = [None]"
  using ex_versions by (simp add: prewrite_errs_def prewrite_err_def newest_def ex_mut_def ex_put_def)

lemma ex_ts: "start_ok ex_st 5" "commit_ok ex_st 5 6"
  by (simp_all add: start_ok_def commit_ok_def ex_st_def)

lemma mem_leveldb: "leveldb mem_deps map_of"
  by (rule mem.leveldb_axioms)

definition ex_requests :: "request list" where
  "ex_requests = [ReqPrewrite [ex_mut] [1] 3 100, ReqCommit [[1]] 3 4, ReqPrewrite [ex_mut] [1] 5 100, ReqCommit [[1]] 5 6]"

definition ex_version :: "u64 \<Rightarrow> u64 \<Rightarrow> mvccValue" where
  "ex_version s c = \<lparr>valueType = typePut, v_startTS = s, commitTS = c, v_value = [7]\<rparr>"

lemma mvcc_run_fold: "list_all (request_ok st) rs \<Longrightarrow> mvcc_run D st db rs (fold (serve D) rs db)"
proof (induction rs rule: rev_induct)
  case (snoc r rs)
  then show ?case using run_snoc [of D st db rs "fold (serve D) rs db" r] by simp
qed (simp add: run_nil)

lemma ex_run: "mvcc_run mem_deps ex_st [] ex_requests (fold (serve mem_deps) ex_requests [])"
proof (rule mvcc_run_fold)
  have "start_ok ex_st 3" "commit_ok ex_st 3 4" by (simp_all add: start_ok_def commit_ok_def ex_st_def)
  then show "list_all (request_ok ex_st) ex_requests" using ex_ts ex_mutations_ok by (simp add: ex_requests_def)
qed

section \<open>Reads\<close>

text \<open>C5: A point read over the database returns what the snapshot specification says: the lock decides
  first, then the newest version committed at or before the read timestamp counts, rollback records
  aside, and a delete reads as absent.\<close>

theorem Get_refines:
  assumes "leveldb D contents" "rep S (contents db)"
  shows "Get D db k t = spec_Get (Op_Lock D) S k t"
  by (rule leveldb.Get_spec [OF assms])

theorem Get_refines_witness:
  "Get mem_deps ex_db [1] 7 = spec_Get (Op_Lock mem_deps) ex_store [1] 7"
  using Get_refines [OF mem_leveldb ex_rep] by simp

text \<open>C9: A scan returns the first \<open>limit\<close> readable pairs of the keys in its half-open range, in key
  order, each with what a point read of the key returns; keys that read as absent are left out and a
  locked key is reported with its error.\<close>

theorem Scan_refines:
  assumes "leveldb D contents" "rep S (contents db)"
  shows "Scan D db a b limit t = Inr (take (nat limit) (concat (map (\<lambda>k.
      case Get D db k t of
        Inl e \<Rightarrow> [\<lparr>p_key = k, p_value = None, p_err = Some e\<rparr>]
      | Inr None \<Rightarrow> []
      | Inr (Some v) \<Rightarrow> [\<lparr>p_key = k, p_value = Some v, p_err = None\<rparr>])
    (sorted_list_of_set {k \<in> keys S. a \<le> k \<and> (b = [] \<or> k < b)}))))"
  using leveldb.Scan_spec [OF assms] leveldb.Get_spec [OF assms]
  by (simp add: pair_of_def [abs_def] range_keys_def in_range_def)

theorem Scan_refines_witness:
  "Scan mem_deps ex_db [] [] 10 7 = Inr (take (nat 10) (concat (map (\<lambda>k.
      case Get mem_deps ex_db k 7 of
        Inl e \<Rightarrow> [\<lparr>p_key = k, p_value = None, p_err = Some e\<rparr>]
      | Inr None \<Rightarrow> []
      | Inr (Some v) \<Rightarrow> [\<lparr>p_key = k, p_value = Some v, p_err = None\<rparr>])
    (sorted_list_of_set {k \<in> keys ex_store. [] \<le> k \<and> ([] = ([] :: bytes) \<or> k < [])}))))"
  by (rule Scan_refines [OF mem_leveldb ex_rep])

section \<open>Transactions\<close>

text \<open>C2: The store implements the abstract machine: after any sequence of requests from an empty
  database, the database holds exactly the locks and versions the abstract machine has, and every key
  keeps the transaction invariant: versions are stamped by their transactions, no transaction has two
  outcomes on a key, and a lock is newer than every committed version.\<close>

theorem mvcc_refinement:
  assumes "leveldb D contents" "contents db0 = Map.empty" "mvcc_run D st db0 rs db"
  shows "rep (fold (spec_serve D) rs empty_store) (contents db) \<and> txn_inv st (fold (spec_serve D) rs empty_store)"
  using leveldb.run_spec [OF assms(1,3)] rep_empty_map assms(2) by simp

theorem mvcc_refinement_witness:
  "rep (fold (spec_serve mem_deps) ex_requests empty_store) (map_of (fold (serve mem_deps) ex_requests [])) \<and>
   txn_inv ex_st (fold (spec_serve mem_deps) ex_requests empty_store)"
  using mvcc_refinement [OF mem_leveldb _ ex_run] by simp

lemma rep_value:
  assumes "rep S m" "m (mvccEncode k v) = Some (MarshalValue y)" "v \<noteq> lockVer" "value_ok y"
  shows "writes S k v = Some y"
proof (cases "writes S k v")
  case None
  then show ?thesis using rep_write [OF assms(1,3), of k] assms(2) by simp
next
  case (Some z)
  then have "MarshalValue z = MarshalValue y" using rep_write [OF assms(1,3), of k] assms(2) by simp
  moreover have "value_ok z" using store_okD(2) [OF rep_ok [OF assms(1)] Some] .
  ultimately have "z = y" using assms(4) Unmarshal_MarshalValue by (metis sum.inject(2))
  then show ?thesis using Some by simp
qed

text \<open>C3: Writes are never lost: in every reachable state, of two committed versions of a key the
  transaction of the later one started after the earlier one was committed.\<close>

theorem no_lost_update:
  assumes "leveldb D contents" "contents db0 = Map.empty" "mvcc_run D st db0 rs db"
    and "contents db (mvccEncode k c) = Some (MarshalValue w)" "contents db (mvccEncode k d) = Some (MarshalValue x)"
    and "value_ok w" "value_ok x" "valueType w \<noteq> typeRollback" "valueType x \<noteq> typeRollback" "c < d" "d \<noteq> lockVer"
  shows "c < v_startTS x"
proof -
  let ?S = "fold (spec_serve D) rs empty_store"
  have r: "rep ?S (contents db)" "txn_inv st ?S"
    using leveldb.run_spec [OF assms(1,3)] rep_empty_map assms(2) by simp_all
  have "c \<noteq> lockVer" using assms(10) by (metis lockVer_max(2))
  then have "writes ?S k c = Some w" "writes ?S k d = Some x" using rep_value [OF r(1)] assms by blast+
  moreover have "serial (writes ?S k)" using txn_invD [OF r(2), of k] by (simp add: key_inv_def)
  ultimately show ?thesis using assms(8-10) unfolding serial_def by blast
qed


theorem no_lost_update_witness:
  "map_of (fold (serve mem_deps) ex_requests []) (mvccEncode [1] 4) = Some (MarshalValue (ex_version 3 4)) \<and>
   map_of (fold (serve mem_deps) ex_requests []) (mvccEncode [1] 6) = Some (MarshalValue (ex_version 5 6)) \<and>
   4 < v_startTS (ex_version 5 6)"
proof -
  have v: "map_of (fold (serve mem_deps) ex_requests []) (mvccEncode [1] 4) = Some (MarshalValue (ex_version 3 4))"
    "map_of (fold (serve mem_deps) ex_requests []) (mvccEncode [1] 6) = Some (MarshalValue (ex_version 5 6))"
    by code_simp+
  moreover have "4 < v_startTS (ex_version 5 6)"
    by (rule no_lost_update [OF mem_leveldb _ ex_run v])
      (simp_all add: value_ok_def small_def ex_version_def typePut_def typeRollback_def)
  ultimately show ?thesis by simp
qed

text \<open>C1: Transactions are atomic.  When a prewrite reports no error and the transaction's keys are then
  committed, the commit succeeds; from the commit timestamp on every key reads as the transaction
  wrote it, before it every key reads as it did, and no other key is touched.\<close>

theorem transaction_atomic:
  assumes "leveldb D contents" "rep S (contents db)" "txn_inv st S"
    and "start_ok st ts" "commit_ok st ts c" "mutations_ok ms prim"
    and "distinct (map m_key ms)" "\<forall>m \<in> set ms. m_op m \<noteq> Op_Lock D"
    and "Prewrite D db ms prim ts ttl' = (replicate (length ms) None, db1)"
  shows "fst (Commit D db1 (map m_key ms) ts c) = None \<and>
    (\<forall>m \<in> set ms. \<forall>t. Get D (snd (Commit D db1 (map m_key ms) ts c)) (m_key m) t =
       Inr (if c \<le> t then (if m_op m = Op_Put D then Some (m_value m) else None) else snapshot S (m_key m) t)) \<and>
    (\<forall>k. k \<notin> m_key ` set ms \<longrightarrow> (\<forall>t. Get D (snd (Commit D db1 (map m_key ms) ts c)) k t = Get D db k t))"
  using leveldb.txn_atomic [OF assms prod.collapse [symmetric]] by blast

lemma ex_prewrite_ok: "Prewrite mem_deps ex_db [ex_mut] [1] 5 100 = (replicate (length [ex_mut]) None, snd (Prewrite mem_deps ex_db [ex_mut] [1] 5 100))"
  using mem.Prewrite_spec [OF ex_rep ex_mutations_ok, of 5 100] by (auto simp: ex_prewrite)

theorem transaction_atomic_witness:
  "Get mem_deps (snd (Commit mem_deps (snd (Prewrite mem_deps ex_db [ex_mut] [1] 5 100)) [[1]] 5 6)) [1] 6 = Inr (Some [7])"
proof -
  have "distinct (map m_key [ex_mut])" "\<forall>m \<in> set [ex_mut]. m_op m \<noteq> Op_Lock mem_deps"
    by (simp_all add: ex_mut_def mem_deps_def)
  from transaction_atomic [OF mem_leveldb ex_rep ex_inv ex_ts ex_mutations_ok this ex_prewrite_ok]
  have "\<forall>t. Get mem_deps (snd (Commit mem_deps (snd (Prewrite mem_deps ex_db [ex_mut] [1] 5 100)) (map m_key [ex_mut]) 5 6)) (m_key ex_mut) t =
      Inr (if 6 \<le> t then (if m_op ex_mut = Op_Put mem_deps then Some (m_value ex_mut) else None) else snapshot ex_store (m_key ex_mut) t)"
    by (meson list.set_intros(1))
  from spec [OF this, of 6] show ?thesis by (simp add: ex_mut_def mem_deps_def)
qed

text \<open>C7: A prewrite locks all its keys or changes nothing.  It succeeds exactly when every key is
  already locked by the same transaction, or carries no lock and no version, rollback records
  included, that is committed at or after the start timestamp, which must not be zero.\<close>

theorem Prewrite_conflicts:
  assumes "leveldb D contents" "rep S (contents db)" "mutations_ok ms prim"
  shows "((\<forall>e \<in> set (fst (Prewrite D db ms prim ts ttl')). e = None) \<longleftrightarrow>
      (\<forall>m \<in> set ms. owns_lock S (m_key m) ts \<or>
         locks S (m_key m) = None \<and> 0 < ts \<and> (\<forall>c \<in> dom (writes S (m_key m)). c < ts))) \<and>
    ((\<exists>e \<in> set (fst (Prewrite D db ms prim ts ttl')). e \<noteq> None) \<longrightarrow> snd (Prewrite D db ms prim ts ttl') = db) \<and>
    ((\<forall>e \<in> set (fst (Prewrite D db ms prim ts ttl')). e = None) \<longrightarrow>
      rep (acts (prewrite_acts ms ts prim ttl') S) (contents (snd (Prewrite D db ms prim ts ttl'))))"
proof -
  have ok: "store_ok S" and fin: "finite_store S" using rep_ok [OF assms(2)] leveldb.rep_finite_store [OF assms(1,2)] .
  then have none: "prewrite_err S k ts = None \<longleftrightarrow>
      owns_lock S k ts \<or> locks S k = None \<and> 0 < ts \<and> (\<forall>c \<in> dom (writes S k). c < ts)" for k
    by (intro prewrite_err_None) (auto simp: finite_store_def)
  obtain db' where p: "Prewrite D db ms prim ts ttl' = (prewrite_errs S ms ts, db')"
    "if \<forall>m \<in> set ms. prewrite_err S (m_key m) ts = None
     then rep (acts (prewrite_acts ms ts prim ttl') S) (contents db') else db' = db"
    using leveldb.Prewrite_spec [OF assms, of ts ttl'] by blast
  have e: "(\<forall>e \<in> set (prewrite_errs S ms ts). e = None) \<longleftrightarrow> (\<forall>m \<in> set ms. prewrite_err S (m_key m) ts = None)"
    by (auto simp: prewrite_errs_def)
  show ?thesis
  proof (cases "\<forall>m \<in> set ms. prewrite_err S (m_key m) ts = None")
    case True
    then show ?thesis using p e by (simp add: none)
  next
    case False
    moreover have "\<exists>e \<in> set (prewrite_errs S ms ts). e \<noteq> None" using False e by blast
    ultimately show ?thesis using p e none by auto
  qed
qed

theorem Prewrite_conflicts_witness:
  "list_all (\<lambda>e. e = None) (fst (Prewrite mem_deps ex_db [ex_mut] [1] 5 100)) \<and>
   list_ex (\<lambda>e. e \<noteq> None) (fst (Prewrite mem_deps ex_db [ex_mut] [1] 4 100))"
proof -
  note p = Prewrite_conflicts [OF mem_leveldb ex_rep ex_mutations_ok]
  have "m_key ex_mut = [1]" by (simp add: ex_mut_def)
  then show ?thesis using p [of 5 100] p [of 4 100] by (auto simp: owns_lock_def list_all_iff list_ex_iff)
qed

text \<open>C8: A rollback is final.  After a rollback has succeeded, on each of its keys the transaction can
  neither be committed nor prewritten again, rolling it back once more succeeds, and its status is
  reported as rolled back.\<close>

theorem rollback_final:
  assumes "leveldb D contents" "rep S (contents db)" "txn_inv st S" "start_ok st ts"
    and "Rollback D db ks ts = (None, db')" "k \<in> set ks" "c \<noteq> lockVer" "mutations_ok [m] prim" "m_key m = k"
  shows "Commit D db' [k] ts c = (Some ErrRetryable, db') \<and>
    fst (Prewrite D db' [m] prim ts ttl') \<noteq> [None] \<and> snd (Prewrite D db' [m] prim ts ttl') = db' \<and>
    fst (Rollback D db' [k] ts) = None \<and>
    fst (CheckTxnStatus D db' k ts cur) = Inr (0, 0, Action_NoAction)"
proof -
  obtain S' where S': "rep S' (contents db')" "txn_inv st S'" "aborted S' k ts"
    using leveldb.Rollback_aborts [OF assms(1-6)] by blast
  have "ts \<noteq> lockVer" using assms(4) by (simp add: start_ok_def)
  note a = leveldb.aborted_operations [OF assms(1) S' this]
  show ?thesis using a(1) [OF assms(7)] a(2) [OF assms(8,9)] a(3) a(5) by blast
qed

lemma ex_rollback: "Rollback mem_deps ex_db [[1]] 5 = (None, snd (Rollback mem_deps ex_db [[1]] 5))"
proof -
  have "txn_record ex_store [1] 5 = None" using ex_versions by (simp add: txn_record_def ex_put_def)
  then have "all_acts (rollback_acts ex_store 5) [[1]] = Inr [AWrite [1] (rollbackRecord 5)]"
    by (simp add: rollback_acts_def owns_lock_def)
  then show ?thesis using mem.Rollback_spec [OF ex_rep, of 5 "[[1]]"] by auto
qed

theorem rollback_final_witness:
  "Commit mem_deps (snd (Rollback mem_deps ex_db [[1]] 5)) [[1]] 5 6 = (Some ErrRetryable, snd (Rollback mem_deps ex_db [[1]] 5))"
  using rollback_final [OF mem_leveldb ex_rep ex_inv ex_ts(1) ex_rollback, of "[1]" 6 ex_mut "[1]"] ex_mutations_ok
  by (simp add: ex_mut_def)

text \<open>C11: A transaction that outlives its time to live is aborted: when the status check finds its
  primary lock expired it rolls the transaction back, the lock is gone, and from then on a commit of the
  primary fails.\<close>

theorem expired_aborted:
  assumes "leveldb D contents" "rep S (contents db)" "txn_inv st S" "start_ok st ts"
    and "locks S k = Some l" "l_startTS l = ts" "lock_expired l cur" "c \<noteq> lockVer"
  shows "fst (CheckTxnStatus D db k ts cur) = Inr (0, 0, Action_TTLExpireRollback) \<and>
    Commit D (snd (CheckTxnStatus D db k ts cur)) [k] ts c = (Some ErrRetryable, snd (CheckTxnStatus D db k ts cur)) \<and>
    (\<forall>t. Get D (snd (CheckTxnStatus D db k ts cur)) k t = Inr (snapshot S k t))"
proof -
  let ?db = "snd (CheckTxnStatus D db k ts cur)"
  have ts: "ts \<noteq> lockVer" using assms(4) by (simp add: start_ok_def)
  have o: "owns_lock S k ts" using assms(5,6) by (simp add: owns_lock_def)
  have r: "status_result S k ts cur = ((0, 0, Action_TTLExpireRollback), rollback_own k ts)"
    using o assms(5,7) by (simp add: status_result_def)
  have c: "fst (CheckTxnStatus D db k ts cur) = Inr (0, 0, Action_TTLExpireRollback)" "rep (acts (rollback_own k ts) S) (contents ?db)"
    using leveldb.CheckTxnStatus_spec [OF assms(1,2) ts, of k cur] unfolding r by auto
  have inv: "txn_inv st (acts (rollback_own k ts) S)" using inv_rollback_own [OF assms(3) o] .
  note commit = leveldb.aborted_operations(1) [OF assms(1) c(2) inv rollback_own_aborts ts assms(8)]
  have "Get D ?db k t = Inr (snapshot S k t)" for t
    using leveldb.Get_after [OF assms(1) c(2), of k t] snapshot_rollback_own [OF assms(3,4)] by (simp add: rollback_own_at)
  then show ?thesis using c(1) commit by blast
qed

definition ex_lock :: mvccLock where
  "ex_lock = \<lparr>l_startTS = 5, primary = [1], l_value = [7], l_op = 0, ttl = 0, forUpdateTS = 0\<rparr>"

definition ex_locked :: store where "ex_locked = acts [ALock [1] ex_lock] empty_store"
definition ex_locked_db :: memdb where "ex_locked_db = mem_of [ALock [1] ex_lock]"

lemma ex_locked_simps [simp]:
  "locks ex_locked k = (if k = [1] then Some ex_lock else None)" "writes ex_locked k = Map.empty"
  by (simp_all add: ex_locked_def)

lemma ex_locked_rep: "rep ex_locked (map_of ex_locked_db)"
  unfolding ex_locked_def ex_locked_db_def by (rule rep_mem_of) (simp add: ex_lock_def lock_ok_def small_def)

lemma ex_locked_inv: "txn_inv ex_st ex_locked"
  by (simp add: txn_inv_def key_inv_defs ex_st_def ex_lock_def start_ok_def)

theorem expired_aborted_witness:
  "Commit mem_deps (snd (CheckTxnStatus mem_deps ex_locked_db [1] 5 (2 ^ 40))) [[1]] 5 6 =
     (Some ErrRetryable, snd (CheckTxnStatus mem_deps ex_locked_db [1] 5 (2 ^ 40)))"
proof -
  have "lock_expired ex_lock (2 ^ 40)" by code_simp
  then show ?thesis
    using expired_aborted [OF mem_leveldb ex_locked_rep ex_locked_inv ex_ts(1), of "[1]" ex_lock "2 ^ 40" 6]
    by (simp add: ex_lock_def)
qed

text \<open>C4: Reads repeat.  Once a read at a timestamp has returned, no later sequence of requests with larger
  commit timestamps and with garbage collection at or below the timestamp changes what it returns;
  it can only be blocked by a lock of a transaction that started before it.\<close>

theorem repeatable_read:
  assumes "leveldb D contents" "rep S (contents db)" "txn_inv st S"
    and "mvcc_run D st db rs db'" "\<forall>r \<in> set rs. request_after t r" "t \<noteq> MaxUint64" "Get D db k t = Inr v"
  shows "Get D db' k t = Inr v \<or> (\<exists>l. l_startTS l \<le> t \<and> Get D db' k t = Inl (lockErr l k))"
  by (rule leveldb.read_repeatable [OF assms])

theorem repeatable_read_witness:
  "let db' = fold (serve mem_deps) [ReqPrewrite [ex_mut] [1] 5 100, ReqCommit [[1]] 5 6] ex_db in
   Get mem_deps db' [1] 4 = Inr (Some [9]) \<or> (\<exists>l. l_startTS l \<le> 4 \<and> Get mem_deps db' [1] 4 = Inl (lockErr l [1]))"
proof -
  let ?rs = "[ReqPrewrite [ex_mut] [1] 5 100, ReqCommit [[1]] 5 6]"
  have "mvcc_run mem_deps ex_st ex_db ?rs (fold (serve mem_deps) ?rs ex_db)"
    by (rule mvcc_run_fold) (simp add: ex_ts ex_mutations_ok)
  moreover have "Get mem_deps ex_db [1] 4 = Inr (Some [9])"
    using mem.Get_after [OF ex_rep, of "[1]" 4]
    by (simp add: snapshot_def committed_def ex_put_def typePut_def typeRollback_def typeDelete_def cong: conj_cong)
  moreover have "\<forall>r \<in> set ?rs. request_after 4 r" "(4 :: u64) \<noteq> MaxUint64" by simp_all
  ultimately show ?thesis unfolding Let_def using repeatable_read [OF mem_leveldb ex_rep ex_inv] by blast
qed

text \<open>C6: Garbage collection is safe.  It is refused, and changes nothing, exactly when the range has a
  lock that started at or before the safe point; otherwise no read at or after the safe point changes,
  for any key.\<close>

theorem GC_safe:
  assumes "leveldb D contents" "rep S (contents db)" "txn_inv st S"
  shows "(fst (GC D db a b sp) = None \<longleftrightarrow> (\<forall>k l. locks S k = Some l \<and> in_range a b k \<longrightarrow> sp < l_startTS l)) \<and>
    (fst (GC D db a b sp) \<noteq> None \<longrightarrow> snd (GC D db a b sp) = db) \<and>
    (\<forall>k t. sp \<le> t \<longrightarrow> Get D (snd (GC D db a b sp)) k t = Get D db k t)"
proof -
  have fin: "finite_store S" using leveldb.rep_finite_store [OF assms(1,2)] .
  have g: "(\<exists>bs. gc_acts S sp k = Inr bs) \<longleftrightarrow> (\<forall>l. locks S k = Some l \<longrightarrow> sp < l_startTS l)" for k
    by (auto simp: gc_acts_def not_le split: option.split)
  have kin: "locks S k = Some l \<Longrightarrow> k \<in> keys S" for k l by (auto simp: keys_def)
  have "(\<exists>as. all_acts (gc_acts S sp) (range_keys S a b) = Inr as) \<longleftrightarrow>
      (\<forall>k \<in> set (range_keys S a b). \<exists>bs. gc_acts S sp k = Inr bs)" by (simp add: all_acts_of)
  also have "\<dots> \<longleftrightarrow> (\<forall>k l. locks S k = Some l \<and> in_range a b k \<longrightarrow> sp < l_startTS l)"
    unfolding range_keys_set [OF fin] g using kin by blast
  finally have ok: "(\<exists>as. all_acts (gc_acts S sp) (range_keys S a b) = Inr as) \<longleftrightarrow>
      (\<forall>k l. locks S k = Some l \<and> in_range a b k \<longrightarrow> sp < l_startTS l)" .
  note spec = leveldb.GC_spec [OF assms(1,2), of a b sp]
  show ?thesis
  proof (cases "all_acts (gc_acts S sp) (range_keys S a b)")
    case (Inl e)
    then show ?thesis using spec ok by auto
  next
    case (Inr as)
    then have "fst (GC D db a b sp) = None" using spec by auto
    moreover have "Get D (snd (GC D db a b sp)) k t = Get D db k t" if "sp \<le> t" for k t
      using leveldb.GC_reads [OF assms _ that, of a b "snd (GC D db a b sp)" k] \<open>fst (GC D db a b sp) = None\<close>
      by (metis prod.collapse)
    ultimately show ?thesis using ok Inr by blast
  qed
qed

theorem GC_safe_witness:
  "fst (GC mem_deps ex_locked_db [] [] 4) = None \<and> fst (GC mem_deps ex_locked_db [] [] 5) \<noteq> None"
  using GC_safe [OF mem_leveldb ex_locked_rep ex_locked_inv, of "[]" "[]" 4]
    GC_safe [OF mem_leveldb ex_locked_rep ex_locked_inv, of "[]" "[]" 5]
  by (auto simp: in_range_def ex_lock_def)

text \<open>C10: Resolving a transaction over a range succeeds and leaves none of its locks there: a lock scan of
  the range, whatever its timestamp bound, lists no lock of the transaction.\<close>

theorem ResolveLock_complete:
  assumes "leveldb D contents" "rep S (contents db)" "txn_inv st S" "c = 0 \<or> commit_ok st ts c"
  shows "fst (ResolveLock D db a b ts c) = None \<and>
    (\<exists>ls. ScanLock D (snd (ResolveLock D db a b ts c)) a b maxTS = Inr ls \<and> (\<forall>i \<in> set ls. li_version i \<noteq> ts))"
proof -
  note r = leveldb.ResolveLock_clears [OF assms prod.collapse [symmetric]]
  obtain S' where S': "rep S' (contents (snd (ResolveLock D db a b ts c)))" "\<forall>k. in_range a b k \<longrightarrow> \<not> owns_lock S' k ts"
    using r(2) by blast
  have "li_version i \<noteq> ts" if "k \<in> set (range_keys S' a b)" "i \<in> set (lock_info S' maxTS k)" for i k
    using that S'(2) range_keys_set [OF leveldb.rep_finite_store [OF assms(1) S'(1)], of a b]
    by (auto simp: lock_info_def owns_lock_def split: option.splits if_splits)
  then show ?thesis using leveldb.ScanLock_spec [OF assms(1) S'(1), of a b maxTS] r(1) by auto
qed

theorem ResolveLock_complete_witness:
  "fst (ResolveLock mem_deps ex_locked_db [] [] 5 6) = None \<and>
   (\<exists>ls. ScanLock mem_deps (snd (ResolveLock mem_deps ex_locked_db [] [] 5 6)) [] [] 100 = Inr ls \<and> (\<forall>i \<in> set ls. li_version i \<noteq> 5))"
  using ResolveLock_complete [OF mem_leveldb ex_locked_rep ex_locked_inv, of 6 5] ex_ts by simp

end
