(* ===== verification/Memdb_Arena.thy ===== *)
theory Memdb_Arena imports Kv_Key begin

text \<open>
  The allocator of the in-memory database, \<open>kv/memdb/arena.go\<close>: its blocks, its allocations, and that
  an allocation never overlaps an earlier one.
\<close>

section \<open>The arena\<close>

text \<open>
  \<open>kv/memdb/arena.go\<close>.  An address is the number of a block, from one, and an offset in it.  A block is
  the size of its buffer and how much of it is taken; what is in the buffers is modelled with the nodes.
\<close>

datatype arenaAddr = ArenaAddr (blockIdx: "32 word") (blockOffset: "32 word")

abbreviation nullAddr :: arenaAddr where "nullAddr \<equiv> ArenaAddr 0 0"

definition isNull :: "arenaAddr \<Rightarrow> bool" where "isNull a = (blockIdx a = 0 \<and> blockOffset a = 0)"

definition newArenaAddr :: "nat \<Rightarrow> 32 word \<Rightarrow> arenaAddr" where
  "newArenaAddr idx offset = ArenaAddr (of_nat idx + 1) offset"

definition nullBlockOffset :: "32 word" where "nullBlockOffset = 0xFFFFFFFF"
definition maxBlockSize :: nat where "maxBlockSize = 128 * 1024 * 1024"

record arenaBlock =
  buf_len :: nat
  blk_length :: nat

record arena =
  blockSize :: nat
  availIdx :: nat
  blocks :: "arenaBlock list"

definition newArenaBlock :: "nat \<Rightarrow> arenaBlock" where
  "newArenaBlock sz = \<lparr>buf_len = sz, blk_length = 0\<rparr>"

definition newArenaLocator :: "nat \<Rightarrow> arena" where
  "newArenaLocator initBlockSize =
     \<lparr>blockSize = initBlockSize, availIdx = 0, blocks = [newArenaBlock initBlockSize]\<rparr>"

definition block_alloc :: "arenaBlock \<Rightarrow> nat \<Rightarrow> 32 word \<times> arenaBlock" where
  "block_alloc a sz =
     (let offset = blk_length a; newLen = offset + sz in
      if newLen > buf_len a then (nullBlockOffset, a)
      else (of_nat offset, a\<lparr>blk_length := newLen\<rparr>))"

definition allocInBlock :: "arena \<Rightarrow> nat \<Rightarrow> nat \<Rightarrow> arenaAddr \<times> arena" where
  "allocInBlock a idx sz =
     (let (offset, b) = block_alloc (blocks a ! idx) sz in
      if offset = nullBlockOffset then (nullAddr, a)
      else (newArenaAddr idx offset, a\<lparr>blocks := (blocks a)[idx := b]\<rparr>))"

text \<open>Doubling the block size until an allocation fits; from a block size of zero this never ends.\<close>

partial_function (option) enlarge_loop :: "nat \<Rightarrow> nat \<Rightarrow> nat option" where
  "enlarge_loop bs sz = (if bs \<le> sz then enlarge_loop (bs * 2) sz else Some bs)"

definition enlarge :: "arena \<Rightarrow> nat \<Rightarrow> arena option" where
  "enlarge a sz =
     (case enlarge_loop (blockSize a * 2) sz of
        None \<Rightarrow> None
      | Some bs \<Rightarrow>
          let bs' = (if bs > maxBlockSize then maxBlockSize else bs);
              bl = blocks a @ [newArenaBlock bs']
          in Some \<lparr>blockSize = bs', availIdx = length bl - 1, blocks = bl\<rparr>)"

definition alloc :: "arena \<Rightarrow> nat \<Rightarrow> (arenaAddr \<times> arena) option" where
  "alloc a sz =
     (if sz \<ge> maxBlockSize then
        let blk = (newArenaBlock sz)\<lparr>blk_length := sz\<rparr>; bl = blocks a @ [blk] in
        Some (newArenaAddr (length bl - 1) 0, a\<lparr>blocks := bl\<rparr>)
      else
        let (addr, a1) = allocInBlock a (availIdx a) sz in
        if \<not> isNull addr then Some (addr, a1)
        else case enlarge a1 sz of
          None \<Rightarrow> None
        | Some a2 \<Rightarrow> Some (allocInBlock a2 (availIdx a2) sz))"

definition arena_reset :: "arena \<Rightarrow> arena" where
  "arena_reset a =
     \<lparr>blockSize = buf_len (blocks a ! 0), availIdx = 0, blocks = [(blocks a ! 0)\<lparr>blk_length := 0\<rparr>]\<rparr>"

text \<open>
  The arena is in order when the current block exists and no block is filled beyond its buffer; the
  blocks that allocations go to are so small that offsets fit 32 bits, and so is the first block, which
  is the one that \<open>reset\<close> goes back to.
\<close>

definition arena_ok :: "arena \<Rightarrow> bool" where
  "arena_ok a =
     (0 < blockSize a \<and> availIdx a < length (blocks a) \<and> buf_len (blocks a ! availIdx a) \<le> 2 ^ 31 \<and>
      0 < buf_len (blocks a ! 0) \<and> buf_len (blocks a ! 0) \<le> 2 ^ 31 \<and>
      (\<forall>b \<in> set (blocks a). blk_length b \<le> buf_len b))"

text \<open>A region of memory is taken when it lies in the filled part of its block.\<close>

definition taken :: "arena \<Rightarrow> arenaAddr \<Rightarrow> nat \<Rightarrow> bool" where
  "taken a addr sz =
     (\<exists>i < length (blocks a). addr = newArenaAddr i (blockOffset addr) \<and> unat (blockOffset addr) + sz \<le> blk_length (blocks a ! i))"

lemma enlarge_loop_total: "0 < bs \<Longrightarrow> \<exists>r. enlarge_loop bs sz = Some r \<and> sz < r"
proof (induction "Suc sz - bs" arbitrary: bs rule: less_induct)
  case less
  show ?case
  proof (cases "bs \<le> sz")
    case True
    have "Suc sz - bs * 2 < Suc sz - bs" using True less.prems by simp
    from less.hyps [OF this] less.prems True show ?thesis by (subst enlarge_loop.simps) simp
  next
    case False
    then show ?thesis by (subst enlarge_loop.simps) simp
  qed
qed

lemma newArenaAddr_inj:
  assumes "i < 2 ^ 32 - 1" "j < 2 ^ 32 - 1" "newArenaAddr i p = newArenaAddr j q"
  shows "i = j \<and> p = q"
proof -
  have "(of_nat i :: 32 word) = of_nat j" "p = q" using assms(3) by (simp_all add: newArenaAddr_def)
  then have "unat (of_nat i :: 32 word) = unat (of_nat j :: 32 word)" by simp
  then show ?thesis using assms(1,2) \<open>p = q\<close> by (simp add: unat_of_nat)
qed

lemma newArenaAddr_not_null: "i < 2 ^ 32 - 1 \<Longrightarrow> newArenaAddr i p \<noteq> nullAddr"
proof
  assume i: "i < 2 ^ 32 - 1" and "newArenaAddr i p = nullAddr"
  then have "(of_nat (Suc i) :: 32 word) = 0" by (simp add: newArenaAddr_def add.commute)
  then have "unat (of_nat (Suc i) :: 32 word) = 0" by (simp only: unat_0)
  then show False using i unfolding unat_of_nat by simp
qed

lemma isNull_iff [simp]: "isNull a \<longleftrightarrow> a = nullAddr"
  by (cases a) (simp add: isNull_def)

lemma allocInBlock_fits:
  assumes "arena_ok a" "length (blocks a) < 2 ^ 32 - 1" "blk_length (blocks a ! availIdx a) + sz \<le> buf_len (blocks a ! availIdx a)" "0 < sz"
  shows "allocInBlock a (availIdx a) sz =
    (newArenaAddr (availIdx a) (of_nat (blk_length (blocks a ! availIdx a))),
     a\<lparr>blocks := (blocks a)[availIdx a := (blocks a ! availIdx a)\<lparr>blk_length := blk_length (blocks a ! availIdx a) + sz\<rparr>]\<rparr>)"
proof -
  let ?b = "blocks a ! availIdx a"
  have "blk_length ?b < 2 ^ 31" using assms(1,3,4) by (simp add: arena_ok_def)
  then have "unat (of_nat (blk_length ?b) :: 32 word) = blk_length ?b" by (simp add: unat_of_nat)
  moreover have "unat nullBlockOffset = 4294967295" by (simp add: nullBlockOffset_def)
  ultimately have "(of_nat (blk_length ?b) :: 32 word) \<noteq> nullBlockOffset" using \<open>blk_length ?b < 2 ^ 31\<close> by auto
  then show ?thesis using assms(3) by (simp add: allocInBlock_def block_alloc_def Let_def)
qed

text \<open>Every allocation returns a region that does not overlap a taken one, takes it, and leaves the taken ones
  taken.\<close>

definition fresh_region :: "arena \<Rightarrow> arenaAddr \<Rightarrow> arena \<Rightarrow> nat \<Rightarrow> bool" where
  "fresh_region a addr a' sz =
     (arena_ok a' \<and> length (blocks a') \<le> Suc (length (blocks a)) \<and> addr \<noteq> nullAddr \<and> taken a' addr sz \<and>
      (\<forall>x n. taken a x n \<longrightarrow> taken a' x n \<and> (blockIdx x = blockIdx addr \<longrightarrow> unat (blockOffset x) + n \<le> unat (blockOffset addr))))"

lemma fresh_other: "fresh_region a addr a' sz \<Longrightarrow> 0 < n \<Longrightarrow> taken a x n \<Longrightarrow> x \<noteq> addr"
  unfolding fresh_region_def by fastforce

lemma taken_append:
  assumes "blocks a' = blocks a @ [blk]" "length (blocks a) < 2 ^ 32 - 2" "taken a x n"
  shows "taken a' x n \<and> blockIdx x \<noteq> blockIdx (newArenaAddr (length (blocks a)) p)"
proof -
  obtain i where i: "i < length (blocks a)" "x = newArenaAddr i (blockOffset x)" "unat (blockOffset x) + n \<le> blk_length (blocks a ! i)"
    using assms(3) by (auto simp: taken_def)
  then have "taken a' x n" using assms(1) unfolding taken_def by (intro exI [of _ i]) (simp add: nth_append)
  moreover have "blockIdx x \<noteq> blockIdx (newArenaAddr (length (blocks a)) p)"
    using newArenaAddr_inj [of i "length (blocks a)" p p] i(1) arg_cong [OF i(2), of blockIdx] assms(2)
    by (auto simp: newArenaAddr_def)
  ultimately show ?thesis by simp
qed

lemma allocInBlock_fresh:
  assumes "arena_ok a" "length (blocks a) < 2 ^ 32 - 1" "blk_length (blocks a ! availIdx a) + sz \<le> buf_len (blocks a ! availIdx a)" "0 < sz"
  shows "\<exists>addr a'. allocInBlock a (availIdx a) sz = (addr, a') \<and> length (blocks a') = length (blocks a) \<and> fresh_region a addr a' sz"
proof -
  let ?i = "availIdx a" and ?b = "blocks a ! availIdx a"
  let ?a' = "a\<lparr>blocks := (blocks a)[?i := ?b\<lparr>blk_length := blk_length ?b + sz\<rparr>]\<rparr>"
  let ?addr = "newArenaAddr ?i (of_nat (blk_length ?b))"
  have i: "?i < length (blocks a)" using assms(1) by (simp add: arena_ok_def)
  have "blk_length ?b < 2 ^ 31" using assms(1,3,4) by (simp add: arena_ok_def)
  then have u: "unat (of_nat (blk_length ?b) :: 32 word) = blk_length ?b" by (simp add: unat_of_nat)
  have "arena_ok ?a'"
    using assms(1,3) i by (auto simp: arena_ok_def nth_list_update dest: set_update_subset_insert [THEN subsetD])
  moreover have "?addr \<noteq> nullAddr" using newArenaAddr_not_null [of ?i] i assms(2) by simp
  moreover have "taken ?a' ?addr sz" unfolding taken_def using i u by (intro exI [of _ ?i]) (simp add: newArenaAddr_def)
  moreover have "taken ?a' x n \<and> (blockIdx x = blockIdx ?addr \<longrightarrow> unat (blockOffset x) + n \<le> unat (blockOffset ?addr))"
    if t: "taken a x n" for x n
  proof -
    obtain j where j: "j < length (blocks a)" "x = newArenaAddr j (blockOffset x)" "unat (blockOffset x) + n \<le> blk_length (blocks a ! j)"
      using t by (auto simp: taken_def)
    have "blk_length (blocks a ! j) \<le> blk_length (blocks ?a' ! j)" using i by (cases "j = ?i") simp_all
    then have "unat (blockOffset x) + n \<le> blk_length (blocks ?a' ! j)" "j < length (blocks ?a')" using j(1,3) by simp_all
    then have "taken ?a' x n" unfolding taken_def using j(2) by blast
    moreover have "unat (blockOffset x) + n \<le> unat (blockOffset ?addr)" if b: "blockIdx x = blockIdx ?addr"
    proof -
      have "newArenaAddr j 0 = newArenaAddr ?i 0" using b arg_cong [OF j(2), of blockIdx] by (simp add: newArenaAddr_def)
      then have "j = ?i" using newArenaAddr_inj [of j ?i 0 0] j(1) i assms(2) by simp
      then show ?thesis using j(3) u by (simp add: newArenaAddr_def)
    qed
    ultimately show ?thesis by simp
  qed
  ultimately show ?thesis using allocInBlock_fits [OF assms] by (simp add: fresh_region_def)
qed

lemma allocInBlock_full:
  assumes "\<not> blk_length (blocks a ! i) + sz \<le> buf_len (blocks a ! i)"
  shows "allocInBlock a i sz = (nullAddr, a)"
  using assms by (simp add: allocInBlock_def block_alloc_def Let_def)

lemma enlarge_ok:
  assumes "arena_ok a" "sz < maxBlockSize"
  obtains a' blk where "enlarge a sz = Some a'" "arena_ok a'" "blocks a' = blocks a @ [blk]" "availIdx a' = length (blocks a)"
    "blk_length blk = 0" "sz \<le> buf_len blk"
proof -
  obtain bs where bs: "enlarge_loop (blockSize a * 2) sz = Some bs" "sz < bs"
    using enlarge_loop_total [of "blockSize a * 2" sz] assms(1) by (auto simp: arena_ok_def)
  let ?bs = "if bs > maxBlockSize then maxBlockSize else bs"
  have "?bs \<le> 2 ^ 31" by (simp add: maxBlockSize_def)
  then show ?thesis
    using bs assms that [of "\<lparr>blockSize = ?bs, availIdx = length (blocks a), blocks = blocks a @ [newArenaBlock ?bs]\<rparr>" "newArenaBlock ?bs"]
    by (auto simp: enlarge_def arena_ok_def newArenaBlock_def maxBlockSize_def Let_def nth_append)
qed

lemma alloc_fresh:
  assumes "arena_ok a" "length (blocks a) < 2 ^ 32 - 2" "0 < sz"
  shows "\<exists>addr a'. alloc a sz = Some (addr, a') \<and> fresh_region a addr a' sz"
proof (cases "sz \<ge> maxBlockSize")
  case True
  let ?n = "length (blocks a)"
  let ?a' = "a\<lparr>blocks := blocks a @ [(newArenaBlock sz)\<lparr>blk_length := sz\<rparr>]\<rparr>"
  have "alloc a sz = Some (newArenaAddr ?n 0, ?a')" using True by (simp add: alloc_def Let_def)
  moreover have "arena_ok ?a'" using assms(1) by (auto simp: arena_ok_def newArenaBlock_def nth_append)
  moreover have "taken ?a' (newArenaAddr ?n 0) sz"
    unfolding taken_def by (intro exI [of _ ?n]) (simp add: newArenaAddr_def newArenaBlock_def)
  moreover have "newArenaAddr ?n 0 \<noteq> nullAddr" using newArenaAddr_not_null [of ?n 0] assms(2) by simp
  ultimately show ?thesis using taken_append [of ?a' a _ _ _ 0] assms(2) by (simp add: fresh_region_def)
next
  case False
  show ?thesis
  proof (cases "blk_length (blocks a ! availIdx a) + sz \<le> buf_len (blocks a ! availIdx a)")
    case True
    then obtain addr a' where "allocInBlock a (availIdx a) sz = (addr, a')" "fresh_region a addr a' sz"
      using allocInBlock_fresh [OF assms(1) _ True assms(3)] assms(2) by auto
    then show ?thesis using False by (auto simp: alloc_def fresh_region_def)
  next
    case full: False
    obtain a2 blk where e: "enlarge a sz = Some a2" "arena_ok a2" "blocks a2 = blocks a @ [blk]" "availIdx a2 = length (blocks a)"
      "blk_length blk = 0" "sz \<le> buf_len blk"
      using enlarge_ok [OF assms(1)] False by (metis not_le)
    obtain addr a' where a': "allocInBlock a2 (availIdx a2) sz = (addr, a')" "length (blocks a') = length (blocks a2)" "fresh_region a2 addr a' sz"
      using allocInBlock_fresh [OF e(2) _ _ assms(3)] e(3-6) assms(2) by auto
    moreover have "taken a2 x n" if "taken a x n" for x n using taken_append [OF e(3) assms(2) that] by simp
    ultimately have "fresh_region a addr a' sz" using e(3) by (simp add: fresh_region_def)
    then show ?thesis using False allocInBlock_full [OF full] e(1) a'(1) by (auto simp: alloc_def)
  qed
qed

text \<open>C35: An allocation always returns, never the null address, and the region it returns lies inside the
  filled part of a block and overlaps no region that was handed out before, all of which stay where they
  are.\<close>

theorem alloc_disjoint:
  assumes "arena_ok a" "length (blocks a) < 2 ^ 32 - 2" "0 < sz"
  shows "\<exists>addr a'. alloc a sz = Some (addr, a') \<and> arena_ok a' \<and> addr \<noteq> nullAddr \<and> taken a' addr sz \<and>
    (\<forall>x n. taken a x n \<longrightarrow> taken a' x n \<and>
       (blockIdx x = blockIdx addr \<longrightarrow> unat (blockOffset x) + n \<le> unat (blockOffset addr)))"
  using alloc_fresh [OF assms] unfolding fresh_region_def by blast

theorem alloc_disjoint_witness:
  "\<exists>addr a'. alloc (newArenaLocator 16) 40 = Some (addr, a') \<and> arena_ok a' \<and> addr \<noteq> nullAddr \<and> taken a' addr 40"
proof -
  have "arena_ok (newArenaLocator 16)" by (simp add: arena_ok_def newArenaLocator_def newArenaBlock_def)
  from alloc_disjoint [OF this, of 40] show ?thesis by (auto simp: newArenaLocator_def)
qed

end
