(* ===== verification/Memdb.thy ===== *)
theory Memdb imports Memdb_Arena begin

text \<open>
  The in-memory database, \<open>kv/memdb/memdb.go\<close> and \<open>kv/memdb/iterator.go\<close>: a skip list in an arena, its
  searches, its updates and its iterators.
\<close>

section \<open>Nodes\<close>

text \<open>
  \<open>kv/memdb/memdb.go\<close>.  A node pointer is the address of the node; the head node, which is not in the
  arena, stands at the null address.  The bytes of a node after its header and its links are \<open>n_buf\<close>;
  a level of \<open>nexts\<close> at or above the height of the node is never read.
\<close>

definition maxHeight :: nat where "maxHeight = 16"

definition nodeHeaderSize :: nat where "nodeHeaderSize = 8"

record node =
  n_height :: "16 word"
  keyLen :: "16 word"
  valLen :: "32 word"
  n_prev :: arenaAddr
  nexts :: "arenaAddr list"
  n_buf :: bytes

type_synonym memory = "arenaAddr \<Rightarrow> node"

definition zeroNode :: node where
  "zeroNode = \<lparr>n_height = 0, keyLen = 0, valLen = 0, n_prev = nullAddr, nexts = replicate maxHeight nullAddr, n_buf = []\<rparr>"

definition getKey :: "node \<Rightarrow> bytes" where
  "getKey n = take (unat (keyLen n)) (n_buf n)"

definition getValue_node :: "node \<Rightarrow> bytes" where
  "getValue_node n = take (unat (valLen n)) (drop (unat (keyLen n)) (n_buf n))"

text \<open>A node with its address; \<open>ptr\<close> is \<open>None\<close> for the nil pointer.\<close>

record nodeWithAddr =
  ptr :: "arenaAddr option"
  na_addr :: arenaAddr

abbreviation nilNode :: nodeWithAddr where "nilNode \<equiv> \<lparr>ptr = None, na_addr = nullAddr\<rparr>"
abbreviation headNode :: nodeWithAddr where "headNode \<equiv> \<lparr>ptr = Some nullAddr, na_addr = nullAddr\<rparr>"
abbreviation at_addr :: "arenaAddr \<Rightarrow> nodeWithAddr" where "at_addr a \<equiv> \<lparr>ptr = Some a, na_addr = a\<rparr>"

record DB =
  d_height :: nat
  d_mem :: memory
  d_arena :: arena
  d_length :: int
  d_size :: int

definition New :: "nat \<Rightarrow> DB" where
  "New initBlockSize =
     \<lparr>d_height = 1, d_mem = (\<lambda>_. zeroNode), d_arena = newArenaLocator initBlockSize, d_length = 0, d_size = 0\<rparr>"

definition Reset :: "DB \<Rightarrow> DB" where
  "Reset db =
     db\<lparr>d_height := 1, d_mem := (d_mem db)(nullAddr := zeroNode), d_length := 0, d_size := 0,
        d_arena := arena_reset (d_arena db)\<rparr>"

section \<open>Searching\<close>

text \<open>The loops follow links through memory; \<open>None\<close> means that the loop does not end.\<close>

partial_function (option) findSpliceForLevel ::
  "memory \<Rightarrow> bytes \<Rightarrow> nodeWithAddr \<Rightarrow> nat \<Rightarrow> (nodeWithAddr \<times> nodeWithAddr \<times> bool) option" where
  "findSpliceForLevel m key before level =
     (let nextAddr = nexts (m (the (ptr before))) ! level in
      if isNull nextAddr then Some (before, nilNode, False)
      else let nextKey = getKey (m nextAddr) in
        if nextKey \<ge> key then Some (before, at_addr nextAddr, nextKey = key)
        else findSpliceForLevel m key (at_addr nextAddr) level)"

partial_function (option) findGreaterEqual_loop :: "memory \<Rightarrow> bytes \<Rightarrow> arenaAddr \<Rightarrow> nat \<Rightarrow> (arenaAddr option \<times> bool) option" where
  "findGreaterEqual_loop m key prev level =
     (let addr = nexts (m prev) ! level in
      if \<not> isNull addr \<and> getKey (m addr) < key then findGreaterEqual_loop m key addr level
      else if \<not> isNull addr \<and> getKey (m addr) = key then Some (Some addr, True)
      else if level > 0 then findGreaterEqual_loop m key prev (level - 1)
      else Some (if isNull addr then None else Some addr, False))"

definition findGreaterEqual :: "DB \<Rightarrow> bytes \<Rightarrow> (arenaAddr option \<times> bool) option" where
  "findGreaterEqual db key = findGreaterEqual_loop (d_mem db) key nullAddr (d_height db - 1)"

partial_function (option) findLess_loop :: "memory \<Rightarrow> bytes \<Rightarrow> bool \<Rightarrow> arenaAddr \<Rightarrow> nat \<Rightarrow> (arenaAddr option \<times> bool) option" where
  "findLess_loop m key allowEqual prev level =
     (let next = nexts (m prev) ! level in
      if \<not> isNull next \<and> key > getKey (m next) then findLess_loop m key allowEqual next level
      else if \<not> isNull next \<and> key = getKey (m next) \<and> allowEqual then Some (Some next, True)
      else if level > 0 then findLess_loop m key allowEqual prev (level - 1)
      else if prev = nullAddr then Some (None, False)
      else Some (Some prev, False))"

definition findLess :: "DB \<Rightarrow> bytes \<Rightarrow> bool \<Rightarrow> (arenaAddr option \<times> bool) option" where
  "findLess db key allowEqual = findLess_loop (d_mem db) key allowEqual nullAddr (d_height db - 1)"

partial_function (option) findLast_loop :: "memory \<Rightarrow> arenaAddr \<Rightarrow> nat \<Rightarrow> arenaAddr option option" where
  "findLast_loop m n level =
     (let next = nexts (m n) ! level in
      if \<not> isNull next then findLast_loop m next level
      else if level = 0 then (if n = nullAddr then Some None else Some (Some n))
      else findLast_loop m n (level - 1))"

definition findLast :: "DB \<Rightarrow> arenaAddr option option" where
  "findLast db = findLast_loop (d_mem db) nullAddr (d_height db - 1)"

definition getNext :: "DB \<Rightarrow> arenaAddr \<Rightarrow> nat \<Rightarrow> arenaAddr option" where
  "getNext db n level = (let addr = nexts (d_mem db n) ! level in if isNull addr then None else Some addr)"

text \<open>The outer \<open>None\<close> is a search that does not end, the inner one the nil slice.\<close>

definition db_Get :: "DB \<Rightarrow> bytes \<Rightarrow> bytes option option" where
  "db_Get db key =
     (case findGreaterEqual db key of
        None \<Rightarrow> None
      | Some (Some n, True) \<Rightarrow> Some (Some (getValue_node (d_mem db n)))
      | Some _ \<Rightarrow> Some None)"

section \<open>Updates\<close>

text \<open>\<open>rnd\<close> are the successive draws of the runtime's random numbers.\<close>

fun randomHeight_loop :: "nat \<Rightarrow> (nat \<Rightarrow> 32 word) \<Rightarrow> nat \<Rightarrow> nat" where
  "randomHeight_loop 0 rnd h = h"
| "randomHeight_loop (Suc n) rnd h =
     (if h < maxHeight \<and> rnd (h - 1) < 0xFFFFFFFF div 4 then randomHeight_loop n rnd (h + 1) else h)"

definition randomHeight :: "(nat \<Rightarrow> 32 word) \<Rightarrow> nat" where
  "randomHeight rnd = randomHeight_loop maxHeight rnd 1"

definition copy_at :: "bytes \<Rightarrow> nat \<Rightarrow> bytes \<Rightarrow> bytes" where
  "copy_at buf off src = take off buf @ take (length buf - off) src @ drop (off + length src) buf"

definition newNode :: "memory \<Rightarrow> arena \<Rightarrow> bytes \<Rightarrow> bytes \<Rightarrow> nat \<Rightarrow> (arenaAddr \<times> memory \<times> arena) option" where
  "newNode m ar key v height =
     (let nodeSize = nodeHeaderSize + height * 8 + 8 + length key + length v in
      case alloc ar nodeSize of
        None \<Rightarrow> None
      | Some (addr, ar') \<Rightarrow>
          let kl = (of_nat (length key) :: 16 word);
              buf = copy_at (copy_at (replicate (length key + length v) 0) 0 key) (unat kl) v;
              n = \<lparr>n_height = of_nat height, keyLen = kl, valLen = of_nat (length v), n_prev = nullAddr,
                   nexts = replicate maxHeight nullAddr, n_buf = buf\<rparr>
          in Some (addr, m(addr := n), ar'))"

text \<open>The search of \<open>Put\<close> and \<open>Delete\<close>: from the top level down, each level starting where the level
  above it ended.\<close>

fun splice_loop ::
  "memory \<Rightarrow> bytes \<Rightarrow> nat \<Rightarrow> nodeWithAddr list \<Rightarrow> nodeWithAddr list \<Rightarrow> bool \<Rightarrow>
     (nodeWithAddr list \<times> nodeWithAddr list \<times> bool) option" where
  "splice_loop m key 0 prev next ex = Some (prev, next, ex)"
| "splice_loop m key (Suc i) prev next ex =
     (case findSpliceForLevel m key (prev ! Suc i) i of
        None \<Rightarrow> None
      | Some (p, n, e) \<Rightarrow> splice_loop m key i (prev[i := p]) (next[i := n]) e)"

definition set_next :: "memory \<Rightarrow> arenaAddr \<Rightarrow> nat \<Rightarrow> arenaAddr \<Rightarrow> memory" where
  "set_next m a i b = m(a := (m a)\<lparr>nexts := (nexts (m a))[i := b]\<rparr>)"

definition set_prev :: "memory \<Rightarrow> arenaAddr \<Rightarrow> arenaAddr \<Rightarrow> memory" where
  "set_prev m a b = m(a := (m a)\<lparr>n_prev := b\<rparr>)"

definition prepareOverwrite_next :: "memory \<Rightarrow> nodeWithAddr \<Rightarrow> nodeWithAddr list \<Rightarrow> nat \<Rightarrow> nodeWithAddr list" where
  "prepareOverwrite_next m old next i =
     (if na_addr (next ! i) = na_addr old then
        let a = nexts (m (the (ptr old))) ! i in
        next[i := (if isNull a then (next ! i)\<lparr>na_addr := a\<rparr> else at_addr a)]
      else next)"

definition prepareOverwrite :: "DB \<Rightarrow> nodeWithAddr list \<Rightarrow> nat \<times> nodeWithAddr list \<times> DB" where
  "prepareOverwrite db next =
     (let old = next ! 0; o' = d_mem db (the (ptr old));
          db' = db\<lparr>d_size := d_size db - (int (unat (valLen o')) + int (unat (keyLen o'))), d_length := d_length db - 1\<rparr>;
          height = unat (n_height o')
      in (height, foldl (prepareOverwrite_next (d_mem db) old) next [0..<height], db'))"

text \<open>Linking the new node \<open>x\<close> at one level.\<close>

definition Put_link :: "arenaAddr \<Rightarrow> nodeWithAddr list \<Rightarrow> memory \<times> nodeWithAddr list \<Rightarrow> nat \<Rightarrow> memory \<times> nodeWithAddr list" where
  "Put_link x next mp i =
     (let (m, prev) = mp;
          m1 = set_next m x i (na_addr (next ! i));
          prev' = (if ptr (prev ! i) = None then prev[i := headNode] else prev)
      in (set_next m1 (the (ptr (prev' ! i))) i x, prev'))"

definition Put :: "(nat \<Rightarrow> 32 word) \<Rightarrow> DB \<Rightarrow> bytes \<Rightarrow> bytes \<Rightarrow> DB option" where
  "Put rnd db key v =
     (let lsHeight = d_height db;
          prev = (replicate (maxHeight + 1) nilNode)[lsHeight := headNode]
      in case splice_loop (d_mem db) key lsHeight prev (replicate (maxHeight + 1) nilNode) False of
        None \<Rightarrow> None
      | Some (prev, next, ex) \<Rightarrow>
          let (height, next, db1) = (if \<not> ex then (randomHeight rnd, next, db) else prepareOverwrite db next) in
          (case newNode (d_mem db1) (d_arena db1) key v height of
             None \<Rightarrow> None
           | Some (x, m, ar) \<Rightarrow>
               let (m1, prev) = foldl (Put_link x next) (m, prev) [0..<height];
                   m2 = set_prev m1 x (na_addr (prev ! 0));
                   m3 = (case ptr (next ! 0) of None \<Rightarrow> m2 | Some n \<Rightarrow> set_prev m2 n x)
               in Some (db1\<lparr>d_height := (if height > lsHeight then height else lsHeight), d_mem := m3, d_arena := ar,
                            d_length := d_length db1 + 1, d_size := d_size db1 + int (length key) + int (length v)\<rparr>)))"

definition db_Delete :: "DB \<Rightarrow> bytes \<Rightarrow> (bool \<times> DB) option" where
  "db_Delete db key =
     (let listHeight = d_height db;
          prev = (replicate (maxHeight + 1) nilNode)[listHeight := headNode]
      in case splice_loop (d_mem db) key listHeight prev (replicate (maxHeight + 1) nilNode) False of
        None \<Rightarrow> None
      | Some (prev, next, match) \<Rightarrow>
          if \<not> match then Some (False, db)
          else let
              k = the (ptr (next ! 0)); kn = d_mem db k;
              m1 = foldl (\<lambda>m i. set_next m (the (ptr (prev ! i))) i (nexts (m k) ! i)) (d_mem db) (rev [0..<unat (n_height kn)]);
              nextAddr = nexts (m1 k) ! 0;
              m2 = (if isNull nextAddr then m1 else set_prev m1 nextAddr (na_addr (prev ! 0)))
            in Some (True, db\<lparr>d_mem := m2, d_length := d_length db - 1,
                              d_size := d_size db - (int (unat (keyLen kn)) + int (unat (valLen kn)))\<rparr>))"

section \<open>Iterators\<close>

text \<open>\<open>kv/memdb/iterator.go\<close>.  The database of the iterator is an argument of its operations.  Moving an
  iterator that is not valid dereferences nil; \<open>None\<close> stands for that panic and for a search that does
  not end.\<close>

record db_iter =
  curr :: "arenaAddr option"
  it_key :: bytes
  it_val :: bytes

definition NewIterator_db :: "db_iter" where "NewIterator_db = \<lparr>curr = None, it_key = [], it_val = []\<rparr>"

definition updateState :: "DB \<Rightarrow> db_iter \<Rightarrow> arenaAddr option \<Rightarrow> db_iter" where
  "updateState db it n =
     (case n of
        None \<Rightarrow> it\<lparr>curr := None\<rparr>
      | Some a \<Rightarrow> \<lparr>curr = Some a, it_key = getKey (d_mem db a), it_val = getValue_node (d_mem db a)\<rparr>)"

definition changeToAddr :: "DB \<Rightarrow> db_iter \<Rightarrow> arenaAddr \<Rightarrow> db_iter" where
  "changeToAddr db it a = updateState db it (if isNull a then None else Some a)"

definition it_Next :: "DB \<Rightarrow> db_iter \<Rightarrow> db_iter option" where
  "it_Next db it = (case curr it of None \<Rightarrow> None | Some a \<Rightarrow> Some (changeToAddr db it (nexts (d_mem db a) ! 0)))"

definition it_Prev :: "DB \<Rightarrow> db_iter \<Rightarrow> db_iter option" where
  "it_Prev db it = (case curr it of None \<Rightarrow> None | Some a \<Rightarrow> Some (changeToAddr db it (n_prev (d_mem db a))))"

definition it_Seek :: "DB \<Rightarrow> db_iter \<Rightarrow> bytes \<Rightarrow> db_iter option" where
  "it_Seek db it k = map_option (\<lambda>(n, _). updateState db it n) (findGreaterEqual db k)"

definition SeekForPrev :: "DB \<Rightarrow> db_iter \<Rightarrow> bytes \<Rightarrow> db_iter option" where
  "SeekForPrev db it k = map_option (\<lambda>(n, _). updateState db it n) (findLess db k True)"

definition SeekForExclusivePrev :: "DB \<Rightarrow> db_iter \<Rightarrow> bytes \<Rightarrow> db_iter option" where
  "SeekForExclusivePrev db it k = map_option (\<lambda>(n, _). updateState db it n) (findLess db k False)"

definition SeekToFirst :: "DB \<Rightarrow> db_iter \<Rightarrow> db_iter" where
  "SeekToFirst db it = updateState db it (getNext db nullAddr 0)"

definition SeekToLast :: "DB \<Rightarrow> db_iter \<Rightarrow> db_iter option" where
  "SeekToLast db it = map_option (updateState db it) (findLast db)"

end
