(* ===== verification/Memdb_Search.thy ===== *)
theory Memdb_Search imports Memdb begin

text \<open>
  Well-formed skip lists, and what the searches find in them.  All the proofs are about the list of the
  nodes in ascending order: a level is the sublist of the nodes that are high enough.
\<close>

section \<open>Well-formed lists\<close>

abbreviation nx :: "memory \<Rightarrow> nat \<Rightarrow> arenaAddr \<Rightarrow> arenaAddr" where "nx m i a \<equiv> nexts (m a) ! i"
abbreviation ky :: "memory \<Rightarrow> arenaAddr \<Rightarrow> bytes" where "ky m a \<equiv> getKey (m a)"
abbreviation ht :: "memory \<Rightarrow> arenaAddr \<Rightarrow> nat" where "ht m a \<equiv> unat (n_height (m a))"

text \<open>The nodes of a level, and the links that join them between the head and the null address.\<close>

definition chain :: "memory \<Rightarrow> nat \<Rightarrow> arenaAddr list \<Rightarrow> arenaAddr list" where
  "chain m i L = filter (\<lambda>a. i < ht m a) L"

definition linked :: "memory \<Rightarrow> nat \<Rightarrow> arenaAddr list \<Rightarrow> bool" where
  "linked m i xs = successively (\<lambda>a b. nx m i a = b) (nullAddr # xs @ [nullAddr])"

definition plinked :: "memory \<Rightarrow> arenaAddr list \<Rightarrow> bool" where
  "plinked m xs = successively (\<lambda>a b. n_prev (m b) = a) (nullAddr # xs)"

definition entry :: "memory \<Rightarrow> arenaAddr \<Rightarrow> bytes \<times> bytes" where
  "entry m a = (getKey (m a), getValue_node (m a))"

definition wf_node :: "nat \<Rightarrow> node \<Rightarrow> bool" where
  "wf_node H n = (1 \<le> unat (n_height n) \<and> unat (n_height n) \<le> H \<and> length (nexts n) = maxHeight \<and>
     length (getKey n) = unat (keyLen n) \<and> length (getValue_node n) = unat (valLen n))"

definition wf_db :: "DB \<Rightarrow> arenaAddr list \<Rightarrow> bool" where
  "wf_db db L = (let m = d_mem db in
     1 \<le> d_height db \<and> d_height db \<le> maxHeight \<and> nullAddr \<notin> set L \<and> length (nexts (m nullAddr)) = maxHeight \<and>
     (\<forall>a \<in> set L. wf_node (d_height db) (m a) \<and> taken (d_arena db) a 1) \<and>
     sorted_wrt (\<lambda>a b. ky m a < ky m b) L \<and>
     (\<forall>i < maxHeight. linked m i (chain m i L)) \<and> plinked m L \<and> arena_ok (d_arena db) \<and>
     d_length db = int (length L) \<and>
     d_size db = (\<Sum>a \<leftarrow> L. int (unat (keyLen (m a))) + int (unat (valLen (m a)))))"

lemma successively_change:
  assumes "successively P xs" "distinct xs" "\<And>a b. a \<in> set xs \<Longrightarrow> b \<in> set xs \<Longrightarrow> a \<noteq> last xs \<Longrightarrow> P a b \<Longrightarrow> Q a b"
  shows "successively Q xs"
  using assms
proof (induction xs rule: induct_list012)
  case (3 x y xs)
  have "x \<noteq> last (x # y # xs)" using 3(4) by auto
  then have "Q x y" using 3(3,5) by simp
  moreover have "successively Q (y # xs)" using 3(3-5) by (intro 3(2)) auto
  ultimately show ?case by simp
qed auto

lemma sorted_distinct: "sorted_wrt (\<lambda>a b. ky m a < ky m b) L \<Longrightarrow> distinct L"
  by (induction L) auto

lemma chain_simps [simp]: "set (chain m i L) = {a \<in> set L. i < ht m a}"
  by (auto simp: chain_def)

lemma chain_sorted: "sorted_wrt (\<lambda>a b. ky m a < ky m b) L \<Longrightarrow> sorted_wrt (\<lambda>a b. ky m a < ky m b) (chain m i L)"
  by (simp add: chain_def sorted_wrt_filter)

lemma chain_Nil: "\<forall>a \<in> set L. ht m a \<le> i \<Longrightarrow> chain m i L = []"
  by (auto simp: chain_def filter_empty_conv)

lemma chain_0: "\<forall>a \<in> set L. 1 \<le> ht m a \<Longrightarrow> chain m 0 L = L"
  by (auto simp: chain_def filter_id_conv)

section \<open>Searching\<close>

text \<open>The two sides of a key on a list of nodes.\<close>

abbreviation below :: "memory \<Rightarrow> bytes \<Rightarrow> arenaAddr list \<Rightarrow> arenaAddr list" where
  "below m k xs \<equiv> takeWhile (\<lambda>a. ky m a < k) xs"
abbreviation not_below :: "memory \<Rightarrow> bytes \<Rightarrow> arenaAddr list \<Rightarrow> arenaAddr list" where
  "not_below m k xs \<equiv> dropWhile (\<lambda>a. ky m a < k) xs"

definition first_of :: "arenaAddr list \<Rightarrow> nodeWithAddr" where
  "first_of xs = (case xs of [] \<Rightarrow> nilNode | x # _ \<Rightarrow> at_addr x)"

definition is_match :: "memory \<Rightarrow> bytes \<Rightarrow> arenaAddr list \<Rightarrow> bool" where
  "is_match m k xs = (case xs of [] \<Rightarrow> False | x # _ \<Rightarrow> ky m x = k)"

text \<open>A stretch of a level, from a node to the end of the list.\<close>

abbreviation run :: "memory \<Rightarrow> nat \<Rightarrow> arenaAddr \<Rightarrow> arenaAddr list \<Rightarrow> bool" where
  "run m i a ys \<equiv> successively (\<lambda>a b. nx m i a = b) (a # ys @ [nullAddr])"

lemma findSplice_linked:
  assumes "run m i a ys" "nullAddr \<notin> set ys"
  shows "findSpliceForLevel m k (at_addr a) i =
    Some (at_addr (last (a # below m k ys)), first_of (not_below m k ys), is_match m k (not_below m k ys))"
  using assms
proof (induction ys arbitrary: a)
  case Nil
  then show ?case by (subst findSpliceForLevel.simps) (simp add: first_of_def is_match_def)
next
  case (Cons y ys)
  then have n: "nx m i a = y" "y \<noteq> nullAddr" "successively (\<lambda>a b. nx m i a = b) (y # ys @ [nullAddr])" "nullAddr \<notin> set ys" by auto
  show ?case
  proof (cases "ky m y < k")
    case True
    then have "\<not> k \<le> ky m y" by auto
    then show ?thesis using True n Cons.IH [OF n(3,4)] by (subst findSpliceForLevel.simps) (simp add: Let_def)
  next
    case False
    then have "k \<le> ky m y" by auto
    then show ?thesis using False n by (subst findSpliceForLevel.simps) (simp add: first_of_def is_match_def Let_def)
  qed
qed

text \<open>Starting at a node below the key is as good as starting at the head.\<close>

lemma split_at_below:
  assumes "sorted_wrt (\<lambda>a b. ky m a < ky m b) xs" "a \<in> set xs" "ky m a < k"
  obtains us vs where "xs = us @ vs" "last (nullAddr # us) = a" "\<forall>u \<in> set us. ky m u < k"
proof -
  obtain us vs where s: "xs = us @ a # vs" using assms(2) by (auto simp: in_set_conv_decomp)
  then have "\<forall>u \<in> set (us @ [a]). ky m u < k" using assms(1,3) by (auto simp: sorted_wrt_append)
  then show ?thesis using that [of "us @ [a]" vs] s by simp
qed

definition prev_at :: "memory \<Rightarrow> bytes \<Rightarrow> nat \<Rightarrow> arenaAddr list \<Rightarrow> arenaAddr" where
  "prev_at m k i L = last (nullAddr # below m k (chain m i L))"

lemma prev_at_below:
  assumes "sorted_wrt (\<lambda>a b. ky m a < ky m b) L" "j \<le> i"
  obtains us vs where "chain m j L = us @ vs" "last (nullAddr # us) = prev_at m k i L" "\<forall>u \<in> set us. ky m u < k"
proof (cases "below m k (chain m i L)")
  case Nil
  then show ?thesis using that [of "[]" "chain m j L"] by (simp add: prev_at_def)
next
  case (Cons x xs)
  let ?a = "prev_at m k i L"
  have "?a \<in> set (below m k (chain m i L))" using Cons by (simp add: prev_at_def)
  then have "?a \<in> set (chain m i L) \<and> ky m ?a < k" by (meson set_takeWhileD)
  then have "?a \<in> set (chain m j L)" "ky m ?a < k" using assms(2) by auto
  then show ?thesis using split_at_below [OF chain_sorted [OF assms(1)]] that by metis
qed

lemma linked_from:
  assumes "linked m i (us @ vs)"
  shows "run m i (last (nullAddr # us)) vs"
proof -
  have "successively (\<lambda>a b. nx m i a = b) ((nullAddr # us) @ (vs @ [nullAddr]))" using assms by (simp add: linked_def)
  then have "successively (\<lambda>a b. nx m i a = b) (vs @ [nullAddr])" "nx m i (last (nullAddr # us)) = hd (vs @ [nullAddr])"
    unfolding successively_append_iff [of _ "nullAddr # us"] by simp_all
  then show ?thesis by (simp only: successively_Cons simp_thms)
qed

text \<open>A level, from where the level above it ended.\<close>

lemma level_run:
  assumes "sorted_wrt (\<lambda>a b. ky m a < ky m b) L" "nullAddr \<notin> set L" "linked m j (chain m j L)" "j \<le> i"
  obtains vs where "run m j (prev_at m k i L) vs" "nullAddr \<notin> set vs" "not_below m k vs = not_below m k (chain m j L)"
    "last (prev_at m k i L # below m k vs) = prev_at m k j L"
proof -
  obtain us vs where s: "chain m j L = us @ vs" "last (nullAddr # us) = prev_at m k i L" "\<forall>u \<in> set us. ky m u < k"
    using prev_at_below [OF assms(1,4)] .
  have n: "nullAddr \<notin> set vs" using assms(2) s(1) chain_simps [of m j L] by (metis (no_types, lifting) Un_iff mem_Collect_eq set_append)
  have "prev_at m k j L = last (prev_at m k i L # below m k vs)"
    using s(2,3) unfolding prev_at_def [of m k j] s(1) takeWhile_append2 [OF bspec [OF s(3)]]
    by (cases "below m k vs") (auto simp: s(2))
  moreover have "not_below m k (chain m j L) = not_below m k vs" using s(3) by (simp add: s(1) dropWhile_append2)
  moreover have "run m j (prev_at m k i L) vs" using linked_from [of m j us vs] assms(3) s(1,2) by simp
  ultimately show ?thesis using that [of vs] n by simp
qed

lemma findSplice_from:
  assumes "sorted_wrt (\<lambda>a b. ky m a < ky m b) L" "nullAddr \<notin> set L" "linked m j (chain m j L)" "j \<le> i"
  shows "findSpliceForLevel m k (at_addr (prev_at m k i L)) j =
    Some (at_addr (prev_at m k j L), first_of (not_below m k (chain m j L)), is_match m k (not_below m k (chain m j L)))"
proof -
  obtain vs where v: "run m j (prev_at m k i L) vs" "nullAddr \<notin> set vs" "not_below m k vs = not_below m k (chain m j L)"
    "last (prev_at m k i L # below m k vs) = prev_at m k j L" by (rule level_run [OF assms])
  show ?thesis unfolding findSplice_linked [OF v(1,2)] v(3,4) ..
qed

lemma splice_loop_finds:
  assumes "sorted_wrt (\<lambda>a b. ky m a < ky m b) L" "nullAddr \<notin> set L" "\<forall>i < n. linked m i (chain m i L)"
    and "n < length prev" "n \<le> length next" "prev ! n = at_addr (prev_at m k n L)"
  shows "\<exists>prev' next' ex'. splice_loop m k n prev next ex = Some (prev', next', ex') \<and>
    length prev' = length prev \<and> length next' = length next \<and>
    (\<forall>i < n. prev' ! i = at_addr (prev_at m k i L) \<and> next' ! i = first_of (not_below m k (chain m i L))) \<and>
    (\<forall>i \<ge> n. prev' ! i = prev ! i \<and> next' ! i = next ! i) \<and>
    (0 < n \<longrightarrow> ex' = is_match m k (not_below m k (chain m 0 L)))"
  using assms(3-)
proof (induction n arbitrary: prev "next" ex)
  case (Suc n)
  let ?p = "at_addr (prev_at m k n L)" and ?n = "first_of (not_below m k (chain m n L))"
  have f: "findSpliceForLevel m k (prev ! Suc n) n = Some (?p, ?n, is_match m k (not_below m k (chain m n L)))"
    using findSplice_from [OF assms(1,2), of n "Suc n" k] Suc.prems by simp
  have "\<forall>i < n. linked m i (chain m i L)" "n < length (prev[n := ?p])" "n \<le> length (next[n := ?n])" "prev[n := ?p] ! n = ?p"
    using Suc.prems by simp_all
  from Suc.IH [OF this, of "is_match m k (not_below m k (chain m n L))"] obtain prev' next' ex' where
    r: "splice_loop m k n (prev[n := ?p]) (next[n := ?n]) (is_match m k (not_below m k (chain m n L))) = Some (prev', next', ex')"
      "length prev' = length prev" "length next' = length next"
      "\<forall>i < n. prev' ! i = at_addr (prev_at m k i L) \<and> next' ! i = first_of (not_below m k (chain m i L))"
      "\<forall>i \<ge> n. prev' ! i = prev[n := ?p] ! i \<and> next' ! i = next[n := ?n] ! i"
      "0 < n \<longrightarrow> ex' = is_match m k (not_below m k (chain m 0 L))" by auto
  have "ex' = is_match m k (not_below m k (chain m 0 L))" using r(1,6) by (cases "n = 0") auto
  moreover have "prev' ! i = at_addr (prev_at m k i L) \<and> next' ! i = first_of (not_below m k (chain m i L))" if "i < Suc n" for i
    using r(4,5) that Suc.prems by (cases "i = n") auto
  ultimately show ?case using f r(1-3,5) by (intro exI [of _ prev'] exI [of _ next'] exI [of _ ex']) simp
qed simp

lemma wf_sorted: "wf_db db L \<Longrightarrow> sorted_wrt (\<lambda>a b. ky (d_mem db) a < ky (d_mem db) b) L"
  by (simp add: wf_db_def Let_def)

lemma wf_chain_top:
  assumes "wf_db db L"
  shows "chain (d_mem db) (d_height db) L = []"
  using assms by (intro chain_Nil) (auto simp: wf_db_def wf_node_def Let_def)

text \<open>The search of \<open>Put\<close> and \<open>Delete\<close> finds the neighbours of the key on every level.\<close>

lemma search_finds:
  fixes db L k
  defines "m \<equiv> d_mem db"
  assumes "wf_db db L"
  shows "\<exists>prev next ex. splice_loop m k (d_height db) ((replicate (maxHeight + 1) nilNode)[d_height db := headNode])
      (replicate (maxHeight + 1) nilNode) False = Some (prev, next, ex) \<and>
    length prev = maxHeight + 1 \<and> length next = maxHeight + 1 \<and> ex = is_match m k (not_below m k L) \<and>
    (\<forall>i < maxHeight. (if i < d_height db then prev ! i = at_addr (prev_at m k i L) else ptr (prev ! i) \<in> {None, Some (prev_at m k i L)}) \<and>
       next ! i = first_of (not_below m k (chain m i L)))"
proof -
  let ?H = "d_height db"
  have w: "1 \<le> ?H" "?H \<le> maxHeight" "nullAddr \<notin> set L" "\<forall>i < maxHeight. linked m i (chain m i L)" "\<forall>a \<in> set L. 1 \<le> ht m a \<and> ht m a \<le> ?H"
    using assms(2) by (auto simp: wf_db_def m_def Let_def wf_node_def)
  have top: "chain m i L = []" if "?H \<le> i" for i using w(5) that by (intro chain_Nil) auto
  have p: "prev_at m k i L = nullAddr" if "?H \<le> i" for i using top [OF that] by (simp add: prev_at_def)
  have c0: "chain m 0 L = L" using w(5) by (intro chain_0) auto
  define N0 where "N0 = replicate (maxHeight + 1) nilNode"
  define P0 where "P0 = N0[?H := headNode]"
  have P0: "?H < length P0" "length P0 = maxHeight + 1" "P0 ! ?H = at_addr (prev_at m k ?H L)"
    "\<And>i. ?H \<le> i \<Longrightarrow> i < maxHeight \<Longrightarrow> ptr (P0 ! i) \<in> {None, Some nullAddr}"
    using w(2) p [of ?H] by (auto simp: P0_def N0_def nth_list_update simp del: replicate.simps)
  have N0: "?H \<le> length N0" "length N0 = maxHeight + 1" "\<And>i. i < maxHeight \<Longrightarrow> N0 ! i = nilNode"
    using w(2) by (simp_all add: N0_def del: replicate.simps)
  have "\<forall>i < ?H. linked m i (chain m i L)" using w(2,4) by auto
  note sl = splice_loop_finds [OF wf_sorted [OF assms(2), folded m_def] w(3) this P0(1) N0(1) P0(3), of False, unfolded c0]
  then obtain prev "next" ex where r: "splice_loop m k ?H P0 N0 False = Some (prev, next, ex)"
    "length prev = length P0" "length next = length N0"
    "\<forall>i < ?H. prev ! i = at_addr (prev_at m k i L) \<and> next ! i = first_of (not_below m k (chain m i L))"
    "\<forall>i \<ge> ?H. prev ! i = P0 ! i \<and> next ! i = N0 ! i" "ex = is_match m k (not_below m k L)"
    using w(1) by auto
  have "\<forall>i < maxHeight. (if i < ?H then prev ! i = at_addr (prev_at m k i L) else ptr (prev ! i) \<in> {None, Some (prev_at m k i L)}) \<and>
       next ! i = first_of (not_below m k (chain m i L))"
  proof (intro allI impI)
    fix i assume "i < maxHeight"
    then show "(if i < ?H then prev ! i = at_addr (prev_at m k i L) else ptr (prev ! i) \<in> {None, Some (prev_at m k i L)}) \<and>
       next ! i = first_of (not_below m k (chain m i L))" using r(4,5) top [of i] p [of i] P0(4) [of i] N0(3) [of i] by (cases "i < ?H") (auto simp: first_of_def)
  qed
  moreover have "length prev = maxHeight + 1" "length next = maxHeight + 1" using r(2,3) P0(2) N0(2) by simp_all
  ultimately show ?thesis unfolding N0_def [symmetric] P0_def [symmetric] using r(1,6) by blast
qed

lemma above_ge:
  assumes "sorted_wrt (\<lambda>a b. ky m a < ky m b) L" "a \<in> set (not_below m k L)"
  shows "k \<le> ky m a"
proof (cases "not_below m k L")
  case (Cons y ys)
  have "\<not> ky m y < k" using hd_dropWhile [of "\<lambda>a. ky m a < k" L] Cons by simp
  then have y: "k \<le> ky m y" by auto
  have "sorted_wrt (\<lambda>a b. ky m a < ky m b) (y # ys)"
    using assms(1) Cons takeWhile_dropWhile_id [of "\<lambda>a. ky m a < k" L] by (metis sorted_wrt_append)
  then show ?thesis using assms(2) Cons y by (auto intro: order.trans less_imp_le)
next
  case Nil
  then show ?thesis using assms(2) by (simp only: list.set empty_iff)
qed

lemma below_lt: "a \<in> set (below m k L) \<Longrightarrow> ky m a < k"
  by (meson set_takeWhileD)

lemma chain_append [simp]: "chain m i (xs @ ys) = chain m i xs @ chain m i ys"
  by (simp add: chain_def)

lemma none_while: "\<forall>a \<in> set Q. \<not> P a \<Longrightarrow> takeWhile P Q = [] \<and> dropWhile P Q = Q"
  by (cases Q) auto

lemma chain_below_above:
  assumes "sorted_wrt (\<lambda>a b. ky m a < ky m b) L"
  shows "below m k (chain m i L) = chain m i (below m k L)" "not_below m k (chain m i L) = chain m i (not_below m k L)"
proof -
  have s: "chain m i L = chain m i (below m k L) @ chain m i (not_below m k L)"
    by (metis chain_append takeWhile_dropWhile_id)
  have lt: "\<forall>a \<in> set (chain m i (below m k L)). ky m a < k" by (auto dest: below_lt)
  have ge: "\<forall>a \<in> set (chain m i (not_below m k L)). \<not> ky m a < k" 
  proof
    fix a assume "a \<in> set (chain m i (not_below m k L))"
    then have "k \<le> ky m a" using above_ge [OF assms, of a k] by simp
    then show "\<not> ky m a < k" by (rule leD)
  qed
  have nil: "below m k (chain m i (not_below m k L)) = []" "not_below m k (chain m i (not_below m k L)) = chain m i (not_below m k L)"
    using none_while [of "chain m i (not_below m k L)" "\<lambda>a. ky m a < k"] ge by blast+
  show "below m k (chain m i L) = chain m i (below m k L)"
    unfolding s using takeWhile_append2 [of "chain m i (below m k L)" "\<lambda>a. ky m a < k" "chain m i (not_below m k L)"] lt nil(1)
    by (metis append_Nil2)
  show "not_below m k (chain m i L) = chain m i (not_below m k L)"
    unfolding s using dropWhile_append2 [of "chain m i (below m k L)" "\<lambda>a. ky m a < k" "chain m i (not_below m k L)"] lt nil(2)
    by metis
qed

text \<open>The node that is replaced, if there is one, and the nodes after the key.\<close>

definition same_key :: "memory \<Rightarrow> bytes \<Rightarrow> arenaAddr list \<Rightarrow> arenaAddr list" where
  "same_key m k L = (if is_match m k (not_below m k L) then [hd (not_below m k L)] else [])"

definition beyond :: "memory \<Rightarrow> bytes \<Rightarrow> arenaAddr list \<Rightarrow> arenaAddr list" where
  "beyond m k L = (if is_match m k (not_below m k L) then tl (not_below m k L) else not_below m k L)"

lemma split_key: "L = below m k L @ same_key m k L @ beyond m k L" "not_below m k L = same_key m k L @ beyond m k L"
proof -
  show a: "not_below m k L = same_key m k L @ beyond m k L"
    by (auto simp: same_key_def beyond_def is_match_def split: list.splits)
  have "L = below m k L @ not_below m k L" by simp
  then show "L = below m k L @ same_key m k L @ beyond m k L" unfolding a .
qed

lemma beyond_gt:
  assumes "sorted_wrt (\<lambda>a b. ky m a < ky m b) L" "a \<in> set (beyond m k L)"
  shows "k < ky m a"
proof (cases "is_match m k (not_below m k L)")
  case True
  then obtain o' rest where o: "not_below m k L = o' # rest" "ky m o' = k" by (auto simp: is_match_def split: list.splits)
  have "sorted_wrt (\<lambda>a b. ky m a < ky m b) (not_below m k L)"
    using assms(1) takeWhile_dropWhile_id [of "\<lambda>a. ky m a < k" L] by (metis sorted_wrt_append)
  then show ?thesis using assms(2) True o by (auto simp: beyond_def)
next
  case False
  then have a: "a \<in> set (not_below m k L)" using assms(2) by (simp add: beyond_def)
  then have "k \<le> ky m a" using above_ge [OF assms(1)] by blast
  moreover have "ky m a \<noteq> k"
  proof
    assume k: "ky m a = k"
    obtain y ys where y: "not_below m k L = y # ys" using a by (cases "not_below m k L") (simp_all only: list.set empty_iff)
    have "sorted_wrt (\<lambda>a b. ky m a < ky m b) (y # ys)"
      using assms(1) y takeWhile_dropWhile_id [of "\<lambda>a. ky m a < k" L] by (metis sorted_wrt_append)
    moreover have "k \<le> ky m y" using above_ge [OF assms(1), of y k] y by simp
    ultimately have "a = y" using a y k by auto
    then show False using False y k by (simp add: is_match_def)
  qed
  ultimately show ?thesis by auto
qed

lemma first_of_addr [simp]: "na_addr (first_of xs) = hd (xs @ [nullAddr])"
  by (simp add: first_of_def split: list.split)

lemma first_of_ptr: "ptr (first_of xs) = (if xs = [] then None else Some (hd xs))"
  by (simp add: first_of_def split: list.split)

section \<open>Lookups\<close>

text \<open>One level of each search.\<close>

lemma findGreaterEqual_level:
  assumes "run m i a ys" "nullAddr \<notin> set ys"
  shows "findGreaterEqual_loop m k a i =
    (if is_match m k (not_below m k ys) then Some (Some (hd (not_below m k ys)), True)
     else if i > 0 then findGreaterEqual_loop m k (last (a # below m k ys)) (i - 1)
     else Some (ptr (first_of (not_below m k ys)), False))"
  using assms
proof (induction ys arbitrary: a)
  case Nil
  then show ?case by (subst findGreaterEqual_loop.simps) (simp add: is_match_def first_of_def)
next
  case (Cons y ys)
  then have n: "nx m i a = y" "y \<noteq> nullAddr" "run m i y ys" "nullAddr \<notin> set ys" by auto
  show ?case
  proof (cases "ky m y < k")
    case True
    then show ?thesis using Cons.IH [OF n(3,4)] n(1,2) by (subst findGreaterEqual_loop.simps) simp
  next
    case False
    then show ?thesis using n(1,2) by (subst findGreaterEqual_loop.simps) (auto simp: is_match_def first_of_def)
  qed
qed

lemma findLess_level:
  assumes "run m i a ys" "nullAddr \<notin> set ys"
  shows "findLess_loop m k eq a i =
    (if is_match m k (not_below m k ys) \<and> eq then Some (Some (hd (not_below m k ys)), True)
     else if i > 0 then findLess_loop m k eq (last (a # below m k ys)) (i - 1)
     else if last (a # below m k ys) = nullAddr then Some (None, False) else Some (Some (last (a # below m k ys)), False))"
  using assms
proof (induction ys arbitrary: a)
  case Nil
  then show ?case by (subst findLess_loop.simps) (simp add: is_match_def)
next
  case (Cons y ys)
  then have n: "nx m i a = y" "y \<noteq> nullAddr" "run m i y ys" "nullAddr \<notin> set ys" by auto
  show ?case
  proof (cases "ky m y < k")
    case True
    then show ?thesis using Cons.IH [OF n(3,4)] n(1,2) by (subst findLess_loop.simps) simp
  next
    case False
    then show ?thesis using n(1,2) by (subst findLess_loop.simps) (auto simp: is_match_def)
  qed
qed

lemma findLast_level:
  assumes "run m i a ys" "nullAddr \<notin> set ys"
  shows "findLast_loop m a i =
    (if i = 0 then (if last (a # ys) = nullAddr then Some None else Some (Some (last (a # ys)))) else findLast_loop m (last (a # ys)) (i - 1))"
  using assms
proof (induction ys arbitrary: a)
  case Nil
  then show ?case by (subst findLast_loop.simps) simp
next
  case (Cons y ys)
  then have n: "nx m i a = y" "y \<noteq> nullAddr" "run m i y ys" "nullAddr \<notin> set ys" by auto
  then show ?case using Cons.IH [OF n(3,4)] by (subst findLast_loop.simps) simp
qed

text \<open>A node with the key on some level is the first node not below the key.\<close>

lemma match_chain:
  assumes "sorted_wrt (\<lambda>a b. ky m a < ky m b) L" "is_match m k (not_below m k (chain m i L))"
  shows "is_match m k (not_below m k L)" "hd (not_below m k (chain m i L)) = hd (not_below m k L)"
proof -
  obtain y ys where y: "chain m i (not_below m k L) = y # ys" "ky m y = k"
    using assms(2) unfolding chain_below_above(2) [OF assms(1)] by (auto simp: is_match_def split: list.splits)
  have "y \<in> set (chain m i (not_below m k L))" using y(1) by simp
  then have yL: "y \<in> set (not_below m k L)" by simp
  then obtain z zs where z: "not_below m k L = z # zs" by (cases "not_below m k L") (simp_all only: list.set empty_iff)
  have "k \<le> ky m z" using above_ge [OF assms(1), of z k] z by simp
  moreover have "sorted_wrt (\<lambda>a b. ky m a < ky m b) (z # zs)"
    using assms(1) z takeWhile_dropWhile_id [of "\<lambda>a. ky m a < k" L] by (metis sorted_wrt_append)
  ultimately have "y = z" using yL z y(2) by auto
  then show "is_match m k (not_below m k L)" "hd (not_below m k (chain m i L)) = hd (not_below m k L)"
    using z y unfolding chain_below_above(2) [OF assms(1)] by (simp_all add: is_match_def)
qed

lemma match_first: "is_match m k xs \<Longrightarrow> ptr (first_of xs) = Some (hd xs)"
  by (simp add: is_match_def first_of_def split: list.splits)

lemma findGreaterEqual_from:
  assumes "chain m 0 L = L" "sorted_wrt (\<lambda>a b. ky m a < ky m b) L" "nullAddr \<notin> set L" "\<forall>j \<le> i. linked m j (chain m j L)" "i \<le> j"
  shows "findGreaterEqual_loop m k (prev_at m k j L) i = Some (ptr (first_of (not_below m k L)), is_match m k (not_below m k L))"
  using assms(4,5)
proof (induction i arbitrary: j)
  case 0
  then have l: "linked m 0 (chain m 0 L)" by simp
  obtain vs where v: "run m 0 (prev_at m k j L) vs" "nullAddr \<notin> set vs" "not_below m k vs = not_below m k (chain m 0 L)"
    by (rule level_run [OF assms(2,3) l 0(2)])
  show ?case unfolding findGreaterEqual_level [OF v(1,2)] v(3) assms(1)
    using match_first [of m k "not_below m k L"] by simp
next
  case (Suc i)
  then have l: "linked m (Suc i) (chain m (Suc i) L)" by simp
  obtain vs where v: "run m (Suc i) (prev_at m k j L) vs" "nullAddr \<notin> set vs" "not_below m k vs = not_below m k (chain m (Suc i) L)"
    "last (prev_at m k j L # below m k vs) = prev_at m k (Suc i) L"
    by (rule level_run [OF assms(2,3) l Suc.prems(2)])
  have "findGreaterEqual_loop m k (prev_at m k (Suc i) L) i = Some (ptr (first_of (not_below m k L)), is_match m k (not_below m k L))"
    using Suc.IH [of "Suc i"] Suc.prems by simp
  moreover have "hd (not_below m k (chain m (Suc i) L)) = hd (not_below m k L)" "is_match m k (not_below m k L)"
    "ptr (first_of (not_below m k L)) = Some (hd (not_below m k L))"
    if c: "is_match m k (not_below m k (chain m (Suc i) L))"
    using match_chain [OF assms(2) c] match_first [OF match_chain(1) [OF assms(2) c]] by blast+
  ultimately show ?case unfolding findGreaterEqual_level [OF v(1,2)] v(3,4) by simp
qed

definition last_below :: "memory \<Rightarrow> bytes \<Rightarrow> arenaAddr list \<Rightarrow> arenaAddr option" where
  "last_below m k L = (if below m k L = [] then None else Some (last (below m k L)))"

lemma findLess_from:
  assumes "chain m 0 L = L" "sorted_wrt (\<lambda>a b. ky m a < ky m b) L" "nullAddr \<notin> set L" "\<forall>j \<le> i. linked m j (chain m j L)" "i \<le> j"
  shows "findLess_loop m k eq (prev_at m k j L) i =
    Some (if eq \<and> is_match m k (not_below m k L) then (Some (hd (not_below m k L)), True) else (last_below m k L, False))"
  using assms(4,5)
proof (induction i arbitrary: j)
  case 0
  then have l: "linked m 0 (chain m 0 L)" by simp
  obtain vs where v: "run m 0 (prev_at m k j L) vs" "nullAddr \<notin> set vs" "not_below m k vs = not_below m k (chain m 0 L)"
    "last (prev_at m k j L # below m k vs) = prev_at m k 0 L"
    by (rule level_run [OF assms(2,3) l 0(2)])
  have "last (below m k L) \<noteq> nullAddr" if "below m k L \<noteq> []"
    using set_takeWhileD [OF last_in_set [OF that]] assms(3) by metis
  then show ?case unfolding findLess_level [OF v(1,2)] v(3,4) by (simp add: prev_at_def assms(1) last_below_def)
next
  case (Suc i)
  then have l: "linked m (Suc i) (chain m (Suc i) L)" by simp
  obtain vs where v: "run m (Suc i) (prev_at m k j L) vs" "nullAddr \<notin> set vs" "not_below m k vs = not_below m k (chain m (Suc i) L)"
    "last (prev_at m k j L # below m k vs) = prev_at m k (Suc i) L"
    by (rule level_run [OF assms(2,3) l Suc.prems(2)])
  show ?case unfolding findLess_level [OF v(1,2)] v(3,4)
    using Suc.IH [of "Suc i"] Suc.prems match_chain [OF assms(2), of k "Suc i"] by simp
qed

lemma findLast_from:
  assumes "chain m 0 L = L" "distinct L" "nullAddr \<notin> set L" "\<forall>j \<le> i. linked m j (chain m j L)" "i \<le> j"
  shows "findLast_loop m (last (nullAddr # chain m j L)) i = Some (if L = [] then None else Some (last L))"
  using assms(4,5)
proof (induction i arbitrary: j)
  have level: "\<exists>vs. run m i (last (nullAddr # chain m j L)) vs \<and> nullAddr \<notin> set vs \<and>
     last (last (nullAddr # chain m j L) # vs) = last (nullAddr # chain m i L)" if i: "i \<le> j" and l: "linked m i (chain m i L)" for i j
  proof (cases "chain m j L = []")
    case True
    then show ?thesis using l assms(3) by (intro exI [of _ "chain m i L"]) (simp add: linked_def)
  next
    case False
    then have "last (chain m j L) \<in> set (chain m j L)" by (rule last_in_set)
    then have "last (chain m j L) \<in> set (chain m i L)" using i by simp
    then obtain us vs where s: "chain m i L = us @ last (chain m j L) # vs" by (rule split_list [THEN exE]) blast
    moreover have "nullAddr \<notin> set (chain m i L)" using assms(3) by simp
    ultimately show ?thesis using linked_from [of m i "us @ [last (chain m j L)]" vs] l False
      by (intro exI [of _ vs]) simp
  qed
  {
    case 0
    obtain vs where v: "run m 0 (last (nullAddr # chain m j L)) vs" "nullAddr \<notin> set vs"
      "last (last (nullAddr # chain m j L) # vs) = last (nullAddr # chain m 0 L)" using level [of 0 j] 0 by auto
    have "last L \<noteq> nullAddr" if "L \<noteq> []" using last_in_set [OF that] assms(3) by metis
    then show ?case unfolding findLast_level [OF v(1,2)] v(3) assms(1) by simp
  next
    case (Suc i)
    obtain vs where v: "run m (Suc i) (last (nullAddr # chain m j L)) vs" "nullAddr \<notin> set vs"
      "last (last (nullAddr # chain m j L) # vs) = last (nullAddr # chain m (Suc i) L)" using level [of "Suc i" j] Suc.prems by auto
    show ?case unfolding findLast_level [OF v(1,2)] v(3) using Suc.IH [of "Suc i"] Suc.prems by simp
  }
qed

text \<open>What the three searches return on a well-formed list.\<close>

lemma find_spec:
  assumes "wf_db db L" "m = d_mem db"
  shows "findGreaterEqual db k = Some (ptr (first_of (not_below m k L)), is_match m k (not_below m k L))"
    and "findLess db k eq = Some (if eq \<and> is_match m k (not_below m k L) then (Some (hd (not_below m k L)), True) else (last_below m k L, False))"
    and "findLast db = Some (if L = [] then None else Some (last L))"
proof -
  have w: "1 \<le> d_height db" "nullAddr \<notin> set L" "\<forall>j \<le> d_height db - 1. linked m j (chain m j L)" "\<forall>a \<in> set L. 1 \<le> ht m a"
    using assms by (auto simp: wf_db_def Let_def wf_node_def)
  have c: "chain m 0 L = L" "chain m (d_height db) L = []" using w(4) wf_chain_top [OF assms(1)] assms(2) by (auto intro: chain_0)
  have s: "sorted_wrt (\<lambda>a b. ky m a < ky m b) L" using wf_sorted [OF assms(1)] assms(2) by simp
  have p: "prev_at m k (d_height db) L = nullAddr" by (simp add: prev_at_def c(2))
  show "findGreaterEqual db k = Some (ptr (first_of (not_below m k L)), is_match m k (not_below m k L))"
    using findGreaterEqual_from [OF c(1) s w(2,3) diff_le_self, of k] unfolding findGreaterEqual_def p assms(2) [symmetric] .
  show "findLess db k eq = Some (if eq \<and> is_match m k (not_below m k L) then (Some (hd (not_below m k L)), True) else (last_below m k L, False))"
    using findLess_from [OF c(1) s w(2,3) diff_le_self, of k eq] unfolding findLess_def p assms(2) [symmetric] .
  show "findLast db = Some (if L = [] then None else Some (last L))"
    using findLast_from [OF c(1) sorted_distinct [OF s] w(2,3) diff_le_self] unfolding findLast_def c(2) assms(2) [symmetric] by simp
qed

end
