(* ===== verification/Memdb_Update.thy ===== *)
theory Memdb_Update imports Memdb_Search begin

text \<open>
  Insertion, replacement and deletion keep a skip list well-formed.
\<close>

section \<open>Linking\<close>

lemma set_next_simps [simp]:
  "n_height (set_next m a i b c) = n_height (m c)" "keyLen (set_next m a i b c) = keyLen (m c)"
  "valLen (set_next m a i b c) = valLen (m c)" "n_buf (set_next m a i b c) = n_buf (m c)"
  "n_prev (set_next m a i b c) = n_prev (m c)" "length (nexts (set_next m a i b c)) = length (nexts (m c))"
  "getKey (set_next m a i b c) = getKey (m c)" "getValue_node (set_next m a i b c) = getValue_node (m c)"
  by (simp_all add: set_next_def getKey_def getValue_node_def)

lemma nx_set_next: "i < length (nexts (m a)) \<Longrightarrow> nx (set_next m a i b) j c = (if c = a \<and> j = i then b else nx m j c)"
  by (auto simp: set_next_def nth_list_update)

lemma set_prev_simps [simp]:
  "n_height (set_prev m a b c) = n_height (m c)" "keyLen (set_prev m a b c) = keyLen (m c)"
  "valLen (set_prev m a b c) = valLen (m c)" "n_buf (set_prev m a b c) = n_buf (m c)" "nexts (set_prev m a b c) = nexts (m c)"
  "getKey (set_prev m a b c) = getKey (m c)" "getValue_node (set_prev m a b c) = getValue_node (m c)"
  "n_prev (set_prev m a b c) = (if c = a then b else n_prev (m c))"
  by (simp_all add: set_prev_def getKey_def getValue_node_def)

text \<open>Memories that differ in links only.\<close>

definition same_data :: "memory \<Rightarrow> memory \<Rightarrow> bool" where
  "same_data m m' = (\<forall>a. n_height (m' a) = n_height (m a) \<and> keyLen (m' a) = keyLen (m a) \<and> valLen (m' a) = valLen (m a) \<and>
     n_buf (m' a) = n_buf (m a) \<and> length (nexts (m' a)) = length (nexts (m a)))"

lemma same_data_refl [simp]: "same_data m m" by (simp add: same_data_def)

lemma same_data_set [simp]:
  "same_data m (set_next m' a i b) \<longleftrightarrow> same_data m m'" "same_data m (set_prev m' a b) \<longleftrightarrow> same_data m m'"
  by (simp_all add: same_data_def)

lemma same_dataD:
  assumes "same_data m m'"
  shows "n_height (m' a) = n_height (m a)" "keyLen (m' a) = keyLen (m a)" "valLen (m' a) = valLen (m a)"
    "getKey (m' a) = getKey (m a)" "getValue_node (m' a) = getValue_node (m a)" "length (nexts (m' a)) = length (nexts (m a))"
    "entry m' a = entry m a" "chain m' i L = chain m i L" "wf_node H (m' a) = wf_node H (m a)"
proof -
  show d: "n_height (m' a) = n_height (m a)" "keyLen (m' a) = keyLen (m a)" "valLen (m' a) = valLen (m a)"
    "getKey (m' a) = getKey (m a)" "getValue_node (m' a) = getValue_node (m a)" "length (nexts (m' a)) = length (nexts (m a))" for a
    using assms by (simp_all add: same_data_def getKey_def getValue_node_def)
  then show "entry m' a = entry m a" "chain m' i L = chain m i L" "wf_node H (m' a) = wf_node H (m a)"
    by (simp_all add: entry_def chain_def wf_node_def)
qed

definition prev_ptr :: "nodeWithAddr list \<Rightarrow> nat \<Rightarrow> arenaAddr" where
  "prev_ptr prev i = (case ptr (prev ! i) of None \<Rightarrow> nullAddr | Some a \<Rightarrow> a)"

lemma Put_link_fold:
  assumes "h \<le> maxHeight" "h < length prev" "\<forall>i < h. prev_ptr prev i \<noteq> x \<and> length (nexts (m (prev_ptr prev i))) = maxHeight"
    and "length (nexts (m x)) = maxHeight"
  shows "\<exists>m' prev'. foldl (Put_link x next) (m, prev) [0..<h] = (m', prev') \<and> same_data m m' \<and>
    (\<forall>a. n_prev (m' a) = n_prev (m a)) \<and>
    (\<forall>i a. nx m' i a = (if i < h \<and> a = x then na_addr (next ! i) else if i < h \<and> a = prev_ptr prev i then x else nx m i a)) \<and>
    length prev' = length prev \<and> (\<forall>i < h. ptr (prev' ! i) = Some (prev_ptr prev i) \<and> (ptr (prev ! i) \<noteq> None \<longrightarrow> prev' ! i = prev ! i)) \<and>
    (\<forall>i \<ge> h. prev' ! i = prev ! i)"
  using assms(1-3)
proof (induction h)
  case (Suc h)
  then obtain m1 prev1 where r: "foldl (Put_link x next) (m, prev) [0..<h] = (m1, prev1)" "same_data m m1"
    "\<forall>a. n_prev (m1 a) = n_prev (m a)"
    "\<forall>i a. nx m1 i a = (if i < h \<and> a = x then na_addr (next ! i) else if i < h \<and> a = prev_ptr prev i then x else nx m i a)"
    "length prev1 = length prev" "\<forall>i < h. ptr (prev1 ! i) = Some (prev_ptr prev i) \<and> (ptr (prev ! i) \<noteq> None \<longrightarrow> prev1 ! i = prev ! i)"
    "\<forall>i \<ge> h. prev1 ! i = prev ! i" by auto
  let ?p = "prev_ptr prev h"
  let ?m = "set_next (set_next m1 x h (na_addr (next ! h))) ?p h x"
  let ?prev = "if ptr (prev1 ! h) = None then prev1[h := headNode] else prev1"
  have len: "length (nexts (m1 x)) = maxHeight" "length (nexts (m1 ?p)) = maxHeight" "?p \<noteq> x"
    using Suc.prems assms(4) same_dataD(6) [OF r(2)] by auto
  have p: "ptr (?prev ! h) = Some ?p" using r(5,7) Suc.prems by (auto simp: prev_ptr_def split: option.split)
  have "foldl (Put_link x next) (m, prev) [0..<Suc h] = (?m, ?prev)"
    using p by (simp add: r(1) Put_link_def)
  moreover have "nx ?m i a = (if i < Suc h \<and> a = x then na_addr (next ! i) else if i < Suc h \<and> a = prev_ptr prev i then x else nx m i a)" for i a
  proof -
    have "nx ?m i a = (if a = ?p \<and> i = h then x else nx (set_next m1 x h (na_addr (next ! h))) i a)"
      using len Suc.prems(1) by (intro nx_set_next) simp
    also have "nx (set_next m1 x h (na_addr (next ! h))) i a = (if a = x \<and> i = h then na_addr (next ! h) else nx m1 i a)"
      using len Suc.prems(1) by (intro nx_set_next) simp
    finally show ?thesis using r(4) len(3) by (auto simp: less_Suc_eq)
  qed
  moreover have "\<forall>i < Suc h. ptr (?prev ! i) = Some (prev_ptr prev i) \<and> (ptr (prev ! i) \<noteq> None \<longrightarrow> ?prev ! i = prev ! i)"
    using r(5-7) p Suc.prems by (auto simp: less_Suc_eq nth_list_update)
  moreover have "\<forall>i \<ge> Suc h. ?prev ! i = prev ! i" "length ?prev = length prev" using r(5,7) by auto
  ultimately show ?case using r(2,3) by auto
qed simp

section \<open>Replacing a stretch of a level\<close>

lemma linked_join:
  assumes "linked m i (xs @ zs @ ys)" "distinct (xs @ ys)" "nullAddr \<notin> set (xs @ ys)"
    and "zs' = [] \<or> zs' = [z] \<and> nx m' i z = hd (ys @ [nullAddr])" "nx m' i (last (nullAddr # xs)) = hd (zs' @ ys @ [nullAddr])"
    and "\<And>a. a \<in> set (nullAddr # xs @ ys) \<Longrightarrow> a \<noteq> last (nullAddr # xs) \<Longrightarrow> nx m' i a = nx m i a"
  shows "linked m' i (xs @ zs' @ ys)"
proof -
  let ?R = "\<lambda>m a b. nx m i a = b"
  have "successively (?R m) ((nullAddr # xs) @ zs @ ys @ [nullAddr])" using assms(1) by (simp add: linked_def)
  then have xs: "successively (?R m) (nullAddr # xs)" and ys: "successively (?R m) (ys @ [nullAddr])"
    unfolding successively_append_iff by blast+
  have d: "distinct (nullAddr # xs)" "distinct (ys @ [nullAddr])" using assms(2,3) by simp_all
  have "nx m' i a = nx m i a" if "a \<in> set (nullAddr # xs)" "a \<noteq> last (nullAddr # xs)" for a
    by (rule assms(6)) (use that in auto)
  then have 1: "successively (?R m') (nullAddr # xs)" by (intro successively_change [OF xs d(1)]) metis
  have "last (nullAddr # xs) \<in> set (nullAddr # xs)" by (rule last_in_set) simp
  then have "last (nullAddr # xs) \<notin> set ys" using assms(2,3) by (auto simp del: last.simps)
  then have "nx m' i a = nx m i a" if "a \<in> set (ys @ [nullAddr])" "a \<noteq> last (ys @ [nullAddr])" for a
    using that by (intro assms(6)) (auto simp del: last.simps)
  then have 2: "successively (?R m') (ys @ [nullAddr])" by (intro successively_change [OF ys d(2)]) metis
  have "successively (?R m') (zs' @ ys @ [nullAddr])"
    using assms(4) 2 by (elim disjE) (simp_all only: successively_Cons append.simps simp_thms)
  then have "successively (?R m') ((nullAddr # xs) @ zs' @ ys @ [nullAddr])"
    unfolding successively_append_iff [of _ "nullAddr # xs"] using 1 assms(5) by simp
  then show ?thesis by (simp add: linked_def)
qed

lemma back_links_cong:
  "successively (\<lambda>a b. n_prev (m b) = a) xs \<Longrightarrow> \<forall>a \<in> set (tl xs). n_prev (m' a) = n_prev (m a) \<Longrightarrow>
   successively (\<lambda>a b. n_prev (m' b) = a) xs"
  by (induction xs rule: induct_list012) auto

lemma plinked_join:
  assumes "plinked m (xs @ zs @ ys)" "zs' = [] \<and> p = last (nullAddr # xs) \<or> zs' = [p] \<and> n_prev (m' p) = last (nullAddr # xs)"
    and "ys \<noteq> [] \<Longrightarrow> n_prev (m' (hd ys)) = p" "\<And>a. a \<in> set (xs @ tl ys) \<Longrightarrow> n_prev (m' a) = n_prev (m a)"
  shows "plinked m' (xs @ zs' @ ys)"
proof -
  let ?R = "\<lambda>m a b. n_prev (m b) = a"
  have "successively (?R m) ((nullAddr # xs) @ zs @ ys)" using assms(1) by (simp add: plinked_def)
  then have "successively (?R m) (nullAddr # xs)" "successively (?R m) ys" unfolding successively_append_iff by blast+
  then have "successively (?R m') (nullAddr # xs)" "successively (?R m') ys"
    using assms(4) by (auto intro: back_links_cong [where m = m])
  then have "successively (?R m') ((nullAddr # xs) @ zs' @ ys)"
    unfolding successively_append_iff [of _ "nullAddr # xs"] using assms(2,3)
    by (cases ys) (auto simp: successively_append_iff)
  then show ?thesis by (simp add: plinked_def)
qed

lemma linked_same:
  assumes "linked m i xs" "nullAddr \<notin> set xs" "distinct xs" "\<And>a. a = nullAddr \<or> a \<in> set xs \<Longrightarrow> nx m' i a = nx m i a"
  shows "linked m' i xs"
proof -
  have "successively (\<lambda>a b. nx m i a = b) ((nullAddr # xs) @ [nullAddr])" using assms(1) by (simp add: linked_def)
  then have "successively (\<lambda>a b. nx m i a = b) (nullAddr # xs)" "nx m i (last (nullAddr # xs)) = nullAddr"
    unfolding successively_append_iff by simp_all
  moreover have "successively (\<lambda>a b. nx m' i a = b) (nullAddr # xs)"
    by (rule successively_change [OF calculation(1)]) (use assms(2-4) in auto)
  ultimately have "successively (\<lambda>a b. nx m' i a = b) ((nullAddr # xs) @ [nullAddr])"
    unfolding successively_append_iff using assms(4) [of "last (nullAddr # xs)"] by auto
  then show ?thesis by (simp add: linked_def)
qed

section \<open>Insertion\<close>

lemma randomHeight_loop_bounds: "1 \<le> h \<Longrightarrow> h \<le> maxHeight \<Longrightarrow> 1 \<le> randomHeight_loop n rnd h \<and> randomHeight_loop n rnd h \<le> maxHeight"
  by (induction n arbitrary: h) auto

lemma randomHeight_bounds: "1 \<le> randomHeight rnd" "randomHeight rnd \<le> maxHeight"
  using randomHeight_loop_bounds [of 1 maxHeight rnd] by (simp_all add: randomHeight_def maxHeight_def)

lemma newNode_ok:
  assumes "arena_ok ar" "length (blocks ar) < 2 ^ 32 - 2" "length key < 2 ^ 16" "length v < 2 ^ 32" "1 \<le> h" "h \<le> maxHeight"
  obtains x n ar' sz where "newNode m ar key v h = Some (x, m(x := n), ar')" "fresh_region ar x ar' sz" "0 < sz"
    "unat (n_height n) = h" "getKey n = key" "getValue_node n = v" "unat (keyLen n) = length key" "unat (valLen n) = length v"
    "length (nexts n) = maxHeight"
proof -
  let ?sz = "nodeHeaderSize + h * 8 + 8 + length key + length v"
  obtain x ar' where a: "alloc ar ?sz = Some (x, ar')" "fresh_region ar x ar' ?sz"
    using alloc_fresh [OF assms(1,2), of ?sz] by auto
  have l: "unat (of_nat (length key) :: 16 word) = length key" "unat (of_nat (length v) :: 32 word) = length v"
    "unat (of_nat h :: 16 word) = h"
    using assms(3-6) by (simp_all add: unat_of_nat maxHeight_def)
  let ?n = "\<lparr>n_height = of_nat h, keyLen = of_nat (length key), valLen = of_nat (length v), n_prev = nullAddr,
      nexts = replicate maxHeight nullAddr, n_buf = key @ v\<rparr>"
  have "newNode m ar key v h = Some (x, m(x := ?n), ar')"
    using a(1) l(1) by (simp add: newNode_def copy_at_def Let_def del: of_nat_add)
  then show ?thesis using that a(2) l by (simp add: getKey_def getValue_node_def)
qed

lemma prepareOverwrite_fold:
  assumes "h \<le> length next" "\<forall>i < h. na_addr (next ! i) = na_addr old"
  shows "length (foldl (prepareOverwrite_next m old) next [0..<h]) = length next \<and>
    (\<forall>i < h. let a = nx m i (the (ptr old)) in foldl (prepareOverwrite_next m old) next [0..<h] ! i =
       (if isNull a then (next ! i)\<lparr>na_addr := a\<rparr> else at_addr a)) \<and>
    (\<forall>i \<ge> h. foldl (prepareOverwrite_next m old) next [0..<h] ! i = next ! i)"
  using assms
proof (induction h)
  case (Suc h)
  let ?f = "foldl (prepareOverwrite_next m old) next [0..<h]"
  have IH: "length ?f = length next" "\<forall>i < h. let a = nx m i (the (ptr old)) in ?f ! i = (if isNull a then (next ! i)\<lparr>na_addr := a\<rparr> else at_addr a)"
    "\<forall>i \<ge> h. ?f ! i = next ! i" using Suc by auto
  have "foldl (prepareOverwrite_next m old) next [0..<Suc h] = prepareOverwrite_next m old ?f h" by simp
  also have "\<dots> = ?f[h := (let a = nx m h (the (ptr old)) in if isNull a then (next ! h)\<lparr>na_addr := a\<rparr> else at_addr a)]"
    using IH(3) Suc.prems(2) by (simp add: prepareOverwrite_next_def Let_def)
  finally show ?case using IH Suc.prems(1) by (auto simp: less_Suc_eq nth_list_update Let_def)
qed simp

lemma Put_links_effect:
  assumes "foldl (Put_link x next) (m, prev) [0..<h] = (m', prev')" "h \<le> maxHeight" "h < length prev"
    and "\<forall>i < h. prev_ptr prev i \<noteq> x \<and> length (nexts (m (prev_ptr prev i))) = maxHeight" "length (nexts (m x)) = maxHeight"
  shows "same_data m m'" "n_prev (m' a) = n_prev (m a)"
    "nx m' i a = (if i < h \<and> a = x then na_addr (next ! i) else if i < h \<and> a = prev_ptr prev i then x else nx m i a)"
    "\<forall>i < h. ptr (prev' ! i) = Some (prev_ptr prev i) \<and> (ptr (prev ! i) \<noteq> None \<longrightarrow> prev' ! i = prev ! i)"
  using Put_link_fold [OF assms(2-5), of "next"] assms(1) by auto

lemma prev_at_last:
  assumes "sorted_wrt (\<lambda>a b. ky m a < ky m b) L"
  shows "prev_at m k i L = last (nullAddr # chain m i (below m k L))" "prev_at m k i L \<in> insert nullAddr (set L)"
proof -
  show p: "prev_at m k i L = last (nullAddr # chain m i (below m k L))"
    using chain_below_above(1) [OF assms, of k i] by (simp add: prev_at_def)
  have "last (nullAddr # chain m i (below m k L)) \<in> set (nullAddr # chain m i (below m k L))" by (rule last_in_set) simp
  then show "prev_at m k i L \<in> insert nullAddr (set L)" unfolding p by (auto dest: set_takeWhileD simp del: last.simps)
qed

lemma chain_fresh:
  assumes "x \<notin> set (B @ A)"
  shows "chain (m(x := n)) i (B @ x # A) = chain m i B @ (if i < unat (n_height n) then [x] else []) @ chain m i A"
proof -
  have "chain (m(x := n)) i xs = chain m i xs" if "x \<notin> set xs" for xs using that unfolding chain_def by (intro filter_cong) auto
  then show ?thesis using assms by (simp add: chain_def)
qed

text \<open>The links after a node has been put between \<open>B\<close> and \<open>A\<close>, in the place of \<open>zs\<close>.\<close>

lemma put_links:
  assumes m: "m = d_mem db" and wf_db: "wf_db db L" and L: "L = B @ zs @ A" and B: "B = below m k L"
    and x: "x \<notin> set L" "x \<noteq> nullAddr" and n: "unat (n_height n) = h" "1 \<le> h" "h \<le> maxHeight" "length (nexts n) = maxHeight"
    and zs: "\<forall>z \<in> set zs. ht m z = h"
    and prev: "h < length prev" "\<forall>i < h. prev_ptr prev i = prev_at m k i L"
    and nxt: "\<forall>i < h. na_addr (next ! i) = hd (chain m i A @ [nullAddr])"
    and fold: "foldl (Put_link x next) (m(x := n), prev) [0..<h] = (m1, prev1)"
  shows "same_data (m(x := n)) m1" "\<forall>a. n_prev (m1 a) = n_prev ((m(x := n)) a)"
    and "\<forall>i < maxHeight. linked m1 i (chain (m(x := n)) i (B @ x # A))"
    and "\<forall>i < h. ptr (prev1 ! i) = Some (prev_at m k i L) \<and> (ptr (prev ! i) \<noteq> None \<longrightarrow> prev1 ! i = prev ! i)"
proof -
  let ?m0 = "m(x := n)"
  have w: "nullAddr \<notin> set L" "\<forall>i < maxHeight. linked m i (chain m i L)" "distinct L"
    "\<forall>a \<in> insert nullAddr (set L). length (nexts (m a)) = maxHeight"
    using wf_db sorted_distinct [OF wf_sorted [OF wf_db]] by (auto simp: wf_db_def Let_def m wf_node_def)
  have sorted: "sorted_wrt (\<lambda>a b. ky m a < ky m b) L" using wf_sorted [OF wf_db] by (simp add: m)
  note pa = prev_at_last(1) [OF sorted, of k, folded B]
  have "prev_at m k i L \<in> insert nullAddr (set L)" for i using prev_at_last(2) [OF sorted] .
  then have p: "\<forall>i < h. prev_ptr prev i \<noteq> x \<and> length (nexts (?m0 (prev_ptr prev i))) = maxHeight"
    using prev(2) x w(4) by (metis fun_upd_other insert_iff)
  have "length (nexts (?m0 x)) = maxHeight" using n(4) by simp
  note r = Put_links_effect [OF fold n(3) prev(1) p this]
  show "same_data ?m0 m1" by (rule r(1))
  show "\<forall>a. n_prev (m1 a) = n_prev (?m0 a)" using r(2) by blast
  show "\<forall>i < h. ptr (prev1 ! i) = Some (prev_at m k i L) \<and> (ptr (prev ! i) \<noteq> None \<longrightarrow> prev1 ! i = prev ! i)" using r(4) prev(2) by simp
  have "x \<notin> set (B @ A)" using x(1) L by auto
  note c = chain_fresh [OF this, of m n, unfolded n(1)]
  show "\<forall>i < maxHeight. linked m1 i (chain ?m0 i (B @ x # A))"
  proof (intro allI impI)
    fix i assume i: "i < maxHeight"
    have split: "chain m i L = chain m i B @ chain m i zs @ chain m i A" using L by simp
    have lk: "linked m i (chain m i B @ chain m i zs @ chain m i A)" using w(2) [rule_format, OF i] unfolding split .
    have d: "distinct (chain m i B @ chain m i zs @ chain m i A)" using w(3) unfolding split [symmetric] by (simp add: chain_def)
    have nn: "nullAddr \<notin> set (chain m i B @ chain m i zs @ chain m i A)" using w(1) L by auto
    have nxm: "a \<noteq> x \<Longrightarrow> nx ?m0 i a = nx m i a" for a by simp
    show "linked m1 i (chain ?m0 i (B @ x # A))"
    proof (cases "i < h")
      case True
      have "linked m1 i (chain m i B @ [x] @ chain m i A)"
      proof (rule linked_join [OF lk])
        show "distinct (chain m i B @ chain m i A)" "nullAddr \<notin> set (chain m i B @ chain m i A)" using d nn by auto
        show "[x] = [] \<or> [x] = [x] \<and> nx m1 i x = hd (chain m i A @ [nullAddr])" using r(3) True nxt by simp
        have "nx m1 i (last (nullAddr # chain m i B)) = x" using r(3) True prev(2) p pa [of i] by (metis (no_types))
        then show "nx m1 i (last (nullAddr # chain m i B)) = hd ([x] @ chain m i A @ [nullAddr])" by (simp del: last.simps)
        show "nx m1 i a = nx m i a" if a: "a \<in> set (nullAddr # chain m i B @ chain m i A)" "a \<noteq> last (nullAddr # chain m i B)" for a
        proof -
          have "a \<noteq> x" using a(1) x L by auto
          then show ?thesis using r(3) a(2) True prev(2) pa [of i] nxm by (metis (no_types))
        qed
      qed
      then show ?thesis unfolding c using True by simp
    next
      case False
      have "chain m i zs = []" using zs False by (intro chain_Nil) auto
      then have "linked m i (chain m i B @ chain m i A)" using lk by simp
      then have "linked m1 i (chain m i B @ chain m i A)"
        by (rule linked_same) (use nn d r(3) False x L in auto)
      then show ?thesis unfolding c using False by simp
    qed
  qed
qed

definition room :: "DB \<Rightarrow> bool" where
  "room db = (length (blocks (d_arena db)) < 2 ^ 32 - 2)"

lemma linked_next:
  assumes "linked m i (xs @ y # ys)"
  shows "nx m i y = hd (ys @ [nullAddr])"
proof -
  have "successively (\<lambda>a b. nx m i a = b) ((nullAddr # xs) @ (y # ys @ [nullAddr]))" using assms by (simp add: linked_def)
  then have "successively (\<lambda>a b. nx m i a = b) (y # ys @ [nullAddr])" unfolding successively_append_iff by blast
  then show ?thesis by (simp add: successively_Cons)
qed

lemma overwrite_next:
  assumes "m = d_mem db" "wf_db db L" "length next = maxHeight + 1"
    and "\<forall>i < maxHeight. next ! i = first_of (not_below m k (chain m i L))"
    and "same_key m k L = [o']" "next' = foldl (prepareOverwrite_next m (next ! 0)) next [0..<ht m o']"
  shows "\<forall>i < ht m o'. na_addr (next' ! i) = hd (chain m i (beyond m k L) @ [nullAddr])"
    and "ptr (next' ! 0) = Some (if beyond m k L = [] then o' else hd (beyond m k L))" "ht m o' \<le> d_height db" "1 \<le> ht m o'"
proof -
  have sorted: "sorted_wrt (\<lambda>a b. ky m a < ky m b) L" using wf_sorted [OF assms(2)] assms(1) by simp
  have L: "L = below m k L @ o' # beyond m k L" "not_below m k L = o' # beyond m k L" using split_key [where L = L and m = m and k = k] assms(5) by simp_all
  have "set L = set (below m k L @ o' # beyond m k L)" using L(1) by (rule arg_cong)
  then have o: "o' \<in> set L" and sub: "set (beyond m k L) \<subseteq> set L" by auto
  have w: "d_height db \<le> maxHeight" "\<forall>i < maxHeight. linked m i (chain m i L)" "\<forall>a \<in> set L. wf_node (d_height db) (m a)"
    "nullAddr \<notin> set L" using assms(1,2) by (auto simp: wf_db_def Let_def)
  show h: "ht m o' \<le> d_height db" "1 \<le> ht m o'" using w(3) o by (auto simp: wf_node_def)
  have c: "not_below m k (chain m i L) = o' # chain m i (beyond m k L)" if "i < ht m o'" for i
    unfolding chain_below_above(2) [OF sorted] L(2) using that by (simp add: chain_def)
  have nxo: "nx m i o' = hd (chain m i (beyond m k L) @ [nullAddr])" if "i < ht m o'" for i
  proof -
    have "chain m i L = chain m i (below m k L) @ o' # chain m i (beyond m k L)"
      using c [OF that] chain_below_above [OF sorted, of k i] by (metis takeWhile_dropWhile_id)
    then show ?thesis using w(2) [rule_format, of i] that h(1) w(1) linked_next by (metis order.strict_trans2)
  qed
  have n0: "next ! 0 = at_addr o'" using assms(4) c [of 0] h w(1) by (simp add: first_of_def)
  have "\<forall>i < ht m o'. na_addr (next ! i) = na_addr (next ! 0)" using n0 assms(4) c h(1) w(1) by simp
  then have f: "\<forall>i < ht m o'. next' ! i = (if isNull (nx m i o') then (next ! i)\<lparr>na_addr := nx m i o'\<rparr> else at_addr (nx m i o'))"
    using prepareOverwrite_fold [of "ht m o'" "next" "next ! 0" m] assms(3,6) h(1) w(1) n0 by (simp add: Let_def)
  have "na_addr (next' ! i) = hd (chain m i (beyond m k L) @ [nullAddr])" if "i < ht m o'" for i
    unfolding f [rule_format, OF that] nxo [OF that, symmetric] by simp
  then show "\<forall>i < ht m o'. na_addr (next' ! i) = hd (chain m i (beyond m k L) @ [nullAddr])" by blast
  have c0: "chain m 0 (beyond m k L) = beyond m k L"
    using w(3) sub by (intro chain_0) (auto simp: wf_node_def)
  have "hd (beyond m k L) \<noteq> nullAddr" if "beyond m k L \<noteq> []"
    using hd_in_set [OF that] subsetD [OF sub] w(4) by metis
  moreover have z: "0 < ht m o'" using h(2) by simp
  ultimately show "ptr (next' ! 0) = Some (if beyond m k L = [] then o' else hd (beyond m k L))"
    unfolding f [rule_format, OF z] nxo [OF z] c0 n0 by simp
qed

text \<open>A well-formed list stays one when a node takes the place of the nodes with its key.\<close>

lemma put_wf:
  assumes m: "m = d_mem db" and wf: "wf_db db L" and L: "L = B @ zs @ A"
    and B: "\<forall>a \<in> set B. ky m a < k" and A: "\<forall>a \<in> set A. k < ky m a"
    and x: "x \<notin> set L" and fresh: "fresh_region (d_arena db) x ar sz" "0 < sz"
    and n: "wf_node H n" "getKey n = k" and H: "d_height db \<le> H" "H \<le> maxHeight"
    and same: "same_data (m(x := n)) m'"
    and links: "\<forall>i < maxHeight. linked m' i (chain (m(x := n)) i (B @ x # A))" "plinked m' (B @ x # A)"
    and db': "d_mem db' = m'" "d_height db' = H" "d_arena db' = ar" "d_length db' = d_length db - int (length zs) + 1"
      "d_size db' = d_size db - (\<Sum>a \<leftarrow> zs. int (unat (keyLen (m a))) + int (unat (valLen (m a)))) + int (unat (keyLen n)) + int (unat (valLen n))"
  shows "wf_db db' (B @ x # A)"
proof -
  have w: "1 \<le> d_height db" "nullAddr \<notin> set L" "length (nexts (m nullAddr)) = maxHeight" 
    "\<forall>a \<in> set L. wf_node (d_height db) (m a) \<and> taken (d_arena db) a 1" "sorted_wrt (\<lambda>a b. ky m a < ky m b) L"
    "d_length db = int (length L)" "d_size db = (\<Sum>a \<leftarrow> L. int (unat (keyLen (m a))) + int (unat (valLen (m a))))"
    using wf by (simp_all add: wf_db_def Let_def m)
  have f: "arena_ok ar" "x \<noteq> nullAddr" "taken ar x sz" "\<And>a. taken (d_arena db) a 1 \<Longrightarrow> taken ar a 1"
    using fresh by (auto simp: fresh_region_def)
  have x1: "taken ar x 1" using f(3) fresh(2) by (auto simp: taken_def)
  have old: "(m(x := n)) a = m a" if "a \<in> set (B @ A)" for a using that x L by auto
  note sd = same_dataD [OF same]
  have node: "wf_node H (m' a) \<and> taken ar a 1" if "a \<in> set (B @ x # A)" for a
  proof (cases "a = x")
    case False
    then have a: "a \<in> set (B @ A)" using that by simp
    then have "wf_node (d_height db) (m a)" "taken (d_arena db) a 1" using w(4) L by auto
    then show ?thesis using sd(9) [of H a] old [OF a] f(4) H(1) by (auto simp: wf_node_def)
  next
    case True
    then show ?thesis using sd(9) [of H x] n(1) x1 by simp
  qed
  have kys: "ky m' x = k" "\<And>a. a \<in> set (B @ A) \<Longrightarrow> ky m' a = ky m a" using sd(4) n(2) old by simp_all
  have "sorted_wrt (\<lambda>a b. ky m a < ky m b) B" "sorted_wrt (\<lambda>a b. ky m a < ky m b) A" 
    "\<forall>a \<in> set B. \<forall>b \<in> set A. ky m a < ky m b"
    using w(5) unfolding L by (auto simp: sorted_wrt_append)
  moreover from this have "sorted_wrt (\<lambda>a b. ky m' a < ky m' b) B" "sorted_wrt (\<lambda>a b. ky m' a < ky m' b) A"
    using kys(2) by (auto elim!: sorted_wrt_mono_rel [rotated])
  ultimately have "sorted_wrt (\<lambda>a b. ky m' a < ky m' b) (B @ x # A)"
    using A B kys by (simp add: sorted_wrt_append)
  moreover have "chain m' i (B @ x # A) = chain (m(x := n)) i (B @ x # A)" for i by (rule sd(8))
  moreover have lens: "keyLen (m' a) = keyLen (m a)" "valLen (m' a) = valLen (m a)" if "a \<in> set (B @ A)" for a
    using sd(2,3) [of a] old [OF that] by simp_all
  moreover have sz: "(\<Sum>a \<leftarrow> xs. int (unat (keyLen (m' a))) + int (unat (valLen (m' a)))) =
    (\<Sum>a \<leftarrow> xs. int (unat (keyLen (m a))) + int (unat (valLen (m a))))" if "set xs \<subseteq> set (B @ A)" for xs
    proof (intro arg_cong [where f = sum_list] map_cong refl)
    fix a assume "a \<in> set xs"
    then have "a \<in> set (B @ A)" using that by blast
    from lens [OF this] show "int (unat (keyLen (m' a))) + int (unat (valLen (m' a))) = int (unat (keyLen (m a))) + int (unat (valLen (m a)))" by simp
  qed
  moreover have "d_size db' = (\<Sum>a \<leftarrow> B @ x # A. int (unat (keyLen (m' a))) + int (unat (valLen (m' a))))"
    using sz [of A] sz [of B] sd(2,3) [of x] w(7) unfolding db' L by simp
  moreover have "length (nexts (m' nullAddr)) = maxHeight" using sd(6) [of nullAddr] w(3) f(2) by simp
  moreover have "nullAddr \<notin> set (B @ x # A)" using w(2) L f(2) by auto
  ultimately show ?thesis unfolding wf_db_def Let_def db' using w(1,6) H node f(1) links L
    by (simp only: simp_thms) simp
qed

text \<open>The back links after the two writes of \<open>Put\<close>.\<close>

lemma put_plinked:
  assumes "plinked m (B @ zs @ A)" "distinct (B @ zs @ A)" "x \<notin> set (B @ zs @ A)"
    and "\<forall>a. a \<noteq> x \<longrightarrow> n_prev (m1 a) = n_prev (m a)" "p = last (nullAddr # B)"
    and "nx0 = (if A = [] then zs' else Some (hd A))" "zs' = None \<or> zs' = Some z \<and> z \<in> set zs"
  shows "plinked (case nx0 of None \<Rightarrow> set_prev m1 x p | Some y \<Rightarrow> set_prev (set_prev m1 x p) y x) (B @ x # A)" (is "plinked ?m _")
proof -
  have y: "y \<noteq> x" if "nx0 = Some y" for y using that assms(3,6,7) by (cases A) (auto split: if_splits)
  have "plinked ?m (B @ [x] @ A)"
  proof (rule plinked_join [OF assms(1), where p = x])
    have "n_prev (?m x) = last (nullAddr # B)" using y assms(5) by (simp del: last.simps split: option.split) blast
    then show "[x] = [] \<and> x = last (nullAddr # B) \<or> [x] = [x] \<and> n_prev (?m x) = last (nullAddr # B)" by (intro disjI2 conjI refl)
    show "n_prev (?m (hd A)) = x" if "A \<noteq> []" using that assms(6) by simp
    show "n_prev (?m a) = n_prev (m a)" if a: "a \<in> set (B @ tl A)" for a
    proof -
      have "a \<noteq> x" using a assms(3) by (cases A) auto
      moreover have "a \<noteq> y" if "nx0 = Some y" for y
        using that a assms(2,6,7) by (cases A) auto
      ultimately show ?thesis using assms(4) by (auto split: option.split)
    qed
  qed
  then show ?thesis by simp
qed

text \<open>From the search result on, \<open>Put\<close> is the same for a new key and for one that is replaced.\<close>

definition Put_tail :: "DB \<Rightarrow> bytes \<Rightarrow> bytes \<Rightarrow> nat \<Rightarrow> nodeWithAddr list \<Rightarrow> nat \<Rightarrow> nodeWithAddr list \<Rightarrow> DB option" where
  "Put_tail db key v height next lsHeight prev =
     (case newNode (d_mem db) (d_arena db) key v height of
        None \<Rightarrow> None
      | Some (x, m, ar) \<Rightarrow>
          let (m1, prev) = foldl (Put_link x next) (m, prev) [0..<height];
              m2 = set_prev m1 x (na_addr (prev ! 0));
              m3 = (case ptr (next ! 0) of None \<Rightarrow> m2 | Some n \<Rightarrow> set_prev m2 n x)
          in Some (db\<lparr>d_height := (if height > lsHeight then height else lsHeight), d_mem := m3, d_arena := ar,
                       d_length := d_length db + 1, d_size := d_size db + int (length key) + int (length v)\<rparr>))"

definition put_result :: "DB \<Rightarrow> arenaAddr list \<Rightarrow> bytes \<Rightarrow> bytes \<Rightarrow> DB \<Rightarrow> arenaAddr list \<Rightarrow> bool" where
  "put_result db L k v db' L' =
     (let m = d_mem db; m' = d_mem db' in
      wf_db db' L' \<and> length (blocks (d_arena db')) \<le> Suc (length (blocks (d_arena db))) \<and>
      map (entry m') L' = map (entry m) (below m k L) @ (k, v) # map (entry m) (beyond m k L))"

lemma put_tail_result:
  assumes m: "m = d_mem db" and wf: "wf_db db L" and L: "L = B @ zs @ A" and BA: "B = below m k L" "A = beyond m k L"
    and room: "room db" "length k < 2 ^ 16" "length v < 2 ^ 32" and h: "1 \<le> h" "h \<le> maxHeight" "\<forall>z \<in> set zs. ht m z = h"
    and prev: "length prev = maxHeight + 1"
      "\<forall>i < maxHeight. if i < d_height db then prev ! i = at_addr (prev_at m k i L) else ptr (prev ! i) \<in> {None, Some (prev_at m k i L)}"
    and nxt: "\<forall>i < h. na_addr (next ! i) = hd (chain m i A @ [nullAddr])"
      "ptr (next ! 0) = (if A = [] then zs' else Some (hd A))" "zs' = None \<or> zs' = Some z \<and> z \<in> set zs"
    and db1: "d_mem db1 = m" "d_arena db1 = d_arena db" "d_length db1 = d_length db - int (length zs)"
      "d_size db1 = d_size db - (\<Sum>a \<leftarrow> zs. int (unat (keyLen (m a))) + int (unat (valLen (m a))))"
  shows "\<exists>db' x. Put_tail db1 k v h next (d_height db) prev = Some db' \<and> put_result db L k v db' (B @ x # A)"
proof -
  let ?H = "d_height db"
  have w: "1 \<le> ?H" "?H \<le> maxHeight" "nullAddr \<notin> set L" "arena_ok (d_arena db)" "plinked m L"
    "\<forall>a \<in> set L. wf_node ?H (m a) \<and> taken (d_arena db) a 1"
    using wf by (simp_all add: wf_db_def Let_def m)
  have sorted: "sorted_wrt (\<lambda>a b. ky m a < ky m b) L" using wf_sorted [OF wf] by (simp add: m)
  obtain x n ar sz where n: "newNode m (d_arena db) k v h = Some (x, m(x := n), ar)" "fresh_region (d_arena db) x ar sz" "0 < sz"
    "unat (n_height n) = h" "getKey n = k" "getValue_node n = v" "unat (keyLen n) = length k" "unat (valLen n) = length v"
    "length (nexts n) = maxHeight" using newNode_ok [OF w(4) _ room(2,3) h(1,2)] room(1) unfolding room_def by metis
  have x: "x \<notin> set L" "x \<noteq> nullAddr" "length (blocks ar) \<le> Suc (length (blocks (d_arena db)))"
    using n(2) w(6) fresh_other [OF n(2), of 1] by (auto simp: fresh_region_def)
  obtain m1 prev1 where f: "foldl (Put_link x next) (m(x := n), prev) [0..<h] = (m1, prev1)" by fastforce
  have "h < length prev" using h(2) prev(1) by simp
  moreover have "\<forall>i < h. prev_ptr prev i = prev_at m k i L"
  proof (intro allI impI)
    fix i assume i: "i < h"
    have "chain m i L = []" if "\<not> i < ?H" using w(6) that by (intro chain_Nil) (auto simp: wf_node_def)
    then have "\<not> i < ?H \<Longrightarrow> prev_at m k i L = nullAddr" by (simp add: prev_at_def)
    then show "prev_ptr prev i = prev_at m k i L" using prev(2) [rule_format, of i] i h(2) by (auto simp: prev_ptr_def split: if_splits)
  qed
  ultimately have r: "same_data (m(x := n)) m1" "\<forall>a. n_prev (m1 a) = n_prev ((m(x := n)) a)"
    "\<forall>i < maxHeight. linked m1 i (chain (m(x := n)) i (B @ x # A))"
    "\<forall>i < h. ptr (prev ! i) \<noteq> None \<longrightarrow> prev1 ! i = prev ! i"
    using put_links [OF m wf L BA(1) x(1,2) n(4) h(1,2) n(9) h(3) _ _ nxt(1) f] by blast+
  have "chain m 0 B = B" using w(6) L by (intro chain_0) (auto simp: wf_node_def)
  then have "prev_at m k 0 L = last (nullAddr # B)" using prev_at_last(1) [OF sorted, of k 0] BA(1) by simp
  moreover have "prev ! 0 = at_addr (prev_at m k 0 L)" using prev(2) w(1,2) by force
  ultimately have p0: "na_addr (prev1 ! 0) = last (nullAddr # B)" using r(4) h(1) by simp
  let ?m3 = "case ptr (next ! 0) of None \<Rightarrow> set_prev m1 x (na_addr (prev1 ! 0)) | Some n \<Rightarrow> set_prev (set_prev m1 x (na_addr (prev1 ! 0))) n x"
  let ?db' = "db1\<lparr>d_height := (if h > ?H then h else ?H), d_mem := ?m3, d_arena := ar,
                       d_length := d_length db1 + 1, d_size := d_size db1 + int (length k) + int (length v)\<rparr>"
  have pl: "plinked ?m3 (B @ x # A)"
  proof (rule put_plinked [OF _ _ _ _ p0 nxt(2,3)])
    show "plinked m (B @ zs @ A)" "distinct (B @ zs @ A)" "x \<notin> set (B @ zs @ A)"
      using w(5) sorted_distinct [OF sorted] x(1) unfolding L by blast+
    show "\<forall>a. a \<noteq> x \<longrightarrow> n_prev (m1 a) = n_prev (m a)" using r(2) by simp
  qed
  have nxs: "nexts (?m3 a) = nexts (m1 a)" for a by (simp split: option.split)
  have sd: "same_data (m(x := n)) ?m3" using r(1) by (simp split: option.split)
  have lk: "\<forall>i < maxHeight. linked ?m3 i (chain (m(x := n)) i (B @ x # A))" using r(3) by (simp add: linked_def nxs)
  have wfn: "wf_node (if h > ?H then h else ?H) n" using n h(1) by (simp add: wf_node_def)
  have B: "\<forall>a \<in> set B. ky m a < k" and A: "\<forall>a \<in> set A. k < ky m a"
    using below_lt [of _ m k L] beyond_gt [OF sorted] unfolding BA by blast+
  have "wf_db ?db' (B @ x # A)"
    by (rule put_wf [OF m wf L B A x(1) n(2,3) wfn n(5) _ _ sd lk pl]) (use h(2) w(2) db1 n(7,8) in simp_all)
  moreover have "map (entry ?m3) (B @ x # A) = map (entry m) B @ (k, v) # map (entry m) A"
  proof -
    have e: "entry ?m3 a = entry (m(x := n)) a" for a by (rule same_dataD(7) [OF sd])
    have "entry ?m3 a = entry m a" if "a \<in> set (B @ A)" for a unfolding e using that x(1) L by (auto simp: entry_def)
    moreover have "entry ?m3 x = (k, v)" unfolding e by (simp add: entry_def n(5,6))
    ultimately show ?thesis by simp
  qed
  moreover have "Put_tail db1 k v h next ?H prev = Some ?db'"
    unfolding Put_tail_def db1(1,2) n(1) option.case prod.case f Let_def ..
  ultimately show ?thesis using x(3) BA m unfolding put_result_def Let_def by (intro exI [of _ ?db'] exI [of _ x]) simp
qed

lemma Put_unfold:
  assumes "splice_loop (d_mem db) key (d_height db) ((replicate (maxHeight + 1) nilNode)[d_height db := headNode])
      (replicate (maxHeight + 1) nilNode) False = Some (prev, next, ex)"
    and "(if \<not> ex then (randomHeight rnd, next, db) else prepareOverwrite db next) = (h, next', db1)"
  shows "Put rnd db key v = Put_tail db1 key v h next' (d_height db) prev"
  unfolding Put_def Let_def [of "d_height db"] Let_def [of "(replicate (maxHeight + 1) nilNode)[d_height db := headNode]"]
    assms(1) option.case prod.case assms(2) Put_tail_def Let_def ..

lemma Put_correct:
  assumes "wf_db db L" "room db" "length k < 2 ^ 16" "length v < 2 ^ 32"
  shows "\<exists>db' L'. Put rnd db k v = Some db' \<and> put_result db L k v db' L'"
proof -
  define m where "m = d_mem db"
  obtain prev "next" ex where s: "splice_loop m k (d_height db) ((replicate (maxHeight + 1) nilNode)[d_height db := headNode])
      (replicate (maxHeight + 1) nilNode) False = Some (prev, next, ex)"
    "length prev = maxHeight + 1" "length next = maxHeight + 1" "ex = is_match m k (not_below m k L)"
    and "\<forall>i < maxHeight. (if i < d_height db then prev ! i = at_addr (prev_at m k i L) else ptr (prev ! i) \<in> {None, Some (prev_at m k i L)}) \<and>
       next ! i = first_of (not_below m k (chain m i L))"
    using search_finds [OF assms(1), of k, folded m_def] by blast
  then have p: "\<forall>i < maxHeight. if i < d_height db then prev ! i = at_addr (prev_at m k i L) else ptr (prev ! i) \<in> {None, Some (prev_at m k i L)}"
    and q: "\<forall>i < maxHeight. next ! i = first_of (not_below m k (chain m i L))" by blast+
  note tail = put_tail_result [OF m_def assms(1) split_key(1) refl refl assms(2-4) _ _ _ s(2) p]
  have sorted: "sorted_wrt (\<lambda>a b. ky m a < ky m b) L" using wf_sorted [OF assms(1)] by (simp add: m_def)
  have w: "d_height db \<le> maxHeight" "\<forall>a \<in> set L. wf_node (d_height db) (m a)" using assms(1) by (simp_all add: wf_db_def Let_def m_def)
  show ?thesis
  proof (cases ex)
    case False
    have z: "same_key m k L = []" "beyond m k L = not_below m k L" using False s(4) by (simp_all add: same_key_def beyond_def)
    have c: "not_below m k (chain m i L) = chain m i (beyond m k L)" for i unfolding z(2) by (rule chain_below_above(2) [OF sorted])
    have "chain m 0 L = L" using w(2) by (intro chain_0) (auto simp: wf_node_def)
    then have n0: "next ! 0 = first_of (beyond m k L)" using q unfolding z(2) by (simp add: maxHeight_def)
    have "(if \<not> ex then (randomHeight rnd, next, db) else prepareOverwrite db next) = (randomHeight rnd, next, db)" using False by simp
    note Put_unfold [OF s(1) [unfolded m_def] this, of v]
    moreover have "\<exists>db' x. Put_tail db k v (randomHeight rnd) next (d_height db) prev = Some db' \<and> put_result db L k v db' (below m k L @ x # beyond m k L)"
    proof (rule tail [where zs' = None])
      show "1 \<le> randomHeight rnd" "randomHeight rnd \<le> maxHeight" using randomHeight_bounds by simp_all
      show "\<forall>i < randomHeight rnd. na_addr (next ! i) = hd (chain m i (beyond m k L) @ [nullAddr])"
        using q randomHeight_bounds(2) [of rnd] by (simp add: c)
      show "ptr (next ! 0) = (if beyond m k L = [] then None else Some (hd (beyond m k L)))" unfolding n0 by (rule first_of_ptr)
    qed (simp_all add: z(1), simp add: m_def)
    ultimately show ?thesis by auto
  next
    case True
    then obtain o' where o: "same_key m k L = [o']" using s(4) by (simp add: same_key_def)
    define next' where "next' = foldl (prepareOverwrite_next m (next ! 0)) next [0..<ht m o']"
    note ov = overwrite_next [OF m_def assms(1) s(3) q o next'_def]
    have "chain m 0 L = L" using w(2) by (intro chain_0) (auto simp: wf_node_def)
    then have n0: "next ! 0 = at_addr o'" using q split_key(2) [of m k L] o by (simp add: maxHeight_def first_of_def)
    let ?db1 = "db\<lparr>d_size := d_size db - (int (unat (valLen (m o'))) + int (unat (keyLen (m o')))), d_length := d_length db - 1\<rparr>"
    have "(if \<not> ex then (randomHeight rnd, next, db) else prepareOverwrite db next) = (ht m o', next', ?db1)"
      using True n0 by (simp add: prepareOverwrite_def Let_def next'_def m_def)
    note Put_unfold [OF s(1) [unfolded m_def] this, of v]
    moreover have "\<exists>db' x. Put_tail ?db1 k v (ht m o') next' (d_height db) prev = Some db' \<and> put_result db L k v db' (below m k L @ x # beyond m k L)"
      by (rule tail [where zs' = "Some o'" and z = o', OF ov(4) order.trans [OF ov(3) w(1)] _ ov(1)])
        (simp_all add: o ov(2), simp_all add: m_def)
    ultimately show ?thesis by auto
  qed
qed

section \<open>Deletion\<close>

definition unlink :: "arenaAddr \<Rightarrow> nodeWithAddr list \<Rightarrow> memory \<Rightarrow> nat \<Rightarrow> memory" where
  "unlink o' prev m i = set_next m (the (ptr (prev ! i))) i (nx m i o')"

lemma unlink_fold:
  assumes "distinct is" "\<forall>i \<in> set is. the (ptr (prev ! i)) \<noteq> o' \<and> i < length (nexts (m (the (ptr (prev ! i)))))"
  shows "same_data m (foldl (unlink o' prev) m is) \<and> (\<forall>a. n_prev (foldl (unlink o' prev) m is a) = n_prev (m a)) \<and>
    (\<forall>i a. nx (foldl (unlink o' prev) m is) i a = (if i \<in> set is \<and> a = the (ptr (prev ! i)) then nx m i o' else nx m i a))"
  using assms
proof (induction "is" arbitrary: m)
  case (Cons j js)
  let ?m = "unlink o' prev m j"
  have s: "same_data m ?m" by (simp add: unlink_def)
  have n: "nx ?m i a = (if a = the (ptr (prev ! j)) \<and> i = j then nx m j o' else nx m i a)" for i a
    using Cons.prems(2) unfolding unlink_def by (intro nx_set_next) simp
  have IH: "same_data ?m (foldl (unlink o' prev) ?m js) \<and> (\<forall>a. n_prev (foldl (unlink o' prev) ?m js a) = n_prev (?m a)) \<and>
    (\<forall>i a. nx (foldl (unlink o' prev) ?m js) i a = (if i \<in> set js \<and> a = the (ptr (prev ! i)) then nx ?m i o' else nx ?m i a))"
    using Cons.prems same_dataD(6) [OF s] by (intro Cons.IH) simp_all
  then have "nx (foldl (unlink o' prev) m (j # js)) i a = (if i \<in> set (j # js) \<and> a = the (ptr (prev ! i)) then nx m i o' else nx m i a)" for i a
    using n Cons.prems by auto
  moreover have "same_data m (foldl (unlink o' prev) ?m js)" using IH s by (simp add: same_data_def)
  moreover have "n_prev (foldl (unlink o' prev) ?m js a) = n_prev (m a)" for a using IH by (simp add: unlink_def)
  ultimately show ?case by simp
qed simp

lemma delete_wf:
  assumes m: "m = d_mem db" and wf: "wf_db db (B @ z # A)" and same: "same_data m m'"
    and links: "\<forall>i < maxHeight. linked m' i (chain m i (B @ A))" "plinked m' (B @ A)"
    and db': "db' = db\<lparr>d_mem := m', d_length := d_length db - 1, d_size := d_size db - (int (unat (keyLen (m z))) + int (unat (valLen (m z))))\<rparr>"
  shows "wf_db db' (B @ A)"
proof -
  note sd = same_dataD [OF same]
  have "sorted_wrt (\<lambda>a b. ky m a < ky m b) (B @ A)" using wf_sorted [OF wf] m by (auto simp: sorted_wrt_append)
  then have "sorted_wrt (\<lambda>a b. ky m' a < ky m' b) (B @ A)" by (simp add: sd(4))
  moreover have "chain m' i (B @ A) = chain m i (B @ A)" for i by (rule sd(8))
  ultimately show ?thesis using wf links unfolding db' wf_db_def Let_def m [symmetric] by (simp add: sd)
qed

lemma delete_links:
  assumes m: "m = d_mem db" and wf: "wf_db db L" and o: "same_key m k L = [o']" and A: "A = beyond m k L" and B: "B = below m k L"
    and prev: "\<forall>i < d_height db. prev ! i = at_addr (prev_at m k i L)"
    and m1: "m1 = foldl (unlink o' prev) m (rev [0..<ht m o'])"
  shows "same_data m m1" "\<forall>a. n_prev (m1 a) = n_prev (m a)" "\<forall>i < maxHeight. linked m1 i (chain m i (B @ A))"
    "nx m1 0 o' = hd (A @ [nullAddr])" "na_addr (prev ! 0) = last (nullAddr # B)"
proof -
  have sorted: "sorted_wrt (\<lambda>a b. ky m a < ky m b) L" using wf_sorted [OF wf] by (simp add: m)
  have L: "L = B @ o' # A" using split_key(1) [of L m k] o A B by simp
  have w: "1 \<le> d_height db" "d_height db \<le> maxHeight" "nullAddr \<notin> set L" "\<forall>i < maxHeight. linked m i (chain m i L)" "distinct L"
    "\<forall>a \<in> set L. wf_node (d_height db) (m a)" "\<forall>a \<in> insert nullAddr (set L). length (nexts (m a)) = maxHeight"
    using wf sorted_distinct [OF sorted] by (auto simp: wf_db_def Let_def m wf_node_def)
  have h: "ht m o' \<le> d_height db" "1 \<le> ht m o'" using w(6) L by (auto simp: wf_node_def)
  have pa: "prev_at m k i L = last (nullAddr # chain m i B)" for i using prev_at_last(1) [OF sorted, of k i] B by simp
  have pB: "prev_at m k i L \<in> insert nullAddr (set B)" for i
    using last_in_set [of "nullAddr # chain m i B"] unfolding pa by (auto simp del: last.simps)
  have "prev_at m k i L \<noteq> o'" for i using pB [of i] w(3,5) unfolding L by auto
  moreover have "length (nexts (m (prev_at m k i L))) = maxHeight" for i using pB [of i] w(7) L by auto
  ultimately have "same_data m m1 \<and> (\<forall>a. n_prev (m1 a) = n_prev (m a)) \<and>
    (\<forall>i a. nx m1 i a = (if i \<in> set (rev [0..<ht m o']) \<and> a = the (ptr (prev ! i)) then nx m i o' else nx m i a))"
    unfolding m1 using prev h w(2) by (intro unlink_fold) auto
  then have r: "same_data m m1" "\<forall>a. n_prev (m1 a) = n_prev (m a)"
    "\<And>i a. nx m1 i a = (if i < ht m o' \<and> a = prev_at m k i L then nx m i o' else nx m i a)" using prev h(1) by auto
  show "same_data m m1" "\<forall>a. n_prev (m1 a) = n_prev (m a)" by (rule r(1), rule r(2))
  have c: "chain m i L = chain m i B @ (if i < ht m o' then [o'] else []) @ chain m i A" for i unfolding L by (simp add: chain_def)
  have nxo: "nx m i o' = hd (chain m i A @ [nullAddr])" if "i < ht m o'" for i
  proof -
    have "i < maxHeight" using that h(1) w(2) by simp
    from w(4) [rule_format, OF this] have "linked m i (chain m i B @ o' # chain m i A)" unfolding c using that by simp
    then show ?thesis by (rule linked_next)
  qed
  show "\<forall>i < maxHeight. linked m1 i (chain m i (B @ A))"
  proof (intro allI impI)
    fix i assume i: "i < maxHeight"
    have "linked m1 i (chain m i B @ [] @ chain m i A)"
    proof (rule linked_join [where m = m and zs = "if i < ht m o' then [o'] else []" and z = nullAddr])
      show lk: "linked m i (chain m i B @ (if i < ht m o' then [o'] else []) @ chain m i A)" using w(4) [rule_format, OF i] unfolding c .
      show "distinct (chain m i B @ chain m i A)" using w(5) unfolding L by (auto simp: chain_def)
      show "nullAddr \<notin> set (chain m i B @ chain m i A)" using w(3) unfolding L by auto
      show "nx m1 i (last (nullAddr # chain m i B)) = hd ([] @ chain m i A @ [nullAddr])"
      proof (cases "i < ht m o'")
        case False
        then show ?thesis using linked_from [OF lk] unfolding r(3) by (simp add: successively_Cons del: last.simps)
      qed (simp add: r(3) pa nxo del: last.simps)
    qed (simp_all add: r(3) pa del: last.simps)
    then show "linked m1 i (chain m i (B @ A))" by simp
  qed
  have c0: "chain m 0 A = A" "chain m 0 B = B" using w(6) L by (auto intro!: chain_0 simp: wf_node_def)
  show "nx m1 0 o' = hd (A @ [nullAddr])" using nxo [of 0] h(2) c0 unfolding r(3) by simp
  show "na_addr (prev ! 0) = last (nullAddr # B)" using prev w(1) pa [of 0] c0 by simp
qed

lemma Delete_correct:
  assumes wf: "wf_db db L" and m: "m = d_mem db"
  shows "\<exists>db' L'. db_Delete db k = Some (is_match m k (not_below m k L), db') \<and> wf_db db' L' \<and>
    L' = below m k L @ beyond m k L \<and> same_data m (d_mem db') \<and> d_arena db' = d_arena db"
proof -
  obtain prev "next" ex where s: "splice_loop m k (d_height db) ((replicate (maxHeight + 1) nilNode)[d_height db := headNode])
      (replicate (maxHeight + 1) nilNode) False = Some (prev, next, ex)" "ex = is_match m k (not_below m k L)"
    and pn: "\<forall>i < maxHeight. (if i < d_height db then prev ! i = at_addr (prev_at m k i L) else ptr (prev ! i) \<in> {None, Some (prev_at m k i L)}) \<and>
       next ! i = first_of (not_below m k (chain m i L))"
    using search_finds [OF wf, of k, folded m] by blast
  have w: "d_height db \<le> maxHeight" "\<forall>a \<in> set L. wf_node (d_height db) (m a)" "plinked m L" "nullAddr \<notin> set L"
    using wf by (simp_all add: wf_db_def Let_def m)
  note unf = db_Delete_def Let_def [of "d_height db"] Let_def [of "(replicate (maxHeight + 1) nilNode)[d_height db := headNode]"]
  show ?thesis
  proof (cases ex)
    case False
    have "db_Delete db k = Some (False, db)" unfolding unf m [symmetric] s(1) using False by simp
    moreover have "below m k L @ beyond m k L = L" using False s(2) by (simp add: beyond_def)
    ultimately show ?thesis using wf False s(2) by (simp add: m)
  next
    case True
    then obtain o' where o: "same_key m k L = [o']" using s(2) by (simp add: same_key_def)
    define A B where "A = beyond m k L" and "B = below m k L"
    have L: "L = B @ o' # A" using split_key(1) [of L m k] o by (simp add: A_def B_def)
    have "chain m 0 L = L" using w(2) by (intro chain_0) (auto simp: wf_node_def)
    then have n0: "next ! 0 = at_addr o'" using pn split_key(2) [of m k L] o by (simp add: maxHeight_def first_of_def)
    have p: "\<forall>i < d_height db. prev ! i = at_addr (prev_at m k i L)" using pn w(1) by simp
    define m1 where "m1 = foldl (unlink o' prev) m (rev [0..<ht m o'])"
    note r = delete_links [OF m wf o A_def B_def p m1_def]
    define m2 where "m2 = (if isNull (nx m1 0 o') then m1 else set_prev m1 (nx m1 0 o') (na_addr (prev ! 0)))"
    define db' where "db' = db\<lparr>d_mem := m2, d_length := d_length db - 1, d_size := d_size db - (int (unat (keyLen (m o'))) + int (unat (valLen (m o'))))\<rparr>"
    have "db_Delete db k = Some (True, db')"
      unfolding unf m [symmetric] s(1) db'_def m2_def m1_def unlink_def using True n0 by (simp add: Let_def)
    moreover have d: "same_data m m2" using r(1) by (simp add: m2_def)
    moreover have "linked m2 i xs = linked m1 i xs" for i xs by (simp add: linked_def m2_def)
    then have lk: "\<forall>i < maxHeight. linked m2 i (chain m i (B @ A))" using r(3) by simp
    have "sorted_wrt (\<lambda>a b. ky m a < ky m b) L" using wf_sorted [OF wf] by (simp add: m)
    then have dist: "distinct (B @ o' # A)" using sorted_distinct unfolding L by blast
    have hdA: "hd A \<in> set A" "hd A \<noteq> nullAddr" if "A \<noteq> []"
      using hd_in_set [OF that] w(4) L by auto
    have "plinked m2 (B @ [] @ A)"
    proof (rule plinked_join [where zs = "[o']" and m = m and p = "last (nullAddr # B)"])
      show "plinked m (B @ [o'] @ A)" using w(3) L by simp
      show "n_prev (m2 (hd A)) = last (nullAddr # B)" if "A \<noteq> []"
        using r(4,5) hdA [OF that] that by (simp add: m2_def del: last.simps)
      show "n_prev (m2 a) = n_prev (m a)" if "a \<in> set (B @ tl A)" for a
        using r(2,4) dist hdA that by (cases "A") (auto simp: m2_def)
    qed simp
    then have "wf_db db' (B @ A)"
      using delete_wf [OF m _ d lk _ db'_def] wf L by simp
    ultimately show ?thesis using True s(2) by (intro exI [of _ db'] exI [of _ "B @ A"]) (simp add: db'_def A_def B_def)
  qed
qed

lemma New_wf: "0 < sz \<Longrightarrow> sz \<le> 2 ^ 31 \<Longrightarrow> wf_db (New sz) []"
  by (simp add: wf_db_def New_def zeroNode_def linked_def plinked_def chain_def arena_ok_def newArenaLocator_def newArenaBlock_def maxHeight_def)

end
