(* ===== verification/Memdb_Correct.thy ===== *)
theory Memdb_Correct imports Memdb_Update begin

text \<open>
  The contents of the in-memory database: what every operation does to the sorted list of its entries.
\<close>

section \<open>Contents\<close>

text \<open>A database represents the list of its entries, which is strictly ascending in the keys.\<close>

definition db_rep :: "DB \<Rightarrow> (bytes \<times> bytes) list \<Rightarrow> bool" where
  "db_rep db kvs = (\<exists>L. wf_db db L \<and> kvs = map (entry (d_mem db)) L)"

definition entries_below :: "bytes \<Rightarrow> (bytes \<times> bytes) list \<Rightarrow> (bytes \<times> bytes) list" where
  "entries_below k kvs = filter (\<lambda>e. fst e < k) kvs"

definition entries_from :: "bytes \<Rightarrow> (bytes \<times> bytes) list \<Rightarrow> (bytes \<times> bytes) list" where
  "entries_from k kvs = filter (\<lambda>e. k \<le> fst e) kvs"

definition ord_put :: "bytes \<Rightarrow> bytes \<Rightarrow> (bytes \<times> bytes) list \<Rightarrow> (bytes \<times> bytes) list" where
  "ord_put k v kvs = entries_below k kvs @ (k, v) # filter (\<lambda>e. k < fst e) kvs"

definition ord_delete :: "bytes \<Rightarrow> (bytes \<times> bytes) list \<Rightarrow> (bytes \<times> bytes) list" where
  "ord_delete k kvs = filter (\<lambda>e. fst e \<noteq> k) kvs"

lemma rep_sorted: "db_rep db kvs \<Longrightarrow> sorted_wrt (<) (map fst kvs)"
  by (auto simp: db_rep_def sorted_wrt_map entry_def dest: wf_sorted)

lemma map_of_ord_put: "map_of (ord_put k v kvs) = (map_of kvs)(k \<mapsto> v)"
proof
  fix x
  have "map_of (filter P kvs) x = (if P (x, undefined) then map_of kvs x else None)" if "\<And>a b c. P (a, b) = P (a, c)" for P :: "bytes \<times> bytes \<Rightarrow> bool"
    by (induction kvs) (auto, metis that, metis that)
  from this [of "\<lambda>e. fst e < k"] this [of "\<lambda>e. k < fst e"]
  show "map_of (ord_put k v kvs) x = ((map_of kvs)(k \<mapsto> v)) x"
    by (auto simp: ord_put_def entries_below_def map_add_def split: option.splits)
qed

lemma map_of_ord_delete: "map_of (ord_delete k kvs) = (map_of kvs)(k := None)"
proof
  fix x show "map_of (ord_delete k kvs) x = ((map_of kvs)(k := None)) x"
    by (induction kvs) (auto simp: ord_delete_def)
qed

text \<open>The stretches of the node list that the searches cut out are the stretches of the entries.\<close>

lemma stretches:
  assumes "sorted_wrt (\<lambda>a b. ky m a < ky m b) L"
  shows "map (entry m) (below m k L) = entries_below k (map (entry m) L)"
    and "map (entry m) (not_below m k L) = entries_from k (map (entry m) L)"
    and "map (entry m) (beyond m k L) = filter (\<lambda>e. k < fst e) (map (entry m) L)"
proof -
  have sp: "map (entry m) L = map (entry m) (below m k L) @ map (entry m) (not_below m k L)"
    by (metis map_append takeWhile_dropWhile_id)
  have lt: "\<forall>e \<in> set (map (entry m) (below m k L)). fst e < k" using below_lt [of _ m k L] by (auto simp: entry_def)
  have ge: "\<forall>e \<in> set (map (entry m) (not_below m k L)). \<not> fst e < k"
  proof
    fix e assume "e \<in> set (map (entry m) (not_below m k L))"
    then obtain a where a: "a \<in> set (not_below m k L)" "e = entry m a" unfolding set_map by (rule imageE)
    show "\<not> fst e < k" using leD [OF above_ge [OF assms a(1)]] unfolding a(2) entry_def fst_conv .
  qed
  have "entries_below k (map (entry m) L) = map (entry m) (below m k L) @ []"
    unfolding sp entries_below_def filter_append using lt ge
    by (intro arg_cong2 [where f = append]) (simp_all only: filter_True filter_False)
  then show "map (entry m) (below m k L) = entries_below k (map (entry m) L)" by simp
  have "\<forall>e \<in> set (map (entry m) (below m k L)). \<not> k \<le> fst e" using lt by (meson leD)
  moreover have "\<forall>e \<in> set (map (entry m) (not_below m k L)). k \<le> fst e" using ge by (meson not_less)
  ultimately have "entries_from k (map (entry m) L) = [] @ map (entry m) (not_below m k L)"
    unfolding sp entries_from_def filter_append
    by (intro arg_cong2 [where f = append]) (simp_all only: filter_True filter_False)
  then show "map (entry m) (not_below m k L) = entries_from k (map (entry m) L)" by simp
  have "\<forall>e \<in> set (map (entry m) (below m k L)). \<not> k < fst e" using lt by (meson less_asym)
  moreover have "\<forall>e \<in> set (map (entry m) (same_key m k L)). \<not> k < fst e"
    by (auto simp: same_key_def is_match_def entry_def split: list.splits)
  moreover have "\<forall>e \<in> set (map (entry m) (beyond m k L)). k < fst e" using beyond_gt [OF assms] by (auto simp: entry_def)
  moreover have "map (entry m) L = map (entry m) (below m k L) @ map (entry m) (same_key m k L) @ map (entry m) (beyond m k L)"
    by (metis map_append split_key(1))
  ultimately have "filter (\<lambda>e. k < fst e) (map (entry m) L) = [] @ [] @ map (entry m) (beyond m k L)"
    unfolding filter_append by (simp only: filter_append filter_True filter_False)
  then show "map (entry m) (beyond m k L) = filter (\<lambda>e. k < fst e) (map (entry m) L)" by simp
qed

lemma lookup_match:
  assumes "sorted_wrt (\<lambda>a b. ky m a < ky m b) L"
  shows "map_of (map (entry m) L) k = (if is_match m k (not_below m k L) then Some (getValue_node (m (hd (not_below m k L)))) else None)"
proof -
  have "map (entry m) L = map (entry m) (below m k L) @ map (entry m) (same_key m k L) @ map (entry m) (beyond m k L)"
    by (metis map_append split_key(1))
  moreover have "map_of (map (entry m) (below m k L)) k = None"
    unfolding map_of_eq_None_iff by (auto simp: entry_def dest!: below_lt)
  moreover have "map_of (map (entry m) (beyond m k L)) k = None"
    unfolding map_of_eq_None_iff by (auto simp: entry_def dest!: beyond_gt [OF assms])
  moreover have "map_of (map (entry m) (same_key m k L)) k = (if is_match m k (not_below m k L) then Some (getValue_node (m (hd (not_below m k L)))) else None)"
    by (auto simp: same_key_def is_match_def entry_def split: list.splits)
  ultimately show ?thesis by (simp add: map_add_def)
qed

section \<open>Operations\<close>

lemma New_rep: "0 < sz \<Longrightarrow> sz \<le> 2 ^ 31 \<Longrightarrow> db_rep (New sz) []"
  using New_wf by (auto simp: db_rep_def)

lemma Reset_rep: "db_rep db kvs \<Longrightarrow> db_rep (Reset db) []"
proof -
  assume "db_rep db kvs"
  then have "arena_ok (d_arena db)" by (auto simp: db_rep_def wf_db_def Let_def)
  then have "wf_db (Reset db) []"
    by (auto simp: wf_db_def Reset_def zeroNode_def linked_def plinked_def chain_def arena_ok_def arena_reset_def maxHeight_def)
  then show ?thesis by (auto simp: db_rep_def)
qed

lemma Put_rep:
  assumes "db_rep db kvs" "room db" "length k < 2 ^ 16" "length v < 2 ^ 32"
  shows "\<exists>db'. Put rnd db k v = Some db' \<and> db_rep db' (ord_put k v kvs) \<and>
    length (blocks (d_arena db')) \<le> Suc (length (blocks (d_arena db)))"
proof -
  obtain L where L: "wf_db db L" "kvs = map (entry (d_mem db)) L" using assms(1) by (auto simp: db_rep_def)
  obtain db' L' where "Put rnd db k v = Some db'" "put_result db L k v db' L'" using Put_correct [OF L(1) assms(2-4)] by blast
  then show ?thesis using stretches [OF wf_sorted [OF L(1)], of k] L(2)
    by (intro exI [of _ db']) (auto simp: put_result_def Let_def db_rep_def ord_put_def intro!: exI [of _ L'])
qed

lemma Delete_rep:
  assumes "db_rep db kvs"
  shows "\<exists>db'. db_Delete db k = Some (map_of kvs k \<noteq> None, db') \<and> db_rep db' (ord_delete k kvs) \<and> d_arena db' = d_arena db"
proof -
  obtain L where L: "wf_db db L" "kvs = map (entry (d_mem db)) L" using assms(1) by (auto simp: db_rep_def)
  define m where "m = d_mem db"
  obtain db' where r: "db_Delete db k = Some (is_match m k (not_below m k L), db')" "wf_db db' (below m k L @ beyond m k L)"
    "same_data m (d_mem db')" "d_arena db' = d_arena db" using Delete_correct [OF L(1) m_def] by blast
  have s: "sorted_wrt (\<lambda>a b. ky m a < ky m b) L" using wf_sorted [OF L(1)] by (simp add: m_def)
  have "map (entry m) (below m k L @ beyond m k L) = filter (\<lambda>e. fst e < k) kvs @ filter (\<lambda>e. k < fst e) kvs"
    using stretches [OF s, of k] by (simp add: entries_below_def L(2) m_def)
  also have "\<dots> = ord_delete k kvs"
  proof -
    have "sorted_wrt (<) (map fst kvs)" using rep_sorted [OF assms] .
    then show ?thesis
    proof (induction kvs)
      case (Cons e kvs)
      consider "fst e < k" | "fst e = k" | "k < fst e" by fastforce
      then show ?case
      proof cases
        case 3
        then have "\<forall>x \<in> set kvs. k < fst x" using Cons.prems by (auto dest: less_trans)
        then have "filter (\<lambda>e. fst e < k) kvs = []" "filter (\<lambda>e. fst e \<noteq> k) kvs = kvs" "filter (\<lambda>e. k < fst e) kvs = kvs"
          by (auto simp: filter_empty_conv filter_id_conv dest: less_asym)
        then show ?thesis using 3 by (auto simp: ord_delete_def dest: less_asym)
      qed (use Cons in \<open>auto simp: ord_delete_def dest: less_asym\<close>)
    qed (simp add: ord_delete_def)
  qed
  finally have e: "map (entry m) (below m k L @ beyond m k L) = ord_delete k kvs" .
  have "entry (d_mem db') = entry m" by (rule ext) (rule same_dataD(7) [OF r(3)])
  then have "db_rep db' (ord_delete k kvs)" unfolding db_rep_def using r(2) e by (intro exI [of _ "below m k L @ beyond m k L"] conjI) simp_all
  moreover have "is_match m k (not_below m k L) = (map_of kvs k \<noteq> None)"
    unfolding L(2) m_def [symmetric] lookup_match [OF s] by simp
  ultimately show ?thesis using r(1,4) by (intro exI [of _ db']) simp
qed

lemma Get_rep:
  assumes "db_rep db kvs"
  shows "db_Get db k = Some (map_of kvs k)"
proof -
  obtain L where L: "wf_db db L" "kvs = map (entry (d_mem db)) L" using assms(1) by (auto simp: db_rep_def)
  show ?thesis unfolding db_Get_def find_spec(1) [OF L(1) refl] L(2) lookup_match [OF wf_sorted [OF L(1)]]
    using match_first [of "d_mem db" k "not_below (d_mem db) k L"] by (simp split: option.split)
qed

lemma Len_Size_rep:
  assumes "db_rep db kvs"
  shows "d_length db = int (length kvs)" "d_size db = (\<Sum>(k, v) \<leftarrow> kvs. int (length k) + int (length v))"
proof -
  obtain L where L: "wf_db db L" "kvs = map (entry (d_mem db)) L" using assms(1) by (auto simp: db_rep_def)
  then show "d_length db = int (length kvs)" by (simp add: wf_db_def Let_def)
  have "\<forall>a \<in> set L. length (ky (d_mem db) a) = unat (keyLen (d_mem db a)) \<and> length (getValue_node (d_mem db a)) = unat (valLen (d_mem db a))"
    using L(1) by (auto simp: wf_db_def Let_def wf_node_def)
  then have "map (\<lambda>a. int (unat (keyLen (d_mem db a))) + int (unat (valLen (d_mem db a)))) L =
    map ((\<lambda>(k, v). int (length k) + int (length v)) \<circ> entry (d_mem db)) L" by (auto simp: entry_def)
  then show "d_size db = (\<Sum>(k, v) \<leftarrow> kvs. int (length k) + int (length v))" using L
    by (simp only: wf_db_def Let_def map_map)
qed

section \<open>Iterators\<close>

text \<open>What an iterator still has ahead of it, forwards and backwards.\<close>

definition shows_entry :: "DB \<Rightarrow> db_iter \<Rightarrow> arenaAddr \<Rightarrow> bool" where
  "shows_entry db it a = (curr it = Some a \<and> (it_key it, it_val it) = entry (d_mem db) a)"

definition ahead :: "DB \<Rightarrow> db_iter \<Rightarrow> (bytes \<times> bytes) list \<Rightarrow> bool" where
  "ahead db it kvs = (\<exists>xs ys. wf_db db (xs @ ys) \<and> kvs = map (entry (d_mem db)) ys \<and>
     (if ys = [] then curr it = None else shows_entry db it (hd ys)))"

definition behind :: "DB \<Rightarrow> db_iter \<Rightarrow> (bytes \<times> bytes) list \<Rightarrow> bool" where
  "behind db it kvs = (\<exists>xs ys. wf_db db (xs @ ys) \<and> kvs = map (entry (d_mem db)) (rev xs) \<and>
     (if xs = [] then curr it = None else shows_entry db it (last xs)))"

lemma updateState_shows: "shows_entry db (updateState db it (Some a)) a" "curr (updateState db it None) = None"
  by (simp_all add: shows_entry_def updateState_def entry_def)

lemma ahead_intro:
  assumes "wf_db db (xs @ ys)" "kvs = map (entry (d_mem db)) ys"
  shows "ahead db (updateState db it (ptr (first_of ys))) kvs"
  unfolding ahead_def using assms by (intro exI [of _ xs] exI [of _ ys]) (cases ys; simp add: first_of_def updateState_shows)

lemma behind_intro:
  assumes "wf_db db (xs @ ys)" "kvs = map (entry (d_mem db)) (rev xs)"
  shows "behind db (updateState db it (if xs = [] then None else Some (last xs))) kvs"
  unfolding behind_def using assms by (intro exI [of _ xs] exI [of _ ys]) (simp add: updateState_shows)

lemma changeToAddr_first: "nullAddr \<notin> set ys \<Longrightarrow> a = hd (ys @ [nullAddr]) \<Longrightarrow> changeToAddr db it a = updateState db it (ptr (first_of ys))"
  by (cases ys) (auto simp: changeToAddr_def first_of_def)

lemma changeToAddr_last:
  assumes "nullAddr \<notin> set xs" "a = last (nullAddr # xs)"
  shows "changeToAddr db it a = updateState db it (if xs = [] then None else Some (last xs))"
proof (cases "xs = []")
  case False
  then have "last xs \<noteq> nullAddr" using assms(1) last_in_set by metis
  then show ?thesis using False assms(2) by (simp add: changeToAddr_def)
qed (simp add: assms(2) changeToAddr_def)

lemma wf_next:
  assumes "wf_db db (xs @ y # ys)"
  shows "nx (d_mem db) 0 y = hd (ys @ [nullAddr])" "nullAddr \<notin> set ys" "wf_db db ((xs @ [y]) @ ys)"
proof -
  have w: "linked (d_mem db) 0 (chain (d_mem db) 0 (xs @ y # ys))" "\<forall>a \<in> set (xs @ y # ys). wf_node (d_height db) (d_mem db a)"
    using assms by (simp_all add: wf_db_def Let_def maxHeight_def)
  then have "chain (d_mem db) 0 (xs @ y # ys) = xs @ y # ys" by (intro chain_0) (auto simp: wf_node_def)
  then show "nx (d_mem db) 0 y = hd (ys @ [nullAddr])" using w(1) linked_next by metis
  show "nullAddr \<notin> set ys" "wf_db db ((xs @ [y]) @ ys)" using assms by (auto simp: wf_db_def Let_def)
qed

lemma wf_prev:
  assumes "wf_db db ((xs @ [y]) @ ys)"
  shows "n_prev (d_mem db y) = last (nullAddr # xs)" "nullAddr \<notin> set xs" "wf_db db (xs @ y # ys)"
proof -
  have "successively (\<lambda>a b. n_prev (d_mem db b) = a) ((nullAddr # xs) @ y # ys)"
    using assms by (simp add: wf_db_def Let_def plinked_def)
  then show "n_prev (d_mem db y) = last (nullAddr # xs)" unfolding successively_append_iff by simp
  show "nullAddr \<notin> set xs" "wf_db db (xs @ y # ys)" using assms by (auto simp: wf_db_def Let_def)
qed

lemma ahead_valid: "ahead db it kvs \<Longrightarrow> curr it \<noteq> None \<longleftrightarrow> kvs \<noteq> []"
  by (auto simp: ahead_def shows_entry_def split: if_splits)

lemma behind_valid: "behind db it kvs \<Longrightarrow> curr it \<noteq> None \<longleftrightarrow> kvs \<noteq> []"
  by (auto simp: behind_def shows_entry_def split: if_splits)

lemma ahead_Next:
  assumes "ahead db it (e # kvs)"
  shows "(it_key it, it_val it) = e" "\<exists>it'. it_Next db it = Some it' \<and> ahead db it' kvs"
proof -
  obtain xs y ys where w: "wf_db db (xs @ y # ys)" "e = entry (d_mem db) y" "kvs = map (entry (d_mem db)) ys" "shows_entry db it y"
    using assms by (fastforce simp: ahead_def map_eq_Cons_conv)
  show "(it_key it, it_val it) = e" using w(2,4) by (simp add: shows_entry_def)
  have "it_Next db it = Some (updateState db it (ptr (first_of ys)))"
    using w(4) changeToAddr_first [OF wf_next(2) [OF w(1)] wf_next(1) [OF w(1)]] by (simp add: it_Next_def shows_entry_def)
  then show "\<exists>it'. it_Next db it = Some it' \<and> ahead db it' kvs" using ahead_intro [OF wf_next(3) [OF w(1)] w(3)] by blast
qed

lemma behind_Prev:
  assumes "behind db it (e # kvs)"
  shows "(it_key it, it_val it) = e" "\<exists>it'. it_Prev db it = Some it' \<and> behind db it' kvs"
proof -
  obtain zs ys where z: "wf_db db (zs @ ys)" "e # kvs = map (entry (d_mem db)) (rev zs)"
    "if zs = [] then curr it = None else shows_entry db it (last zs)"
    using assms unfolding behind_def by (elim exE conjE)
  then obtain xs y where "zs = xs @ [y]" by (cases zs rule: rev_exhaust) auto
  with z have w: "wf_db db ((xs @ [y]) @ ys)" "e = entry (d_mem db) y" "kvs = map (entry (d_mem db)) (rev xs)" "shows_entry db it y" by auto
  show "(it_key it, it_val it) = e" using w(2,4) by (simp add: shows_entry_def)
  have "it_Prev db it = Some (updateState db it (if xs = [] then None else Some (last xs)))"
    using w(4) changeToAddr_last [OF wf_prev(2) [OF w(1)] wf_prev(1) [OF w(1)]] by (simp add: it_Prev_def shows_entry_def)
  then show "\<exists>it'. it_Prev db it = Some it' \<and> behind db it' kvs" using behind_intro [OF wf_prev(3) [OF w(1)] w(3)] by blast
qed

lemma seek_rep:
  assumes "db_rep db kvs"
  shows "\<exists>it'. it_Seek db it k = Some it' \<and> ahead db it' (entries_from k kvs)"
    and "ahead db (SeekToFirst db it) kvs"
    and "\<exists>it'. SeekForExclusivePrev db it k = Some it' \<and> behind db it' (rev (entries_below k kvs))"
    and "\<exists>it'. SeekToLast db it = Some it' \<and> behind db it' (rev kvs)"
proof -
  let ?m = "d_mem db"
  obtain L where L: "wf_db db L" "kvs = map (entry ?m) L" using assms(1) by (auto simp: db_rep_def)
  note f = find_spec [OF L(1) refl] and s = stretches [OF wf_sorted [OF L(1)], of k]
  have w: "wf_db db (below ?m k L @ not_below ?m k L)" using L(1) by simp
  show "\<exists>it'. it_Seek db it k = Some it' \<and> ahead db it' (entries_from k kvs)"
    using ahead_intro [OF w] s(2) L(2) by (simp add: it_Seek_def f(1))
  have "getNext db nullAddr 0 = ptr (first_of L)"
  proof -
    have "linked ?m 0 (chain ?m 0 L)" "nullAddr \<notin> set L" "\<forall>a \<in> set L. wf_node (d_height db) (?m a)"
      using L(1) by (simp_all add: wf_db_def Let_def maxHeight_def)
    moreover from this have "chain ?m 0 L = L" by (intro chain_0) (auto simp: wf_node_def)
    ultimately have "nx ?m 0 nullAddr = hd (L @ [nullAddr])" "nullAddr \<notin> set L" by (simp_all add: linked_def successively_Cons)
    then show ?thesis by (cases L) (auto simp: getNext_def first_of_def)
  qed
  then show "ahead db (SeekToFirst db it) kvs" using ahead_intro [of db "[]" L kvs it] L by (simp add: SeekToFirst_def)
  have "rev (entries_below k kvs) = map (entry ?m) (rev (below ?m k L))" unfolding rev_map [symmetric] s(1) L(2) ..
  from behind_intro [OF w this, of it, folded last_below_def]
  show "\<exists>it'. SeekForExclusivePrev db it k = Some it' \<and> behind db it' (rev (entries_below k kvs))"
    by (simp add: SeekForExclusivePrev_def f(2))
  show "\<exists>it'. SeekToLast db it = Some it' \<and> behind db it' (rev kvs)"
    using behind_intro [of db L "[]" "rev kvs" it] L by (simp add: SeekToLast_def f(3) rev_map)
qed

section \<open>Sequences of operations\<close>

text \<open>The loops that visit every entry from the position of an iterator to the end.\<close>

partial_function (option) walk_next :: "DB \<Rightarrow> db_iter \<Rightarrow> (bytes \<times> bytes) list option" where
  "walk_next db it =
     (if curr it = None then Some []
      else case it_Next db it of
        None \<Rightarrow> None
      | Some it' \<Rightarrow> Option.bind (walk_next db it') (\<lambda>kvs. Some ((it_key it, it_val it) # kvs)))"

partial_function (option) walk_prev :: "DB \<Rightarrow> db_iter \<Rightarrow> (bytes \<times> bytes) list option" where
  "walk_prev db it =
     (if curr it = None then Some []
      else case it_Prev db it of
        None \<Rightarrow> None
      | Some it' \<Rightarrow> Option.bind (walk_prev db it') (\<lambda>kvs. Some ((it_key it, it_val it) # kvs)))"

lemma walk_ahead: "ahead db it kvs \<Longrightarrow> walk_next db it = Some kvs"
proof (induction kvs arbitrary: it)
  case Nil
  then show ?case using ahead_valid [OF Nil] by (simp add: walk_next.simps)
next
  case (Cons e kvs)
  obtain it' where "it_Next db it = Some it'" "ahead db it' kvs" using ahead_Next(2) [OF Cons.prems] by blast
  then show ?case using Cons.IH ahead_valid [OF Cons.prems] ahead_Next(1) [OF Cons.prems] by (subst walk_next.simps) simp
qed

lemma walk_behind: "behind db it kvs \<Longrightarrow> walk_prev db it = Some kvs"
proof (induction kvs arbitrary: it)
  case Nil
  then show ?case using behind_valid [OF Nil] by (simp add: walk_prev.simps)
next
  case (Cons e kvs)
  obtain it' where "it_Prev db it = Some it'" "behind db it' kvs" using behind_Prev(2) [OF Cons.prems] by blast
  then show ?case using Cons.IH behind_valid [OF Cons.prems] behind_Prev(1) [OF Cons.prems] by (subst walk_prev.simps) simp
qed

text \<open>The operations that change the database; \<open>OpPut\<close> carries the random numbers it draws.\<close>

datatype db_op = OpPut "nat \<Rightarrow> 32 word" bytes bytes | OpDelete bytes | OpReset

fun run_op :: "db_op \<Rightarrow> DB \<Rightarrow> DB option" where
  "run_op (OpPut rnd k v) db = Put rnd db k v"
| "run_op (OpDelete k) db = map_option snd (db_Delete db k)"
| "run_op OpReset db = Some (Reset db)"

fun run_ops :: "db_op list \<Rightarrow> DB \<Rightarrow> DB option" where
  "run_ops [] db = Some db"
| "run_ops (x # xs) db = (case run_op x db of None \<Rightarrow> None | Some db' \<Rightarrow> run_ops xs db')"

fun op_ok :: "db_op \<Rightarrow> bool" where
  "op_ok (OpPut rnd k v) = (length k < 2 ^ 16 \<and> length v < 2 ^ 32)"
| "op_ok _ = True"

text \<open>The same on finite maps.\<close>

fun spec_op :: "db_op \<Rightarrow> (bytes \<rightharpoonup> bytes) \<Rightarrow> (bytes \<rightharpoonup> bytes)" where
  "spec_op (OpPut rnd k v) f = f(k \<mapsto> v)"
| "spec_op (OpDelete k) f = f(k := None)"
| "spec_op OpReset f = Map.empty"

lemma run_op_rep:
  assumes "db_rep db kvs" "room db" "op_ok x"
  shows "\<exists>db' kvs'. run_op x db = Some db' \<and> db_rep db' kvs' \<and> map_of kvs' = spec_op x (map_of kvs) \<and>
    length (blocks (d_arena db')) \<le> Suc (length (blocks (d_arena db)))"
proof (cases x)
  case (OpPut rnd k v)
  then show ?thesis using Put_rep [OF assms(1,2), of k v rnd] assms(3) map_of_ord_put [of k v kvs] by auto
next
  case (OpDelete k)
  then show ?thesis using Delete_rep [OF assms(1), of k] map_of_ord_delete [of k kvs] by auto
next
  case OpReset
  then show ?thesis using Reset_rep [OF assms(1)] by (intro exI [of _ "Reset db"] exI [of _ "[]"]) (auto simp: Reset_def arena_reset_def)
qed

lemma run_ops_rep:
  assumes "db_rep db kvs" "length (blocks (d_arena db)) + length xs < 2 ^ 32 - 1" "\<forall>x \<in> set xs. op_ok x"
  shows "\<exists>db' kvs'. run_ops xs db = Some db' \<and> db_rep db' kvs' \<and> map_of kvs' = fold spec_op xs (map_of kvs)"
  using assms
proof (induction xs arbitrary: db kvs)
  case (Cons x xs)
  have "room db" using Cons.prems(2) by (simp add: room_def)
  then obtain db' kvs' where r: "run_op x db = Some db'" "db_rep db' kvs'" "map_of kvs' = spec_op x (map_of kvs)"
    "length (blocks (d_arena db')) \<le> Suc (length (blocks (d_arena db)))"
    using run_op_rep [OF Cons.prems(1), of x] Cons.prems(3) by auto
  then have "length (blocks (d_arena db')) + length xs < 2 ^ 32 - 1" using Cons.prems(2) by simp
  then show ?case using Cons.IH [OF r(2)] Cons.prems(3) r(1,3) by auto
qed auto

text \<open>C12: The in-memory database refines a finite map.  After any sequence of insertions, deletions and
  resets, whatever random heights the nodes got, every search ends, a lookup returns what the map has,
  the length is the number of keys, and the iterators deliver exactly the entries of the map, ascending
  from the first entry and descending from the last.\<close>

theorem memdb_refines:
  assumes "0 < sz" "sz \<le> 2 ^ 31" "length xs < 2 ^ 32 - 2" "\<forall>x \<in> set xs. op_ok x"
  shows "\<exists>db kvs last. run_ops xs (New sz) = Some db \<and>
    (\<forall>k. db_Get db k = Some (fold spec_op xs Map.empty k)) \<and>
    map_of kvs = fold spec_op xs Map.empty \<and> sorted_wrt (<) (map fst kvs) \<and> d_length db = int (length kvs) \<and>
    d_size db = (\<Sum>(k, v) \<leftarrow> kvs. int (length k) + int (length v)) \<and>
    walk_next db (SeekToFirst db NewIterator_db) = Some kvs \<and>
    SeekToLast db NewIterator_db = Some last \<and> walk_prev db last = Some (rev kvs)"
proof -
  have "length (blocks (d_arena (New sz))) = 1" by (simp add: New_def newArenaLocator_def)
  then obtain db kvs where r: "run_ops xs (New sz) = Some db" "db_rep db kvs" "map_of kvs = fold spec_op xs Map.empty"
    using run_ops_rep [OF New_rep [OF assms(1,2)], of xs] assms(3,4) by auto
  obtain it where it: "SeekToLast db NewIterator_db = Some it" "behind db it (rev kvs)" using seek_rep(4) [OF r(2)] by blast
  show ?thesis
    using r Get_rep [OF r(2)] rep_sorted [OF r(2)] Len_Size_rep [OF r(2)] walk_ahead [OF seek_rep(2) [OF r(2)]] it walk_behind [OF it(2)]
    by (intro exI [of _ db] exI [of _ kvs] exI [of _ it]) simp
qed

text \<open>A list of three keys put out of order, one of them replaced and one deleted again.\<close>

definition ex_ops :: "db_op list" where
  "ex_ops = [OpPut (\<lambda>_. 0) [2] [20], OpPut (\<lambda>_. 0xFFFFFFFF) [1] [10], OpPut (\<lambda>_. 0) [3] [30], OpPut (\<lambda>_. 0) [2] [21], OpDelete [3]]"

theorem memdb_refines_witness:
  "\<exists>db. run_ops ex_ops (New 64) = Some db \<and> db_Get db [2] = Some (Some [21]) \<and> db_Get db [3] = Some None \<and> db_Get db [1] = Some (Some [10])"
proof -
  have "\<forall>x \<in> set ex_ops. op_ok x" by (simp add: ex_ops_def)
  from memdb_refines [OF _ _ _ this, of 64] obtain db where
    r: "run_ops ex_ops (New 64) = Some db" "\<forall>k. db_Get db k = Some (fold spec_op ex_ops Map.empty k)"
    by (auto simp: ex_ops_def)
  then show ?thesis by (intro exI [of _ db]) (simp add: ex_ops_def)
qed

end
