(* ===== verification/Kv_Iter.thy ===== *)
theory Kv_Iter imports Kv_Key begin

text \<open>
  The iterators of package \<open>kv\<close>: the interface \<open>Iterator\<close>, the loops over it (\<open>kv/iter.go\<close> and
  \<open>WalkMemBuffer\<close> of \<open>kv/memdb_buffer.go\<close>), and the union iterator of \<open>kv/union_iter.go\<close>, which overlays
  the writes of a transaction on a snapshot.
\<close>

section \<open>The interface\<close>

text \<open>
  The errors of the package that the modelled code can return.  \<open>Crash\<close> is not an error value: it stands
  for a call that panics or does not return.
\<close>

datatype kv_error = ErrNotExist | ErrCannotSetNilValue | ErrEntryTooLarge | ErrTxnTooLarge | ErrTxnRetryable | ErrWriteConflict |
  ErrKeyExists string string | ErrSyntax | ErrRange | ErrOther nat | Crash

definition IsErrNotFound :: "kv_error option \<Rightarrow> bool" where
  "IsErrNotFound err = (err = Some ErrNotExist)"

definition IsTxnRetryableError :: "kv_error option \<Rightarrow> bool" where
  "IsTxnRetryableError err = (if err = None then False else err = Some ErrTxnRetryable \<or> err = Some ErrWriteConflict)"

record 'it Iterator =
  Valid :: "'it \<Rightarrow> bool"
  Key :: "'it \<Rightarrow> bytes"
  Value :: "'it \<Rightarrow> bytes"
  Next :: "'it \<Rightarrow> kv_error option \<times> 'it"

text \<open>What an iterator delivers before it becomes invalid.\<close>

locale kv_iterator =
  fixes I :: "'it Iterator" and left :: "'it \<Rightarrow> (bytes \<times> bytes) list \<Rightarrow> bool"
  assumes left_valid: "left it xs \<Longrightarrow> Valid I it \<longleftrightarrow> xs \<noteq> []"
    and left_entry: "left it (e # xs) \<Longrightarrow> (Key I it, Value I it) = e"
    and left_next: "left it (e # xs) \<Longrightarrow> \<exists>it'. Next I it = (None, it') \<and> left it' xs"

section \<open>Loops over an iterator\<close>

partial_function (option) NextUntil :: "'it Iterator \<Rightarrow> (bytes \<Rightarrow> bool) \<Rightarrow> 'it \<Rightarrow> (kv_error option \<times> 'it) option" where
  "NextUntil I fn it =
     (if Valid I it \<and> \<not> fn (Key I it) then
        (case Next I it of
           (Some err, it') \<Rightarrow> Some (Some err, it')
         | (None, it') \<Rightarrow> NextUntil I fn it')
      else Some (None, it))"

text \<open>The callback of \<open>WalkMemBuffer\<close> changes a state of its own.\<close>

partial_function (option) WalkMemBuffer_loop ::
  "'it Iterator \<Rightarrow> (bytes \<Rightarrow> bytes \<Rightarrow> 's \<Rightarrow> kv_error option \<times> 's) \<Rightarrow> 'it \<Rightarrow> 's \<Rightarrow> (kv_error option \<times> 's) option" where
  "WalkMemBuffer_loop I f it s =
     (if Valid I it then
        (case f (Key I it) (Value I it) s of
           (Some err, s') \<Rightarrow> Some (Some err, s')
         | (None, s') \<Rightarrow>
             (case Next I it of
                (Some err, it') \<Rightarrow> Some (Some err, s')
              | (None, it') \<Rightarrow> WalkMemBuffer_loop I f it' s'))
      else Some (None, s))"

text \<open>What the loop does on a list of entries: the callback on one entry after the other, until it fails.\<close>

fun each_entry :: "(bytes \<Rightarrow> bytes \<Rightarrow> 's \<Rightarrow> kv_error option \<times> 's) \<Rightarrow> (bytes \<times> bytes) list \<Rightarrow> 's \<Rightarrow> kv_error option \<times> 's" where
  "each_entry f [] s = (None, s)"
| "each_entry f ((k, v) # kvs) s = (case f k v s of (Some err, s') \<Rightarrow> (Some err, s') | (None, s') \<Rightarrow> each_entry f kvs s')"

context kv_iterator
begin

lemma NextUntil_left:
  assumes "left it xs"
  shows "\<exists>it'. NextUntil I fn it = Some (None, it') \<and> left it' (dropWhile (\<lambda>e. \<not> fn (fst e)) xs)"
  using assms
proof (induction xs arbitrary: it)
  case Nil
  then show ?case using left_valid [OF Nil] by (subst NextUntil.simps) simp
next
  case (Cons e xs)
  obtain it' where n: "Next I it = (None, it')" "left it' xs" using left_next [OF Cons.prems] by blast
  have "Valid I it" "Key I it = fst e" using left_valid [OF Cons.prems] left_entry [OF Cons.prems] by (auto simp: prod_eq_iff)
  then show ?case using Cons.IH [OF n(2)] Cons.prems n(1) by (subst NextUntil.simps) auto
qed

lemma walk_left: "left it xs \<Longrightarrow> WalkMemBuffer_loop I f it s = Some (each_entry f xs s)"
proof (induction xs arbitrary: it s)
  case Nil
  then show ?case using left_valid [OF Nil] by (subst WalkMemBuffer_loop.simps) simp
next
  case (Cons e xs)
  obtain it' where n: "Next I it = (None, it')" "left it' xs" using left_next [OF Cons.prems] by blast
  have "Valid I it" "Key I it = fst e" "Value I it = snd e"
    using left_valid [OF Cons.prems] left_entry [OF Cons.prems] by (auto simp: prod_eq_iff)
  then show ?case using Cons.IH [OF n(2)] n(1)
    by (subst WalkMemBuffer_loop.simps) (cases e; simp split: prod.split option.split)
qed

end

section \<open>The union iterator\<close>

record ('d, 's) UnionIter =
  dirtyIt :: 'd
  snapshotIt :: 's
  dirtyValid :: bool
  snapshotValid :: bool
  curIsDirty :: bool
  isValid :: bool
  reverse :: bool

definition dirtyNext :: "'d Iterator \<Rightarrow> ('d, 's) UnionIter \<Rightarrow> kv_error option \<times> ('d, 's) UnionIter" where
  "dirtyNext D iter = (let (err, d) = Next D (dirtyIt iter) in (err, iter\<lparr>dirtyIt := d, dirtyValid := Valid D d\<rparr>))"

definition snapshotNext :: "'s Iterator \<Rightarrow> ('d, 's) UnionIter \<Rightarrow> kv_error option \<times> ('d, 's) UnionIter" where
  "snapshotNext S iter = (let (err, s) = Next S (snapshotIt iter) in (err, iter\<lparr>snapshotIt := s, snapshotValid := Valid S s\<rparr>))"

partial_function (option) updateCur_loop ::
  "'d Iterator \<Rightarrow> 's Iterator \<Rightarrow> ('d, 's) UnionIter \<Rightarrow> (kv_error option \<times> ('d, 's) UnionIter) option" where
  "updateCur_loop D S iter =
     (if \<not> dirtyValid iter \<and> \<not> snapshotValid iter then Some (None, iter\<lparr>isValid := False\<rparr>)
      else if \<not> dirtyValid iter then Some (None, iter\<lparr>curIsDirty := False\<rparr>)
      else if \<not> snapshotValid iter then
        (let iter = iter\<lparr>curIsDirty := True\<rparr> in
         if length (Value D (dirtyIt iter)) = 0 then
           (case dirtyNext D iter of
              (Some err, iter) \<Rightarrow> Some (Some err, iter)
            | (None, iter) \<Rightarrow> updateCur_loop D S iter)
         else Some (None, iter))
      else
        (let snapshotKey = Key S (snapshotIt iter); dirtyKey = Key D (dirtyIt iter);
             cmp = (if reverse iter then - Cmp dirtyKey snapshotKey else Cmp dirtyKey snapshotKey) in
         if cmp = 0 then
           (if length (Value D (dirtyIt iter)) = 0 then
              (case dirtyNext D iter of
                 (Some err, iter) \<Rightarrow> Some (Some err, iter)
               | (None, iter) \<Rightarrow>
                   (case snapshotNext S iter of
                      (Some err, iter) \<Rightarrow> Some (Some err, iter)
                    | (None, iter) \<Rightarrow> updateCur_loop D S iter))
            else
              (case snapshotNext S iter of
                 (Some err, iter) \<Rightarrow> Some (Some err, iter)
               | (None, iter) \<Rightarrow> Some (None, iter\<lparr>curIsDirty := True\<rparr>)))
         else if cmp > 0 then Some (None, iter\<lparr>curIsDirty := False\<rparr>)
         else
           (if length (Value D (dirtyIt iter)) = 0 then
              (case dirtyNext D iter of
                 (Some err, iter) \<Rightarrow> Some (Some err, iter)
               | (None, iter) \<Rightarrow> updateCur_loop D S iter)
            else Some (None, iter\<lparr>curIsDirty := True\<rparr>))))"

definition updateCur :: "'d Iterator \<Rightarrow> 's Iterator \<Rightarrow> ('d, 's) UnionIter \<Rightarrow> kv_error option \<times> ('d, 's) UnionIter" where
  "updateCur D S iter =
     (case updateCur_loop D S (iter\<lparr>isValid := True\<rparr>) of None \<Rightarrow> (Some Crash, iter) | Some r \<Rightarrow> r)"

definition NewUnionIter :: "'d Iterator \<Rightarrow> 's Iterator \<Rightarrow> 'd \<Rightarrow> 's \<Rightarrow> bool \<Rightarrow> kv_error + ('d, 's) UnionIter" where
  "NewUnionIter D S d s rev' =
     (case updateCur D S \<lparr>dirtyIt = d, snapshotIt = s, dirtyValid = Valid D d, snapshotValid = Valid S s,
          curIsDirty = False, isValid = False, reverse = rev'\<rparr> of
        (Some err, _) \<Rightarrow> Inl err
      | (None, it) \<Rightarrow> Inr it)"

definition UnionIter_Next :: "'d Iterator \<Rightarrow> 's Iterator \<Rightarrow> ('d, 's) UnionIter \<Rightarrow> kv_error option \<times> ('d, 's) UnionIter" where
  "UnionIter_Next D S iter =
     (case (if \<not> curIsDirty iter then snapshotNext S iter else dirtyNext D iter) of
        (Some err, iter) \<Rightarrow> (Some err, iter)
      | (None, iter) \<Rightarrow> updateCur D S iter)"

definition UnionIter_Value :: "'d Iterator \<Rightarrow> 's Iterator \<Rightarrow> ('d, 's) UnionIter \<Rightarrow> bytes" where
  "UnionIter_Value D S iter = (if \<not> curIsDirty iter then Value S (snapshotIt iter) else Value D (dirtyIt iter))"

definition UnionIter_Key :: "'d Iterator \<Rightarrow> 's Iterator \<Rightarrow> ('d, 's) UnionIter \<Rightarrow> bytes" where
  "UnionIter_Key D S iter = (if \<not> curIsDirty iter then Key S (snapshotIt iter) else Key D (dirtyIt iter))"

definition union_iterator :: "'d Iterator \<Rightarrow> 's Iterator \<Rightarrow> ('d, 's) UnionIter Iterator" where
  "union_iterator D S =
     \<lparr>Valid = isValid, Key = UnionIter_Key D S, Value = UnionIter_Value D S, Next = UnionIter_Next D S\<rparr>"

section \<open>What the union iterator delivers\<close>

text \<open>The order of the entries, and the merge of the two sequences in it.  An entry of the transaction hides
  the entry of the snapshot with the same key; one with an empty value is a deletion.\<close>

definition before :: "bool \<Rightarrow> bytes \<Rightarrow> bytes \<Rightarrow> bool" where
  "before rev' a b = (if rev' then b < a else a < b)"

fun overlay :: "bool \<Rightarrow> (bytes \<times> bytes) list \<Rightarrow> (bytes \<times> bytes) list \<Rightarrow> (bytes \<times> bytes) list" where
  "overlay r [] ss = ss"
| "overlay r (d # ds) [] = (if snd d = [] then overlay r ds [] else d # overlay r ds [])"
| "overlay r (d # ds) (s # ss) =
     (if fst d = fst s then (if snd d = [] then overlay r ds ss else d # overlay r ds ss)
      else if before r (fst s) (fst d) then s # overlay r (d # ds) ss
      else if snd d = [] then overlay r ds (s # ss) else d # overlay r ds (s # ss))"

lemma overlay_in: "x \<in> set (overlay r ds ss) \<Longrightarrow> x \<in> set ds \<or> x \<in> set ss"
  by (induction r ds ss rule: overlay.induct) (auto split: if_splits)

lemma overlay_keys: "fst ` set (overlay r ds ss) \<subseteq> fst ` set ds \<union> fst ` set ss"
  by (auto dest: overlay_in)

lemma before_trans [trans]: "before r a b \<Longrightarrow> before r b c \<Longrightarrow> before r a c"
  by (auto simp: before_def split: if_splits)

lemma before_total: "a \<noteq> b \<Longrightarrow> \<not> before r a b \<Longrightarrow> before r b a"
  by (auto simp: before_def split: if_splits)

lemma before_irrefl [simp]: "\<not> before r a a"
  by (simp add: before_def)

lemma overlay_sorted:
  assumes "sorted_wrt (before r) (map fst ds)" "sorted_wrt (before r) (map fst ss)"
  shows "sorted_wrt (before r) (map fst (overlay r ds ss))"
  using assms
proof (induction r ds ss rule: overlay.induct)
  case (2 r d ds)
  then show ?case using overlay_keys [of r ds "[]"] by (auto 0 3)
next
  case (3 r d ds s ss)
  have o: "x \<in> fst ` set ds \<union> fst ` set ss" if "x \<in> fst ` set (overlay r ds ss)" for x using that overlay_keys by blast
  consider "fst d = fst s" | "fst d \<noteq> fst s" "before r (fst s) (fst d)" | "fst d \<noteq> fst s" "\<not> before r (fst s) (fst d)" by blast
  then show ?case
  proof cases
    case 1
    then have "\<forall>x \<in> fst ` set (overlay r ds ss). before r (fst d) x" using 3(6,7) overlay_keys [of r ds ss] by fastforce
    then show ?thesis using 1 3 by auto
  next
    case 2
    then have "\<forall>x \<in> fst ` set (overlay r (d # ds) ss). before r (fst s) x"
      using 3(6,7) overlay_keys [of r "d # ds" ss] before_trans by fastforce
    then show ?thesis using 2 3 by auto
  next
    case f: 3
    then have "before r (fst d) (fst s)" by (metis before_total)
    then have "\<forall>x \<in> fst ` set (overlay r ds (s # ss)). before r (fst d) x"
      using 3(6,7) overlay_keys [of r ds "s # ss"] before_trans by fastforce
    then show ?thesis using f 3 by auto
  qed
qed simp

lemma sorted_not_in: "sorted_wrt (before r) (map fst (x # xs)) \<Longrightarrow> map_of xs (fst x) = None"
  by (auto simp: map_of_eq_None_iff)

lemma overlay_map:
  assumes "sorted_wrt (before r) (map fst ds)" "sorted_wrt (before r) (map fst ss)"
  shows "map_of (overlay r ds ss) k = (case map_of ds k of None \<Rightarrow> map_of ss k | Some v \<Rightarrow> if v = [] then None else Some v)"
  using assms
proof (induction r ds ss rule: overlay.induct)
  case (2 r d ds)
  then show ?case using sorted_not_in [OF 2(3)] by (cases d) (auto split: option.splits)
next
  case (3 r d ds s ss)
  obtain dk dv sk sv where e: "d = (dk, dv)" "s = (sk, sv)" by fastforce
  have n: "map_of ds dk = None" "map_of ss sk = None" using sorted_not_in [OF 3(6)] sorted_not_in [OF 3(7)] e by simp_all
  have n2: "map_of ss dk = None" if "before r dk sk"
    using 3(7) that before_trans e by (auto simp: map_of_eq_None_iff) (metis before_irrefl before_trans image_eqI fst_conv)
  have IH: "map_of (overlay r ds ss) k = (case map_of ds k of None \<Rightarrow> map_of ss k | Some v \<Rightarrow> if v = [] then None else Some v)"
    if "dk = sk" using 3(1,2,6,7) that e by (cases "dv = []") auto
  consider "dk = sk" | "dk \<noteq> sk" "before r sk dk" | "dk \<noteq> sk" "\<not> before r sk dk" "before r dk sk" using before_total by blast
  then show ?case
  proof cases
    case 1
    then show ?thesis using IH e n by (auto split: option.splits)
  next
    case 2
    then have "map_of (d # ds) sk = None" using 3(6) e before_trans
      by (auto simp: map_of_eq_None_iff) (metis before_irrefl before_trans image_eqI fst_conv)
    then show ?thesis using 3(3) 3(6,7) 2 e by (auto split: option.splits)
  next
    case f: 3
    then show ?thesis using 3(4,5) 3(6,7) n n2 e by (auto split: option.splits)
  qed
qed simp

section \<open>The union iterator is an iterator over the overlay\<close>

definition union_state ::
  "('d \<Rightarrow> (bytes \<times> bytes) list \<Rightarrow> bool) \<Rightarrow> ('s \<Rightarrow> (bytes \<times> bytes) list \<Rightarrow> bool) \<Rightarrow> ('d, 's) UnionIter \<Rightarrow>
     (bytes \<times> bytes) list \<Rightarrow> (bytes \<times> bytes) list \<Rightarrow> bool" where
  "union_state dleft sleft iter ds ss =
     (dleft (dirtyIt iter) ds \<and> sleft (snapshotIt iter) ss \<and> dirtyValid iter = (ds \<noteq> []) \<and> snapshotValid iter = (ss \<noteq> []))"

definition union_left ::
  "('d \<Rightarrow> (bytes \<times> bytes) list \<Rightarrow> bool) \<Rightarrow> ('s \<Rightarrow> (bytes \<times> bytes) list \<Rightarrow> bool) \<Rightarrow> ('d, 's) UnionIter \<Rightarrow>
     (bytes \<times> bytes) list \<Rightarrow> bool" where
  "union_left dleft sleft iter xs =
     (\<exists>ds ss. union_state dleft sleft iter ds ss \<and>
        (if \<not> isValid iter then xs = []
         else if curIsDirty iter then ds \<noteq> [] \<and> xs = hd ds # overlay (reverse iter) (tl ds) ss
         else ss \<noteq> [] \<and> xs = hd ss # overlay (reverse iter) ds (tl ss)))"

lemma union_state_simps [simp]:
  "union_state dleft sleft (iter\<lparr>isValid := b\<rparr>) ds ss = union_state dleft sleft iter ds ss"
  "union_state dleft sleft (iter\<lparr>curIsDirty := c\<rparr>) ds ss = union_state dleft sleft iter ds ss"
  by (simp_all add: union_state_def)

lemma union_leftI:
  "union_state dleft sleft iter ds ss \<Longrightarrow> \<not> isValid iter \<Longrightarrow> union_left dleft sleft iter []"
  "union_state dleft sleft iter (d # ds) ss \<Longrightarrow> isValid iter \<Longrightarrow> curIsDirty iter \<Longrightarrow>
     union_left dleft sleft iter (d # overlay (reverse iter) ds ss)"
  "union_state dleft sleft iter ds (s # ss) \<Longrightarrow> isValid iter \<Longrightarrow> \<not> curIsDirty iter \<Longrightarrow>
     union_left dleft sleft iter (s # overlay (reverse iter) ds ss)"
  unfolding union_left_def by (intro exI conjI, assumption, simp)+

lemma Cmp_before:
  "(if r then - Cmp a b else Cmp a b) = 0 \<longleftrightarrow> a = b" "a \<noteq> b \<Longrightarrow> (if r then - Cmp a b else Cmp a b) > 0 \<longleftrightarrow> before r b a"
  by (auto simp: Cmp_def before_def)

locale union_iterators = dirty: kv_iterator D dleft + snap: kv_iterator S sleft
  for D :: "'d Iterator" and dleft and S :: "'s Iterator" and sleft
begin

lemma dirtyNext_state:
  assumes "union_state dleft sleft iter (d # ds) ss"
  shows "\<exists>iter'. dirtyNext D iter = (None, iter') \<and> union_state dleft sleft iter' ds ss \<and>
    isValid iter' = isValid iter \<and> reverse iter' = reverse iter"
proof -
  obtain it' where "Next D (dirtyIt iter) = (None, it')" "dleft it' ds" "Valid D it' = (ds \<noteq> [])"
    using dirty.left_next dirty.left_valid assms unfolding union_state_def by blast
  then show ?thesis using assms by (simp add: dirtyNext_def union_state_def)
qed

lemma snapshotNext_state:
  assumes "union_state dleft sleft iter ds (s # ss)"
  shows "\<exists>iter'. snapshotNext S iter = (None, iter') \<and> union_state dleft sleft iter' ds ss \<and>
    isValid iter' = isValid iter \<and> reverse iter' = reverse iter"
proof -
  obtain it' where "Next S (snapshotIt iter) = (None, it')" "sleft it' ss" "Valid S it' = (ss \<noteq> [])"
    using snap.left_next snap.left_valid assms unfolding union_state_def by blast
  then show ?thesis using assms by (simp add: snapshotNext_def union_state_def)
qed

lemma state_heads:
  assumes "union_state dleft sleft iter ds ss"
  shows "ds \<noteq> [] \<Longrightarrow> dirtyValid iter \<and> Key D (dirtyIt iter) = fst (hd ds) \<and> Value D (dirtyIt iter) = snd (hd ds)"
    "ss \<noteq> [] \<Longrightarrow> snapshotValid iter \<and> Key S (snapshotIt iter) = fst (hd ss) \<and> Value S (snapshotIt iter) = snd (hd ss)"
    "ds = [] \<Longrightarrow> \<not> dirtyValid iter" "ss = [] \<Longrightarrow> \<not> snapshotValid iter"
  using assms dirty.left_entry [of "dirtyIt iter" "hd ds" "tl ds"] snap.left_entry [of "snapshotIt iter" "hd ss" "tl ss"]
  by (auto simp: union_state_def prod_eq_iff)

lemma updateCur_loop_left:
  assumes "union_state dleft sleft iter ds ss" "isValid iter" "reverse iter = r"
  shows "\<exists>iter'. updateCur_loop D S iter = Some (None, iter') \<and> union_left dleft sleft iter' (overlay r ds ss)"
  using assms
proof (induction r ds ss arbitrary: iter rule: overlay.induct)
  case (1 r ss)
  show ?case
  proof (cases ss)
    case Nil
    then show ?thesis using state_heads [OF 1(1)] union_leftI(1) [of dleft sleft "iter\<lparr>isValid := False\<rparr>"] 1(1)
      by (subst updateCur_loop.simps) simp
  next
    case (Cons s ss')
    then show ?thesis using state_heads [OF 1(1)] union_leftI(3) [of dleft sleft "iter\<lparr>curIsDirty := False\<rparr>" "[]" s ss'] 1
      by (subst updateCur_loop.simps) simp
  qed
next
  case (2 r d ds)
  show ?case
  proof (cases "snd d = []")
    case True
    obtain iter' where "dirtyNext D (iter\<lparr>curIsDirty := True\<rparr>) = (None, iter')" "union_state dleft sleft iter' ds []"
      "isValid iter'" "reverse iter' = r" using dirtyNext_state [of "iter\<lparr>curIsDirty := True\<rparr>" d ds "[]"] 2(3-) by auto
    then show ?thesis using True 2(1) state_heads [OF 2(3)] by (subst updateCur_loop.simps) (simp add: Let_def)
  next
    case False
    then show ?thesis using 2(3-) state_heads [OF 2(3)] union_leftI(2) [of dleft sleft "iter\<lparr>curIsDirty := True\<rparr>" d ds "[]"]
      by (subst updateCur_loop.simps) (simp add: Let_def)
  qed
next
  case (3 r d ds s ss)
  note h = state_heads [OF 3(6)]
  consider (eqdel) "fst d = fst s" "snd d = []" | (eq) "fst d = fst s" "snd d \<noteq> []" | (snap) "fst d \<noteq> fst s" "before r (fst s) (fst d)"
    | (del) "fst d \<noteq> fst s" "\<not> before r (fst s) (fst d)" "snd d = []" | (dirty) "fst d \<noteq> fst s" "\<not> before r (fst s) (fst d)" "snd d \<noteq> []" by blast
  then show ?case
  proof cases
    case eqdel
    obtain i1 where 1: "dirtyNext D iter = (None, i1)" "union_state dleft sleft i1 ds (s # ss)" "isValid i1" "reverse i1 = r"
      using dirtyNext_state [OF 3(6)] 3(7,8) by auto
    obtain i2 where 2: "snapshotNext S i1 = (None, i2)" "union_state dleft sleft i2 ds ss" "isValid i2" "reverse i2 = r"
      using snapshotNext_state [OF 1(2)] 1(3,4) by auto
    show ?thesis using eqdel 3(1) [OF _ _ 2(2-4)] h 1(1) 2(1) 3(8)
      by (subst updateCur_loop.simps) (simp add: Let_def Cmp_before(1))
  next
    case eq
    obtain i2 where 2: "snapshotNext S iter = (None, i2)" "union_state dleft sleft i2 (d # ds) ss" "isValid i2" "reverse i2 = r"
      using snapshotNext_state [OF 3(6)] 3(7,8) by auto
    then have "union_left dleft sleft (i2\<lparr>curIsDirty := True\<rparr>) (d # overlay r ds ss)"
      using union_leftI(2) [of dleft sleft "i2\<lparr>curIsDirty := True\<rparr>"] by simp
    then show ?thesis using eq h 2(1) 3(8) by (subst updateCur_loop.simps) (simp add: Let_def Cmp_before(1))
  next
    case snap
    then have "union_left dleft sleft (iter\<lparr>curIsDirty := False\<rparr>) (s # overlay r (d # ds) ss)"
      using 3(6-) union_leftI(3) [of dleft sleft "iter\<lparr>curIsDirty := False\<rparr>"] by simp
    then show ?thesis using snap h 3(8) Cmp_before [where a = "fst d" and b = "fst s" and r = r]
      by (subst updateCur_loop.simps) (simp add: Let_def)
  next
    case del
    obtain i1 where 1: "dirtyNext D iter = (None, i1)" "union_state dleft sleft i1 ds (s # ss)" "isValid i1" "reverse i1 = r"
      using dirtyNext_state [OF 3(6)] 3(7,8) by auto
    show ?thesis using del 3(4) [OF _ _ _ 1(2-4)] h 1(1) 3(8) Cmp_before [where a = "fst d" and b = "fst s" and r = r]
      by (subst updateCur_loop.simps) (simp add: Let_def)
  next
    case dirty
    then have "union_left dleft sleft (iter\<lparr>curIsDirty := True\<rparr>) (d # overlay r ds (s # ss))"
      using 3(6-) union_leftI(2) [of dleft sleft "iter\<lparr>curIsDirty := True\<rparr>"] by simp
    then show ?thesis using dirty h 3(8) Cmp_before [where a = "fst d" and b = "fst s" and r = r]
      by (subst updateCur_loop.simps) (simp add: Let_def)
  qed
qed

lemma updateCur_left:
  assumes "union_state dleft sleft iter ds ss"
  shows "\<exists>iter'. updateCur D S iter = (None, iter') \<and> union_left dleft sleft iter' (overlay (reverse iter) ds ss)"
  using updateCur_loop_left [of "iter\<lparr>isValid := True\<rparr>" ds ss "reverse iter"] assms by (auto simp: updateCur_def)

lemma NewUnionIter_left:
  assumes "dleft d ds" "sleft s ss"
  shows "\<exists>iter. NewUnionIter D S d s r = Inr iter \<and> union_left dleft sleft iter (overlay r ds ss)"
  using updateCur_left [of "\<lparr>dirtyIt = d, snapshotIt = s, dirtyValid = Valid D d, snapshotValid = Valid S s,
      curIsDirty = False, isValid = False, reverse = r\<rparr>" ds ss] assms dirty.left_valid snap.left_valid
  by (auto simp: NewUnionIter_def union_state_def)

sublocale union: kv_iterator "union_iterator D S" "union_left dleft sleft"
proof
  fix it and xs :: "(bytes \<times> bytes) list" and e :: "bytes \<times> bytes"
  show "Valid (union_iterator D S) it = (xs \<noteq> [])" if "union_left dleft sleft it xs"
    using that by (auto simp: union_left_def union_iterator_def split: if_splits)
  assume l: "union_left dleft sleft it (e # xs)"
  then obtain ds ss where s: "union_state dleft sleft it ds ss" "isValid it"
    "if curIsDirty it then ds \<noteq> [] \<and> e = hd ds \<and> xs = overlay (reverse it) (tl ds) ss else ss \<noteq> [] \<and> e = hd ss \<and> xs = overlay (reverse it) ds (tl ss)"
    by (auto simp: union_left_def split: if_splits)
  show "(Key (union_iterator D S) it, Value (union_iterator D S) it) = e"
    using s(3) state_heads [OF s(1)] by (auto simp: union_iterator_def UnionIter_Key_def UnionIter_Value_def split: if_splits)
  show "\<exists>it'. Next (union_iterator D S) it = (None, it') \<and> union_left dleft sleft it' xs"
  proof (cases "curIsDirty it")
    case True
    then obtain i where "dirtyNext D it = (None, i)" "union_state dleft sleft i (tl ds) ss" "reverse i = reverse it"
      using dirtyNext_state [of it "hd ds" "tl ds" ss] s by auto
    then show ?thesis using updateCur_left [of i "tl ds" ss] s(3) True by (auto simp: union_iterator_def UnionIter_Next_def)
  next
    case False
    then obtain i where "snapshotNext S it = (None, i)" "union_state dleft sleft i ds (tl ss)" "reverse i = reverse it"
      using snapshotNext_state [of it ds "hd ss" "tl ss"] s by auto
    then show ?thesis using updateCur_left [of i ds "tl ss"] s(3) False by (auto simp: union_iterator_def UnionIter_Next_def)
  qed
qed

lemma union_is_iterator: "kv_iterator (union_iterator D S) (union_left dleft sleft)"
  by (rule union.kv_iterator_axioms)

end

end
