(* ===== verification/Kv_Store.thy ===== *)
theory Kv_Store imports Memdb_Correct Kv_Iter begin

text \<open>
  The stores of package \<open>kv\<close>: the interfaces \<open>Retriever\<close> and \<open>RetrieverMutator\<close> of \<open>kv/kv.go\<close> as locales,
  the memory buffer of a transaction (\<open>kv/memdb_buffer.go\<close>, and \<open>lazyMemBuffer\<close> of \<open>kv/union_store.go\<close>), the
  mock snapshot of \<open>kv/mock.go\<close>, \<open>BufferStore\<close> of \<open>kv/buffer_store.go\<close> and \<open>unionStore\<close> of
  \<open>kv/union_store.go\<close>.  The union store is shown to be an ordered store whose contents are those of the
  snapshot with the writes of the transaction on top.
\<close>

section \<open>The interfaces\<close>

text \<open>A nil key is \<open>None\<close>.  \<open>'x\<close> is the state of the store and \<open>'it\<close> that of its iterators.\<close>

record ('x, 'it) Retriever =
  r_Get :: "'x \<Rightarrow> bytes \<Rightarrow> kv_error + bytes"
  r_Iter :: "'x \<Rightarrow> bytes option \<Rightarrow> bytes option \<Rightarrow> kv_error + 'it"
  r_IterReverse :: "'x \<Rightarrow> bytes option \<Rightarrow> kv_error + 'it"
  r_iterator :: "'x \<Rightarrow> 'it Iterator"

record 'x Mutator =
  m_Set :: "'x \<Rightarrow> bytes \<Rightarrow> bytes \<Rightarrow> kv_error option \<times> 'x"
  m_Delete :: "'x \<Rightarrow> bytes \<Rightarrow> kv_error option \<times> 'x"

definition in_range :: "bytes option \<Rightarrow> bytes option \<Rightarrow> (bytes \<times> bytes) list \<Rightarrow> (bytes \<times> bytes) list" where
  "in_range lo hi kvs = filter (\<lambda>e. (lo = None \<or> the lo \<le> fst e) \<and> (hi = None \<or> fst e < the hi)) kvs"

text \<open>A store that holds the entries \<open>kvs\<close>, and the iterators over it.\<close>

locale retriever =
  fixes R :: "('x, 'it) Retriever" and rep :: "'x \<Rightarrow> (bytes \<times> bytes) list \<Rightarrow> bool"
    and left :: "'x \<Rightarrow> 'it \<Rightarrow> (bytes \<times> bytes) list \<Rightarrow> bool"
  assumes rep_ok: "rep x kvs \<Longrightarrow> sorted_wrt (<) (map fst kvs) \<and> (\<forall>e \<in> set kvs. snd e \<noteq> [])"
    and get_rep: "rep x kvs \<Longrightarrow> r_Get R x k = (case map_of kvs k of None \<Rightarrow> Inl ErrNotExist | Some v \<Rightarrow> Inr v)"
    and iterator: "kv_iterator (r_iterator R x) (left x)"
    and iter_rep: "rep x kvs \<Longrightarrow> \<exists>it. r_Iter R x lo hi = Inr it \<and> left x it (in_range lo hi kvs)"
    and iter_reverse_rep: "rep x kvs \<Longrightarrow> \<exists>it. r_IterReverse R x hi = Inr it \<and> left x it (rev (in_range None hi kvs))"

text \<open>\<open>fits x ws\<close> says that the writes \<open>ws\<close>, in this order, stay within the limits of the store.\<close>

locale retriever_mutator = retriever R rep left
  for R :: "('x, 'it) Retriever" and rep and left +
  fixes M :: "'x Mutator" and fits :: "'x \<Rightarrow> (bytes \<times> bytes) list \<Rightarrow> bool"
  assumes set_rep: "rep x kvs \<Longrightarrow> fits x ((k, v) # ws) \<Longrightarrow> v \<noteq> [] \<Longrightarrow>
      \<exists>x' kvs'. m_Set M x k v = (None, x') \<and> rep x' kvs' \<and> map_of kvs' = (map_of kvs)(k \<mapsto> v) \<and> fits x' ws"
    and delete_rep: "rep x kvs \<Longrightarrow> fits x ((k, []) # ws) \<Longrightarrow>
      \<exists>x' kvs'. m_Delete M x k = (None, x') \<and> rep x' kvs' \<and> map_of kvs' = (map_of kvs)(k := None) \<and> fits x' ws"
    and set_nil: "rep x kvs \<Longrightarrow> fits x ws \<Longrightarrow> \<exists>x'. m_Set M x k [] = (Some ErrCannotSetNilValue, x') \<and> rep x' kvs \<and> fits x' ws"

section \<open>The memory buffer\<close>

definition TxnEntrySizeLimit :: int where "TxnEntrySizeLimit = 6 * 1024 * 1024"

record memDbBuffer =
  mb_db :: DB
  entrySizeLimit :: int
  bufferSizeLimit :: "64 word"

record memDbIter =
  mi_iter :: db_iter
  mi_start :: "bytes option"
  mi_end :: "bytes option"
  mi_reverse :: bool

text \<open>\<open>lim\<close> is the value of the variable \<open>TxnTotalSizeLimit\<close>.  A block of negative size cannot be made.\<close>

definition NewMemDbBuffer :: "64 word \<Rightarrow> int \<Rightarrow> memDbBuffer option" where
  "NewMemDbBuffer lim initBlockSize =
     (if initBlockSize < 0 then None
      else Some \<lparr>mb_db = New (nat initBlockSize), entrySizeLimit = TxnEntrySizeLimit, bufferSizeLimit = lim\<rparr>)"

definition mem_Iter :: "memDbBuffer \<Rightarrow> bytes option \<Rightarrow> bytes option \<Rightarrow> kv_error + memDbIter" where
  "mem_Iter m k upperBound =
     (case (case k of None \<Rightarrow> Some (SeekToFirst (mb_db m) NewIterator_db) | Some k' \<Rightarrow> it_Seek (mb_db m) NewIterator_db k') of
        None \<Rightarrow> Inl Crash
      | Some it \<Rightarrow> Inr \<lparr>mi_iter = it, mi_start = k, mi_end = upperBound, mi_reverse = False\<rparr>)"

definition mem_IterReverse :: "memDbBuffer \<Rightarrow> bytes option \<Rightarrow> kv_error + memDbIter" where
  "mem_IterReverse m k =
     (case (case k of None \<Rightarrow> SeekToLast (mb_db m) NewIterator_db | Some k' \<Rightarrow> SeekForExclusivePrev (mb_db m) NewIterator_db k') of
        None \<Rightarrow> Inl Crash
      | Some it \<Rightarrow> Inr \<lparr>mi_iter = it, mi_start = None, mi_end = k, mi_reverse = True\<rparr>)"

definition mem_Get :: "memDbBuffer \<Rightarrow> bytes \<Rightarrow> kv_error + bytes" where
  "mem_Get m k = (case db_Get (mb_db m) k of None \<Rightarrow> Inl Crash | Some None \<Rightarrow> Inl ErrNotExist | Some (Some v) \<Rightarrow> Inr v)"

definition mem_Size :: "memDbBuffer \<Rightarrow> int" where "mem_Size m = d_size (mb_db m)"
definition mem_Len :: "memDbBuffer \<Rightarrow> int" where "mem_Len m = d_length (mb_db m)"

definition mem_Set :: "(nat \<Rightarrow> 32 word) \<Rightarrow> memDbBuffer \<Rightarrow> bytes \<Rightarrow> bytes \<Rightarrow> kv_error option \<times> memDbBuffer" where
  "mem_Set rnd m k v =
     (if length v = 0 then (Some ErrCannotSetNilValue, m)
      else if int (length k) + int (length v) > entrySizeLimit m then (Some ErrEntryTooLarge, m)
      else case Put rnd (mb_db m) k v of
        None \<Rightarrow> (Some Crash, m)
      | Some db \<Rightarrow>
          let m' = m\<lparr>mb_db := db\<rparr> in
          if mem_Size m' > sint (bufferSizeLimit m') then (Some ErrTxnTooLarge, m') else (None, m'))"

definition mem_Delete :: "(nat \<Rightarrow> 32 word) \<Rightarrow> memDbBuffer \<Rightarrow> bytes \<Rightarrow> kv_error option \<times> memDbBuffer" where
  "mem_Delete rnd m k =
     (case Put rnd (mb_db m) k [] of None \<Rightarrow> (Some Crash, m) | Some db \<Rightarrow> (None, m\<lparr>mb_db := db\<rparr>))"

definition mem_Reset :: "memDbBuffer \<Rightarrow> memDbBuffer" where
  "mem_Reset m = m\<lparr>mb_db := Reset (mb_db m)\<rparr>"

definition memDbIter_Next :: "DB \<Rightarrow> memDbIter \<Rightarrow> kv_error option \<times> memDbIter" where
  "memDbIter_Next db i =
     (case (if mi_reverse i then it_Prev db (mi_iter i) else it_Next db (mi_iter i)) of
        None \<Rightarrow> (Some Crash, i)
      | Some it \<Rightarrow> (None, i\<lparr>mi_iter := it\<rparr>))"

definition memDbIter_Valid :: "memDbIter \<Rightarrow> bool" where
  "memDbIter_Valid i =
     (if \<not> mi_reverse i then
        curr (mi_iter i) \<noteq> None \<and> (case mi_end i of None \<Rightarrow> True | Some e \<Rightarrow> it_key (mi_iter i) < e)
      else curr (mi_iter i) \<noteq> None)"

definition memDbIterator :: "DB \<Rightarrow> memDbIter Iterator" where
  "memDbIterator db =
     \<lparr>Valid = memDbIter_Valid, Key = (\<lambda>i. it_key (mi_iter i)), Value = (\<lambda>i. it_val (mi_iter i)), Next = memDbIter_Next db\<rparr>"

section \<open>The lazy buffer\<close>

datatype bufferIter = InvalidIterator | MemDbIter memDbIter

record lazyMemBuffer =
  mb :: "memDbBuffer option"
  cap :: int

definition lazy_Get :: "lazyMemBuffer \<Rightarrow> bytes \<Rightarrow> kv_error + bytes" where
  "lazy_Get lmb k = (case mb lmb of None \<Rightarrow> Inl ErrNotExist | Some m \<Rightarrow> mem_Get m k)"

definition lazy_buffer :: "64 word \<Rightarrow> lazyMemBuffer \<Rightarrow> memDbBuffer option" where
  "lazy_buffer lim lmb = (case mb lmb of None \<Rightarrow> NewMemDbBuffer lim (cap lmb) | Some m \<Rightarrow> Some m)"

definition lazy_Set :: "64 word \<Rightarrow> (nat \<Rightarrow> 32 word) \<Rightarrow> lazyMemBuffer \<Rightarrow> bytes \<Rightarrow> bytes \<Rightarrow> kv_error option \<times> lazyMemBuffer" where
  "lazy_Set lim rnd lmb k v =
     (case lazy_buffer lim lmb of
        None \<Rightarrow> (Some Crash, lmb)
      | Some m \<Rightarrow> let (err, m') = mem_Set rnd m k v in (err, lmb\<lparr>mb := Some m'\<rparr>))"

definition lazy_Delete :: "64 word \<Rightarrow> (nat \<Rightarrow> 32 word) \<Rightarrow> lazyMemBuffer \<Rightarrow> bytes \<Rightarrow> kv_error option \<times> lazyMemBuffer" where
  "lazy_Delete lim rnd lmb k =
     (case lazy_buffer lim lmb of
        None \<Rightarrow> (Some Crash, lmb)
      | Some m \<Rightarrow> let (err, m') = mem_Delete rnd m k in (err, lmb\<lparr>mb := Some m'\<rparr>))"

definition lazy_Iter :: "lazyMemBuffer \<Rightarrow> bytes option \<Rightarrow> bytes option \<Rightarrow> kv_error + bufferIter" where
  "lazy_Iter lmb k upperBound =
     (case mb lmb of None \<Rightarrow> Inr InvalidIterator | Some m \<Rightarrow> map_sum id MemDbIter (mem_Iter m k upperBound))"

definition lazy_IterReverse :: "lazyMemBuffer \<Rightarrow> bytes option \<Rightarrow> kv_error + bufferIter" where
  "lazy_IterReverse lmb k =
     (case mb lmb of None \<Rightarrow> Inr InvalidIterator | Some m \<Rightarrow> map_sum id MemDbIter (mem_IterReverse m k))"

definition lazy_Size :: "lazyMemBuffer \<Rightarrow> int" where
  "lazy_Size lmb = (case mb lmb of None \<Rightarrow> 0 | Some m \<Rightarrow> mem_Size m)"

definition lazy_Len :: "lazyMemBuffer \<Rightarrow> int" where
  "lazy_Len lmb = (case mb lmb of None \<Rightarrow> 0 | Some m \<Rightarrow> mem_Len m)"

definition lazy_Reset :: "lazyMemBuffer \<Rightarrow> lazyMemBuffer" where
  "lazy_Reset lmb = (case mb lmb of None \<Rightarrow> lmb | Some m \<Rightarrow> lmb\<lparr>mb := Some (mem_Reset m)\<rparr>)"

definition lazy_SetCap :: "lazyMemBuffer \<Rightarrow> int \<Rightarrow> lazyMemBuffer" where
  "lazy_SetCap lmb c = lmb\<lparr>cap := c\<rparr>"

fun bufferIter_Valid :: "bufferIter \<Rightarrow> bool" where
  "bufferIter_Valid InvalidIterator = False"
| "bufferIter_Valid (MemDbIter i) = memDbIter_Valid i"

fun bufferIter_Key :: "bufferIter \<Rightarrow> bytes" where
  "bufferIter_Key InvalidIterator = []"
| "bufferIter_Key (MemDbIter i) = it_key (mi_iter i)"

fun bufferIter_Value :: "bufferIter \<Rightarrow> bytes" where
  "bufferIter_Value InvalidIterator = []"
| "bufferIter_Value (MemDbIter i) = it_val (mi_iter i)"

text \<open>A memory iterator only comes from a buffer that has been made.\<close>

fun bufferIter_Next :: "lazyMemBuffer \<Rightarrow> bufferIter \<Rightarrow> kv_error option \<times> bufferIter" where
  "bufferIter_Next lmb InvalidIterator = (None, InvalidIterator)"
| "bufferIter_Next lmb (MemDbIter i) =
     (case mb lmb of None \<Rightarrow> (Some Crash, MemDbIter i) | Some m \<Rightarrow> let (err, i') = memDbIter_Next (mb_db m) i in (err, MemDbIter i'))"

definition bufferIterator :: "lazyMemBuffer \<Rightarrow> bufferIter Iterator" where
  "bufferIterator lmb = \<lparr>Valid = bufferIter_Valid, Key = bufferIter_Key, Value = bufferIter_Value, Next = bufferIter_Next lmb\<rparr>"

section \<open>The mock snapshot\<close>

definition mockSnapshot :: "(memDbBuffer, memDbIter) Retriever" where
  "mockSnapshot = \<lparr>r_Get = mem_Get, r_Iter = mem_Iter, r_IterReverse = mem_IterReverse, r_iterator = (\<lambda>m. memDbIterator (mb_db m))\<rparr>"

section \<open>The buffer store and the union store\<close>

text \<open>
  The state of the store is the buffer, the retriever's state, the random numbers that the coming
  insertions draw, and the options; \<open>R\<close> are the operations of the retriever.
\<close>

datatype option_value = ExistErrInfo string string | OtherValue nat

record 'y unionStore =
  us_buf :: lazyMemBuffer
  us_r :: 'y
  us_total :: "64 word"
  us_rnd :: "nat \<Rightarrow> nat \<Rightarrow> 32 word"
  keyExistErrs :: "bytes \<rightharpoonup> string \<times> string"
  opts :: "nat \<rightharpoonup> option_value"

definition DefaultTxnMembufCap :: int where "DefaultTxnMembufCap = 4 * 1024"
definition PresumeKeyNotExistsError :: nat where "PresumeKeyNotExistsError = 2"

definition NewBufferStore_buf :: "int \<Rightarrow> lazyMemBuffer" where
  "NewBufferStore_buf c = \<lparr>mb = None, cap = (if c \<le> 0 then DefaultTxnMembufCap else c)\<rparr>"

definition NewUnionStore :: "64 word \<Rightarrow> (nat \<Rightarrow> nat \<Rightarrow> 32 word) \<Rightarrow> 'y \<Rightarrow> 'y unionStore" where
  "NewUnionStore lim rnds snapshot =
     \<lparr>us_buf = NewBufferStore_buf DefaultTxnMembufCap, us_r = snapshot, us_total = lim, us_rnd = rnds,
      keyExistErrs = Map.empty, opts = Map.empty\<rparr>"

definition bs_Get :: "('y, 'it) Retriever \<Rightarrow> 'y unionStore \<Rightarrow> bytes \<Rightarrow> kv_error + bytes" where
  "bs_Get R s k =
     (case (case lazy_Get (us_buf s) k of
              Inl err \<Rightarrow> if IsErrNotFound (Some err) then r_Get R (us_r s) k else Inl err
            | Inr v \<Rightarrow> Inr v) of
        Inl err \<Rightarrow> Inl err
      | Inr v \<Rightarrow> if length v = 0 then Inl ErrNotExist else Inr v)"

definition bs_Iter :: "('y, 'it) Retriever \<Rightarrow> 'y unionStore \<Rightarrow> bytes option \<Rightarrow> bytes option \<Rightarrow> kv_error + (bufferIter, 'it) UnionIter" where
  "bs_Iter R s k upperBound =
     (case lazy_Iter (us_buf s) k upperBound of
        Inl err \<Rightarrow> Inl err
      | Inr bufferIt \<Rightarrow>
          (case r_Iter R (us_r s) k upperBound of
             Inl err \<Rightarrow> Inl err
           | Inr retrieverIt \<Rightarrow> NewUnionIter (bufferIterator (us_buf s)) (r_iterator R (us_r s)) bufferIt retrieverIt False))"

definition bs_IterReverse :: "('y, 'it) Retriever \<Rightarrow> 'y unionStore \<Rightarrow> bytes option \<Rightarrow> kv_error + (bufferIter, 'it) UnionIter" where
  "bs_IterReverse R s k =
     (case lazy_IterReverse (us_buf s) k of
        Inl err \<Rightarrow> Inl err
      | Inr bufferIt \<Rightarrow>
          (case r_IterReverse R (us_r s) k of
             Inl err \<Rightarrow> Inl err
           | Inr retrieverIt \<Rightarrow> NewUnionIter (bufferIterator (us_buf s)) (r_iterator R (us_r s)) bufferIt retrieverIt True))"

definition us_Set :: "'y unionStore \<Rightarrow> bytes \<Rightarrow> bytes \<Rightarrow> kv_error option \<times> 'y unionStore" where
  "us_Set s k v =
     (let (err, b) = lazy_Set (us_total s) (us_rnd s 0) (us_buf s) k v in
      (err, s\<lparr>us_buf := b, us_rnd := (\<lambda>n. us_rnd s (Suc n))\<rparr>))"

definition us_Delete :: "'y unionStore \<Rightarrow> bytes \<Rightarrow> kv_error option \<times> 'y unionStore" where
  "us_Delete s k =
     (let (err, b) = lazy_Delete (us_total s) (us_rnd s 0) (us_buf s) k in
      (err, s\<lparr>us_buf := b, us_rnd := (\<lambda>n. us_rnd s (Suc n))\<rparr>))"

definition WalkBuffer :: "'y unionStore \<Rightarrow> (bytes \<Rightarrow> bytes \<Rightarrow> 's \<Rightarrow> kv_error option \<times> 's) \<Rightarrow> 's \<Rightarrow> kv_error option \<times> 's" where
  "WalkBuffer us f s =
     (case lazy_Iter (us_buf us) None None of
        Inl err \<Rightarrow> (Some err, s)
      | Inr iter \<Rightarrow> (case WalkMemBuffer_loop (bufferIterator (us_buf us)) f iter s of None \<Rightarrow> (Some Crash, s) | Some r \<Rightarrow> r))"

definition SaveTo :: "'y unionStore \<Rightarrow> 's Mutator \<Rightarrow> 's \<Rightarrow> kv_error option \<times> 's" where
  "SaveTo us m s = WalkBuffer us (\<lambda>k v s. if length v = 0 then m_Delete m s k else m_Set m s k v) s"

definition us_Get :: "('y, 'it) Retriever \<Rightarrow> 'y unionStore \<Rightarrow> bytes \<Rightarrow> kv_error + bytes" where
  "us_Get R s k =
     (let r = (case lazy_Get (us_buf s) k of
                 Inl err \<Rightarrow> if IsErrNotFound (Some err) then r_Get R (us_r s) k else Inl err
               | Inr v \<Rightarrow> Inr v);
          v = (case r of Inl _ \<Rightarrow> [] | Inr v \<Rightarrow> v)
      in case (if length v > 0 then opts s PresumeKeyNotExistsError else None) of
           Some (ExistErrInfo idx val) \<Rightarrow> Inl (ErrKeyExists val idx)
         | Some (OtherValue _) \<Rightarrow> Inl Crash
         | None \<Rightarrow> (case r of Inl err \<Rightarrow> Inl err | Inr v \<Rightarrow> if length v = 0 then Inl ErrNotExist else Inr v))"

definition us_Reset :: "'y unionStore \<Rightarrow> 'y unionStore" where
  "us_Reset s = s\<lparr>us_buf := lazy_Reset (us_buf s)\<rparr>"

definition us_SetCap :: "'y unionStore \<Rightarrow> int \<Rightarrow> 'y unionStore" where
  "us_SetCap s c = s\<lparr>us_buf := lazy_SetCap (us_buf s) c\<rparr>"

definition GetKeyExistErrInfo :: "'y unionStore \<Rightarrow> bytes \<Rightarrow> (string \<times> string) option" where
  "GetKeyExistErrInfo s k = keyExistErrs s k"

definition DeleteKeyExistErrInfo :: "'y unionStore \<Rightarrow> bytes \<Rightarrow> 'y unionStore" where
  "DeleteKeyExistErrInfo s k = s\<lparr>keyExistErrs := (keyExistErrs s)(k := None)\<rparr>"

definition SetOption :: "'y unionStore \<Rightarrow> nat \<Rightarrow> option_value \<Rightarrow> 'y unionStore" where
  "SetOption s opt val = s\<lparr>opts := (opts s)(opt \<mapsto> val)\<rparr>"

definition DelOption :: "'y unionStore \<Rightarrow> nat \<Rightarrow> 'y unionStore" where
  "DelOption s opt = s\<lparr>opts := (opts s)(opt := None)\<rparr>"

definition GetOption :: "'y unionStore \<Rightarrow> nat \<Rightarrow> option_value option" where
  "GetOption s opt = opts s opt"

definition unionStore_retriever :: "('y, 'it) Retriever \<Rightarrow> ('y unionStore, (bufferIter, 'it) UnionIter) Retriever" where
  "unionStore_retriever R =
     \<lparr>r_Get = us_Get R, r_Iter = bs_Iter R, r_IterReverse = bs_IterReverse R,
      r_iterator = (\<lambda>s. union_iterator (bufferIterator (us_buf s)) (r_iterator R (us_r s)))\<rparr>"

definition unionStore_mutator :: "'y unionStore Mutator" where
  "unionStore_mutator = \<lparr>m_Set = us_Set, m_Delete = us_Delete\<rparr>"

end
