(* ===== verification/Kv_Store_Correct.thy ===== *)
theory Kv_Store_Correct imports Kv_Store begin

text \<open>
  The memory buffer, the mock snapshot and the union store meet the interfaces of \<open>Kv_Store\<close>, and the
  properties of the union store: reads and iterations see the snapshot with the writes on top.
\<close>

section \<open>Iterating over the memory buffer\<close>

definition until :: "bytes option \<Rightarrow> (bytes \<times> bytes) list \<Rightarrow> (bytes \<times> bytes) list" where
  "until hi kvs = takeWhile (\<lambda>e. hi = None \<or> fst e < the hi) kvs"

definition mem_left :: "DB \<Rightarrow> memDbIter \<Rightarrow> (bytes \<times> bytes) list \<Rightarrow> bool" where
  "mem_left db i xs =
     (if mi_reverse i then behind db (mi_iter i) xs else \<exists>kvs. ahead db (mi_iter i) kvs \<and> xs = until (mi_end i) kvs)"

lemma until_Cons: "until hi kvs = e # xs \<Longrightarrow> \<exists>kvs'. kvs = e # kvs' \<and> xs = until hi kvs'"
  by (cases kvs) (auto simp: until_def split: if_splits)

lemma mem_left_iterator: "kv_iterator (memDbIterator db) (mem_left db)"
proof
  fix i and xs :: "(bytes \<times> bytes) list" and e :: "bytes \<times> bytes"
  show "Valid (memDbIterator db) i = (xs \<noteq> [])" if l: "mem_left db i xs"
  proof (cases "mi_reverse i")
    case True
    then show ?thesis using l behind_valid [of db "mi_iter i" xs] by (simp add: mem_left_def memDbIterator_def memDbIter_Valid_def)
  next
    case False
    then obtain kvs where a: "ahead db (mi_iter i) kvs" "xs = until (mi_end i) kvs" using l by (auto simp: mem_left_def)
    have "(it_key (mi_iter i), it_val (mi_iter i)) = hd kvs" if "kvs \<noteq> []" using ahead_Next(1) [of db "mi_iter i" "hd kvs" "tl kvs"] a(1) that by simp
    then show ?thesis using False ahead_valid [OF a(1)] a(2)
      by (cases kvs) (auto simp: memDbIterator_def memDbIter_Valid_def until_def prod_eq_iff split: option.split)
  qed
  assume l: "mem_left db i (e # xs)"
  show "(Key (memDbIterator db) i, Value (memDbIterator db) i) = e"
  proof (cases "mi_reverse i")
    case True
    then show ?thesis using l behind_Prev(1) [of db "mi_iter i" e xs] by (simp add: mem_left_def memDbIterator_def)
  next
    case False
    then obtain kvs where "ahead db (mi_iter i) (e # kvs)" using l by (auto simp: mem_left_def dest!: until_Cons [OF sym])
    then show ?thesis using ahead_Next(1) by (simp add: memDbIterator_def)
  qed
  show "\<exists>it'. Next (memDbIterator db) i = (None, it') \<and> mem_left db it' xs"
  proof (cases "mi_reverse i")
    case True
    then obtain it' where "it_Prev db (mi_iter i) = Some it'" "behind db it' xs" using l behind_Prev(2) [of db "mi_iter i" e xs] by (auto simp: mem_left_def)
    then show ?thesis using True by (simp add: memDbIterator_def memDbIter_Next_def mem_left_def)
  next
    case False
    then obtain kvs where k: "ahead db (mi_iter i) (e # kvs)" "xs = until (mi_end i) kvs" using l by (auto simp: mem_left_def dest!: until_Cons [OF sym])
    then obtain it' where "it_Next db (mi_iter i) = Some it'" "ahead db it' kvs" using ahead_Next(2) by blast
    then show ?thesis using False k(2) by (auto simp: memDbIterator_def memDbIter_Next_def mem_left_def)
  qed
qed

interpretation mem_iter: kv_iterator "memDbIterator db" "mem_left db" for db
  by (rule mem_left_iterator)

lemma until_from:
  assumes "sorted_wrt (<) (map fst kvs)"
  shows "until hi (filter (\<lambda>e. lo = None \<or> the lo \<le> fst e) kvs) = in_range lo hi kvs"
  using assms
proof (induction kvs)
  case (Cons e kvs)
  show ?case
  proof (cases "hi = None \<or> fst e < the hi")
    case False
    have "\<not> fst x < the hi" if "x \<in> set kvs" for x using Cons.prems that False by (auto simp: not_less intro: order.trans less_imp_le)
    then have "in_range lo hi kvs = []" using False by (auto simp: in_range_def filter_empty_conv)
    then show ?thesis using False Cons by (auto simp: until_def in_range_def)
  qed (use Cons in \<open>auto simp: until_def in_range_def\<close>)
qed (simp add: until_def in_range_def)

lemma mem_Iter_rep:
  assumes "db_rep (mb_db m) kvs"
  shows "\<exists>it. mem_Iter m lo hi = Inr it \<and> mem_left (mb_db m) it (in_range lo hi kvs)"
proof -
  note s = seek_rep [OF assms] and r = until_from [OF rep_sorted [OF assms], of hi lo]
  show ?thesis
  proof (cases lo)
    case None
    then show ?thesis using s(2) [of NewIterator_db] r by (auto simp: mem_Iter_def mem_left_def)
  next
    case (Some k)
    obtain it where "it_Seek (mb_db m) NewIterator_db k = Some it" "ahead (mb_db m) it (entries_from k kvs)" using s(1) by blast
    then show ?thesis using Some r by (auto simp: mem_Iter_def mem_left_def entries_from_def)
  qed
qed

lemma mem_IterReverse_rep:
  assumes "db_rep (mb_db m) kvs"
  shows "\<exists>it. mem_IterReverse m hi = Inr it \<and> mem_left (mb_db m) it (rev (in_range None hi kvs))"
proof -
  note s = seek_rep [OF assms]
  show ?thesis
  proof (cases hi)
    case None
    obtain it where "SeekToLast (mb_db m) NewIterator_db = Some it" "behind (mb_db m) it (rev kvs)" using s(4) by blast
    then show ?thesis using None by (auto simp: mem_IterReverse_def mem_left_def in_range_def)
  next
    case (Some k)
    obtain it where "SeekForExclusivePrev (mb_db m) NewIterator_db k = Some it" "behind (mb_db m) it (rev (entries_below k kvs))" using s(3) by blast
    then show ?thesis using Some by (auto simp: mem_IterReverse_def mem_left_def entries_below_def in_range_def)
  qed
qed

lemma mem_Get_rep:
  "db_rep (mb_db m) kvs \<Longrightarrow> mem_Get m k = (case map_of kvs k of None \<Rightarrow> Inl ErrNotExist | Some v \<Rightarrow> Inr v)"
  by (simp add: mem_Get_def Get_rep split: option.split)

text \<open>The mock snapshot is a retriever, as long as it holds no deletion marks.\<close>

definition mock_rep :: "memDbBuffer \<Rightarrow> (bytes \<times> bytes) list \<Rightarrow> bool" where
  "mock_rep m kvs = (db_rep (mb_db m) kvs \<and> (\<forall>e \<in> set kvs. snd e \<noteq> []))"

interpretation mock: retriever mockSnapshot mock_rep "\<lambda>m. mem_left (mb_db m)"
proof (rule retriever.intro)
  fix m kvs k lo hi
  assume r: "mock_rep m kvs"
  then have d: "db_rep (mb_db m) kvs" by (simp add: mock_rep_def)
  show "sorted_wrt (<) (map fst kvs) \<and> (\<forall>e \<in> set kvs. snd e \<noteq> [])" using rep_sorted [OF d] r by (simp add: mock_rep_def)
  show "r_Get mockSnapshot m k = (case map_of kvs k of None \<Rightarrow> Inl ErrNotExist | Some v \<Rightarrow> Inr v)" using mem_Get_rep [OF d] by (simp add: mockSnapshot_def)
  show "\<exists>it. r_Iter mockSnapshot m lo hi = Inr it \<and> mem_left (mb_db m) it (in_range lo hi kvs)"
    using mem_Iter_rep [OF d] by (simp add: mockSnapshot_def)
  show "\<exists>it. r_IterReverse mockSnapshot m hi = Inr it \<and> mem_left (mb_db m) it (rev (in_range None hi kvs))"
    using mem_IterReverse_rep [OF d] by (simp add: mockSnapshot_def)
next
  fix m show "kv_iterator (r_iterator mockSnapshot m) (mem_left (mb_db m))" using mem_left_iterator by (simp add: mockSnapshot_def)
qed

section \<open>The lazy buffer\<close>

definition buf_rep :: "lazyMemBuffer \<Rightarrow> (bytes \<times> bytes) list \<Rightarrow> bool" where
  "buf_rep lmb kvs = (case mb lmb of None \<Rightarrow> kvs = [] | Some m \<Rightarrow> db_rep (mb_db m) kvs)"

fun buf_left :: "lazyMemBuffer \<Rightarrow> bufferIter \<Rightarrow> (bytes \<times> bytes) list \<Rightarrow> bool" where
  "buf_left lmb InvalidIterator xs = (xs = [])"
| "buf_left lmb (MemDbIter i) xs = (case mb lmb of None \<Rightarrow> False | Some m \<Rightarrow> mem_left (mb_db m) i xs)"

lemma buf_left_iterator: "kv_iterator (bufferIterator lmb) (buf_left lmb)"
proof
  fix it and xs :: "(bytes \<times> bytes) list" and e :: "bytes \<times> bytes"
  show "Valid (bufferIterator lmb) it = (xs \<noteq> [])" if "buf_left lmb it xs"
    using that mem_iter.left_valid by (cases it) (auto simp: bufferIterator_def memDbIterator_def split: option.splits)
  assume l: "buf_left lmb it (e # xs)"
  then obtain i m where i: "it = MemDbIter i" "mb lmb = Some m" "mem_left (mb_db m) i (e # xs)" by (cases it) (auto split: option.splits)
  show "(Key (bufferIterator lmb) it, Value (bufferIterator lmb) it) = e"
    using mem_iter.left_entry [OF i(3)] i(1) by (simp add: bufferIterator_def memDbIterator_def)
  obtain i' where "memDbIter_Next (mb_db m) i = (None, i')" "mem_left (mb_db m) i' xs"
    using mem_iter.left_next [OF i(3)] by (auto simp: memDbIterator_def)
  then show "\<exists>it'. Next (bufferIterator lmb) it = (None, it') \<and> buf_left lmb it' xs"
    using i(1,2) by (simp add: bufferIterator_def)
qed

interpretation buf_iter: kv_iterator "bufferIterator lmb" "buf_left lmb" for lmb
  by (rule buf_left_iterator)

lemma lazy_Iter_rep:
  "buf_rep lmb kvs \<Longrightarrow> \<exists>it. lazy_Iter lmb lo hi = Inr it \<and> buf_left lmb it (in_range lo hi kvs)"
  using mem_Iter_rep [of _ kvs lo hi] by (fastforce simp: buf_rep_def lazy_Iter_def in_range_def split: option.splits)

lemma lazy_IterReverse_rep:
  "buf_rep lmb kvs \<Longrightarrow> \<exists>it. lazy_IterReverse lmb hi = Inr it \<and> buf_left lmb it (rev (in_range None hi kvs))"
  using mem_IterReverse_rep [of _ kvs hi] by (fastforce simp: buf_rep_def lazy_IterReverse_def in_range_def split: option.splits)

lemma lazy_Get_rep: "buf_rep lmb kvs \<Longrightarrow> lazy_Get lmb k = (case map_of kvs k of None \<Rightarrow> Inl ErrNotExist | Some v \<Rightarrow> Inr v)"
  using mem_Get_rep [of _ kvs k] by (auto simp: buf_rep_def lazy_Get_def split: option.splits)

lemma buf_rep_sorted: "buf_rep lmb kvs \<Longrightarrow> sorted_wrt (<) (map fst kvs)"
  using rep_sorted by (auto simp: buf_rep_def split: option.splits)

section \<open>Ranges of an overlay\<close>

text \<open>An ascending or descending list of entries is determined by its map.\<close>

lemma sorted_map_unique:
  assumes "sorted_wrt (before r) (map fst xs)" "sorted_wrt (before r) (map fst ys)" "map_of xs = map_of ys"
  shows "xs = ys"
  using assms
proof (induction xs arbitrary: ys)
  case Nil
  then have "dom (map_of ys) = dom (map_of [])" by simp
  then show ?case by (simp add: dom_map_of_conv_image_fst)
next
  case (Cons x xs)
  obtain k v where x: "x = (k, v)" by fastforce
  have "map_of ys k = Some v" using fun_cong [OF Cons.prems(3), of k] x by simp
  then obtain y ys' where ys: "ys = y # ys'" by (cases ys) auto
  have d: "\<forall>a \<in> fst ` set ys. a \<in> fst ` set (x # xs)" "\<forall>a \<in> fst ` set (x # xs). a \<in> fst ` set ys"
    using arg_cong [OF Cons.prems(3), of dom] unfolding dom_map_of_conv_image_fst by blast+
  have "fst y = k"
  proof (rule ccontr)
    assume n: "fst y \<noteq> k"
    then have "before r k (fst y)" using d(1) ys Cons.prems(1) x by auto
    moreover have "before r (fst y) k" using n d(2) ys Cons.prems(2) x by auto
    ultimately show False using before_trans before_irrefl by blast
  qed
  moreover from this have "snd y = v" using \<open>map_of ys k = Some v\<close> ys by (cases y) auto
  ultimately have y: "y = x" using x by (cases y) simp
  have "map_of xs = map_of ys'"
  proof
    fix a show "map_of xs a = map_of ys' a"
      using fun_cong [OF Cons.prems(3), of a] sorted_not_in [OF Cons.prems(1)] sorted_not_in [of r y ys'] Cons.prems(2) ys y x
      by (cases "a = k") auto
  qed
  then show ?case using Cons.IH [of ys'] Cons.prems(1,2) ys y by simp
qed

lemma sorted_before: "sorted_wrt (<) (map fst kvs) \<longleftrightarrow> sorted_wrt (before False) (map fst kvs)"
  by (simp add: before_def [abs_def])

lemma in_range_sorted: "sorted_wrt P (map fst kvs) \<Longrightarrow> sorted_wrt P (map fst (in_range lo hi kvs))"
  by (auto simp: in_range_def sorted_wrt_map sorted_wrt_filter)

lemma map_of_in_range:
  "map_of (in_range lo hi kvs) k = (if (lo = None \<or> the lo \<le> k) \<and> (hi = None \<or> k < the hi) then map_of kvs k else None)"
  by (induction kvs) (auto simp: in_range_def)

lemma overlay_in_range:
  assumes "sorted_wrt (<) (map fst ds)" "sorted_wrt (<) (map fst ss)"
  shows "overlay False (in_range lo hi ds) (in_range lo hi ss) = in_range lo hi (overlay False ds ss)"
proof (rule sorted_map_unique [of False])
  note s = assms [unfolded sorted_before]
  show "sorted_wrt (before False) (map fst (overlay False (in_range lo hi ds) (in_range lo hi ss)))"
    "sorted_wrt (before False) (map fst (in_range lo hi (overlay False ds ss)))"
    by (intro overlay_sorted in_range_sorted s)+
  show "map_of (overlay False (in_range lo hi ds) (in_range lo hi ss)) = map_of (in_range lo hi (overlay False ds ss))"
  proof
    fix k show "map_of (overlay False (in_range lo hi ds) (in_range lo hi ss)) k = map_of (in_range lo hi (overlay False ds ss)) k"
      unfolding overlay_map [OF in_range_sorted [OF s(1)] in_range_sorted [OF s(2)]] map_of_in_range overlay_map [OF s]
      by (cases "(lo = None \<or> the lo \<le> k) \<and> (hi = None \<or> k < the hi)") (simp_all only: if_True if_False option.case simp_thms)
  qed
qed

lemma map_of_rev: "distinct (map fst xs) \<Longrightarrow> map_of (rev xs) = map_of xs"
proof
  fix k assume d: "distinct (map fst xs)"
  then have "distinct (map fst (rev xs))" by (simp add: rev_map [symmetric])
  show "map_of (rev xs) k = map_of xs k"
  proof (cases "map_of xs k")
    case None
    then have "k \<notin> fst ` set (rev xs)" by (simp add: map_of_eq_None_iff)
    then have "map_of (rev xs) k = None" unfolding map_of_eq_None_iff .
    then show ?thesis using None by simp
  next
    case (Some v)
    then show ?thesis using \<open>distinct (map fst (rev xs))\<close> by (simp add: map_of_SomeD)
  qed
qed

lemma sorted_rev: "sorted_wrt (before r) (map fst (rev xs)) \<longleftrightarrow> sorted_wrt (before (\<not> r)) (map fst xs)"
  by (cases r) (simp_all add: rev_map [symmetric] sorted_wrt_rev before_def [abs_def])

lemma before_distinct: "sorted_wrt (before r) xs \<Longrightarrow> distinct xs"
  by (induction xs) auto

lemma overlay_reverse:
  assumes "sorted_wrt (<) (map fst ds)" "sorted_wrt (<) (map fst ss)"
  shows "overlay True (rev ds) (rev ss) = rev (overlay False ds ss)"
proof (rule sorted_map_unique [of True])
  note s = assms [unfolded sorted_before]
  have r: "sorted_wrt (before True) (map fst (rev ds))" "sorted_wrt (before True) (map fst (rev ss))" using s by (simp_all add: sorted_rev)
  show "sorted_wrt (before True) (map fst (overlay True (rev ds) (rev ss)))" using r by (rule overlay_sorted)
  have o: "sorted_wrt (before False) (map fst (overlay False ds ss))" using s by (rule overlay_sorted)
  then show "sorted_wrt (before True) (map fst (rev (overlay False ds ss)))" by (simp add: sorted_rev)
  note d = map_of_rev [OF before_distinct [OF s(1)]] map_of_rev [OF before_distinct [OF s(2)]] map_of_rev [OF before_distinct [OF o]]
  show "map_of (overlay True (rev ds) (rev ss)) = map_of (rev (overlay False ds ss))"
    unfolding d by (rule ext) (simp only: overlay_map [OF r] overlay_map [OF s] d)
qed

section \<open>Writing to the buffer\<close>

definition weight :: "(bytes \<times> bytes) list \<Rightarrow> int" where
  "weight kvs = (\<Sum>(k, v) \<leftarrow> kvs. int (length k) + int (length v))"

lemma weight_simps [simp]: "weight [] = 0" "weight ((k, v) # kvs) = int (length k) + int (length v) + weight kvs"
  "weight (xs @ ys) = weight xs + weight ys"
  by (simp_all add: weight_def)

lemma weight_nonneg: "0 \<le> weight kvs"
  by (induction kvs) auto

lemma weight_filters: "weight (filter (\<lambda>e. fst e < k) kvs) + weight (filter (\<lambda>e. k < fst e) kvs) \<le> weight kvs"
proof (induction kvs)
  case (Cons e kvs)
  have "\<not> (fst e < k \<and> k < fst e)" by (metis less_asym)
  then show ?case using Cons by (cases e; cases "fst e < k"; cases "k < fst e") simp_all
qed simp

lemma weight_ord_put: "weight (ord_put k v kvs) \<le> weight kvs + int (length k) + int (length v)"
  using weight_filters [of k kvs] by (simp add: ord_put_def entries_below_def)

definition buf_blocks :: "lazyMemBuffer \<Rightarrow> nat" where
  "buf_blocks lmb = (case mb lmb of None \<Rightarrow> 1 | Some m \<Rightarrow> length (blocks (d_arena (mb_db m))))"

text \<open>
  The writes that stay within the limits: keys of less than 64 KiB, entries up to the entry limit, a total
  up to the limit of the transaction, and fewer than \<open>2\<^sup>32\<close> blocks.
\<close>

definition buf_fits :: "64 word \<Rightarrow> lazyMemBuffer \<Rightarrow> (bytes \<times> bytes) list \<Rightarrow> bool" where
  "buf_fits lim lmb ws =
     ((case mb lmb of None \<Rightarrow> 0 < cap lmb \<and> cap lmb \<le> 2 ^ 31 | Some m \<Rightarrow> entrySizeLimit m = TxnEntrySizeLimit \<and> bufferSizeLimit m = lim) \<and>
      (\<forall>(k, v) \<in> set ws. length k < 2 ^ 16 \<and> int (length k) + int (length v) \<le> TxnEntrySizeLimit) \<and>
      lazy_Size lmb + weight ws \<le> sint lim \<and> buf_blocks lmb + length ws < 2 ^ 32 - 1)"

lemma lazy_buffer_fits:
  assumes "buf_rep lmb kvs" "buf_fits lim lmb ws"
  shows "\<exists>m. lazy_buffer lim lmb = Some m \<and> db_rep (mb_db m) kvs \<and> entrySizeLimit m = TxnEntrySizeLimit \<and> bufferSizeLimit m = lim \<and>
    length (blocks (d_arena (mb_db m))) = buf_blocks lmb \<and> lazy_Size lmb = weight kvs"
proof (cases "mb lmb")
  case None
  then have c: "0 < cap lmb" "cap lmb \<le> 2 ^ 31" "kvs = []" using assms by (simp_all add: buf_fits_def buf_rep_def)
  have "nat (cap lmb) \<le> 2 ^ 31" using c(2) by (simp add: nat_le_iff)
  then have "db_rep (New (nat (cap lmb))) []" using c(1) by (intro New_rep) simp_all
  then show ?thesis using None c by (simp add: lazy_buffer_def NewMemDbBuffer_def buf_blocks_def New_def newArenaLocator_def lazy_Size_def)
next
  case (Some m)
  then show ?thesis using assms Len_Size_rep(2) [of "mb_db m" kvs]
    by (simp add: lazy_buffer_def buf_fits_def buf_rep_def buf_blocks_def lazy_Size_def mem_Size_def weight_def)
qed

text \<open>One write, of a value or of a deletion mark.\<close>

lemma buffer_Put:
  assumes "buf_rep lmb kvs" "buf_fits lim lmb ((k, v) # ws)" "lazy_buffer lim lmb = Some m"
  shows "\<exists>db. Put rnd (mb_db m) k v = Some db \<and> buf_rep (lmb\<lparr>mb := Some (m\<lparr>mb_db := db\<rparr>)\<rparr>) (ord_put k v kvs) \<and>
    buf_fits lim (lmb\<lparr>mb := Some (m\<lparr>mb_db := db\<rparr>)\<rparr>) ws \<and> d_size db \<le> sint lim"
proof -
  have m: "db_rep (mb_db m) kvs" "entrySizeLimit m = TxnEntrySizeLimit" "bufferSizeLimit m = lim"
    "length (blocks (d_arena (mb_db m))) = buf_blocks lmb" "lazy_Size lmb = weight kvs"
    using lazy_buffer_fits [OF assms(1,2)] assms(3) by auto
  have f: "length k < 2 ^ 16" "int (length k) + int (length v) \<le> TxnEntrySizeLimit" "weight kvs + int (length k) + int (length v) + weight ws \<le> sint lim"
    "buf_blocks lmb + Suc (length ws) < 2 ^ 32 - 1" "\<forall>(k, v) \<in> set ws. length k < 2 ^ 16 \<and> int (length k) + int (length v) \<le> TxnEntrySizeLimit"
    using assms(2) m(5) by (simp_all add: buf_fits_def)
  have "room (mb_db m)" "length v < 2 ^ 32" using m(4) f(2,4) by (simp_all add: room_def TxnEntrySizeLimit_def)
  then obtain db where db: "Put rnd (mb_db m) k v = Some db" "db_rep db (ord_put k v kvs)" "length (blocks (d_arena db)) \<le> Suc (buf_blocks lmb)"
    using Put_rep [OF m(1) _ f(1), of v rnd] m(4) by auto
  have "d_size db = weight (ord_put k v kvs)" using Len_Size_rep(2) [OF db(2)] by (simp add: weight_def)
  moreover have "weight (ord_put k v kvs) + weight ws \<le> sint lim" using weight_ord_put [of k v kvs] f(3) by simp
  ultimately show ?thesis using db f(4,5) m(2,3) weight_nonneg [of ws]
    by (intro exI [of _ db]) (simp add: buf_rep_def buf_fits_def buf_blocks_def lazy_Size_def mem_Size_def)
qed

lemma lazy_Set_rep:
  assumes "buf_rep lmb kvs" "buf_fits lim lmb ((k, v) # ws)" "v \<noteq> []"
  shows "\<exists>lmb'. lazy_Set lim rnd lmb k v = (None, lmb') \<and> buf_rep lmb' (ord_put k v kvs) \<and> buf_fits lim lmb' ws"
proof -
  obtain m where m: "lazy_buffer lim lmb = Some m" "entrySizeLimit m = TxnEntrySizeLimit" "bufferSizeLimit m = lim"
    using lazy_buffer_fits [OF assms(1,2)] by blast
  obtain db where "Put rnd (mb_db m) k v = Some db" "buf_rep (lmb\<lparr>mb := Some (m\<lparr>mb_db := db\<rparr>)\<rparr>) (ord_put k v kvs)"
    "buf_fits lim (lmb\<lparr>mb := Some (m\<lparr>mb_db := db\<rparr>)\<rparr>) ws" "d_size db \<le> sint lim" using buffer_Put [OF assms(1,2) m(1)] by blast
  moreover have "int (length k) + int (length v) \<le> TxnEntrySizeLimit" using assms(2) by (simp add: buf_fits_def)
  ultimately show ?thesis using m assms(3) by (simp add: lazy_Set_def mem_Set_def mem_Size_def Let_def)
qed

lemma lazy_Delete_rep:
  assumes "buf_rep lmb kvs" "buf_fits lim lmb ((k, []) # ws)"
  shows "\<exists>lmb'. lazy_Delete lim rnd lmb k = (None, lmb') \<and> buf_rep lmb' (ord_put k [] kvs) \<and> buf_fits lim lmb' ws"
proof -
  obtain m where m: "lazy_buffer lim lmb = Some m" using lazy_buffer_fits [OF assms(1,2)] by blast
  obtain db where "Put rnd (mb_db m) k [] = Some db" "buf_rep (lmb\<lparr>mb := Some (m\<lparr>mb_db := db\<rparr>)\<rparr>) (ord_put k [] kvs)"
    "buf_fits lim (lmb\<lparr>mb := Some (m\<lparr>mb_db := db\<rparr>)\<rparr>) ws" using buffer_Put [OF assms(1,2) m(1)] by blast
  then show ?thesis using m by (simp add: lazy_Delete_def mem_Delete_def Let_def)
qed

lemma lazy_Set_nil:
  assumes "buf_rep lmb kvs" "buf_fits lim lmb ws"
  shows "\<exists>lmb'. lazy_Set lim rnd lmb k [] = (Some ErrCannotSetNilValue, lmb') \<and> buf_rep lmb' kvs \<and> buf_fits lim lmb' ws"
proof -
  obtain m where m: "lazy_buffer lim lmb = Some m" "db_rep (mb_db m) kvs" "entrySizeLimit m = TxnEntrySizeLimit" "bufferSizeLimit m = lim"
    "length (blocks (d_arena (mb_db m))) = buf_blocks lmb" "lazy_Size lmb = weight kvs"
    using lazy_buffer_fits [OF assms] by blast
  then have "d_size (mb_db m) = lazy_Size lmb" using Len_Size_rep(2) [OF m(2)] by (simp add: weight_def)
  then show ?thesis using m assms(2)
    by (simp add: lazy_Set_def mem_Set_def buf_rep_def buf_fits_def buf_blocks_def lazy_Size_def mem_Size_def)
qed

section \<open>The union store\<close>

definition us_rep :: "('y \<Rightarrow> (bytes \<times> bytes) list \<Rightarrow> bool) \<Rightarrow> 'y unionStore \<Rightarrow> (bytes \<times> bytes) list \<Rightarrow> bool" where
  "us_rep rep s kvs =
     (\<exists>ds ss. buf_rep (us_buf s) ds \<and> rep (us_r s) ss \<and> opts s PresumeKeyNotExistsError = None \<and> kvs = overlay False ds ss)"

definition us_left ::
  "('y \<Rightarrow> 'it \<Rightarrow> (bytes \<times> bytes) list \<Rightarrow> bool) \<Rightarrow> 'y unionStore \<Rightarrow> (bufferIter, 'it) UnionIter \<Rightarrow> (bytes \<times> bytes) list \<Rightarrow> bool" where
  "us_left left s = union_left (buf_left (us_buf s)) (left (us_r s))"

definition us_fits :: "'y unionStore \<Rightarrow> (bytes \<times> bytes) list \<Rightarrow> bool" where
  "us_fits s ws = buf_fits (us_total s) (us_buf s) ws"

lemma overlay_put:
  assumes "sorted_wrt (<) (map fst ds)" "sorted_wrt (<) (map fst (ord_put k v ds))" "sorted_wrt (<) (map fst ss)"
  shows "map_of (overlay False (ord_put k v ds) ss) = (map_of (overlay False ds ss))(k := (if v = [] then None else Some v))"
  using overlay_map [OF assms(1,3) [unfolded sorted_before]] overlay_map [OF assms(2,3) [unfolded sorted_before]]
  by (auto simp: map_of_ord_put)

context retriever
begin

lemma us_parts:
  assumes "us_rep rep s kvs"
  obtains ds ss where "buf_rep (us_buf s) ds" "rep (us_r s) ss" "opts s PresumeKeyNotExistsError = None" "kvs = overlay False ds ss"
    "sorted_wrt (<) (map fst ds)" "sorted_wrt (<) (map fst ss)"
  using assms buf_rep_sorted rep_ok unfolding us_rep_def by blast

lemma us_iterators: "union_iterators (bufferIterator (us_buf s)) (buf_left (us_buf s)) (r_iterator R (us_r s)) (left (us_r s))"
  using buf_left_iterator iterator by (rule union_iterators.intro)

lemma us_retriever: "retriever (unionStore_retriever R) (us_rep rep) (us_left left)"
proof (rule retriever.intro)
  fix s kvs k lo hi
  assume "us_rep rep s kvs"
  then obtain ds ss where p: "buf_rep (us_buf s) ds" "rep (us_r s) ss" "opts s PresumeKeyNotExistsError = None" "kvs = overlay False ds ss"
    "sorted_wrt (<) (map fst ds)" "sorted_wrt (<) (map fst ss)" by (rule us_parts)
  note srt = p(5,6) [unfolded sorted_before]
  have ne: "map_of ss k \<noteq> Some []" for k using rep_ok [OF p(2)] by (auto dest!: map_of_SomeD)
  have "\<forall>e \<in> set (overlay False ds ss). snd e \<noteq> []"
  proof
    fix e assume e: "e \<in> set (overlay False ds ss)"
    have "map_of (overlay False ds ss) (fst e) = Some (snd e)"
      using before_distinct [OF overlay_sorted [OF srt]] e by (cases e) simp
    then show "snd e \<noteq> []" using overlay_map [OF srt, of "fst e"] ne [of "fst e"] by (auto split: option.splits if_splits)
  qed
  then show "sorted_wrt (<) (map fst kvs) \<and> (\<forall>e \<in> set kvs. snd e \<noteq> [])"
    using overlay_sorted [OF srt] p(4) by (simp add: sorted_before)
  show "r_Get (unionStore_retriever R) s k = (case map_of kvs k of None \<Rightarrow> Inl ErrNotExist | Some v \<Rightarrow> Inr v)"
    using lazy_Get_rep [OF p(1), of k] get_rep [OF p(2), of k] p(3) overlay_map [OF srt, of k] ne [of k] p(4)
    by (auto simp: unionStore_retriever_def us_Get_def IsErrNotFound_def Let_def split: option.splits)
  obtain b where b: "lazy_Iter (us_buf s) lo hi = Inr b" "buf_left (us_buf s) b (in_range lo hi ds)" using lazy_Iter_rep [OF p(1)] by blast
  obtain r where r: "r_Iter R (us_r s) lo hi = Inr r" "left (us_r s) r (in_range lo hi ss)" using iter_rep [OF p(2)] by blast
  show "\<exists>it. r_Iter (unionStore_retriever R) s lo hi = Inr it \<and> us_left left s it (in_range lo hi kvs)"
    using union_iterators.NewUnionIter_left [OF us_iterators b(2) r(2), of False] b(1) r(1) overlay_in_range [OF p(5,6)] p(4)
    by (simp add: unionStore_retriever_def bs_Iter_def us_left_def)
  obtain b where b: "lazy_IterReverse (us_buf s) hi = Inr b" "buf_left (us_buf s) b (rev (in_range None hi ds))" using lazy_IterReverse_rep [OF p(1)] by blast
  obtain r where r: "r_IterReverse R (us_r s) hi = Inr r" "left (us_r s) r (rev (in_range None hi ss))" using iter_reverse_rep [OF p(2)] by blast
  have "overlay True (rev (in_range None hi ds)) (rev (in_range None hi ss)) = rev (in_range None hi kvs)"
    using overlay_reverse [OF in_range_sorted [OF p(5)] in_range_sorted [OF p(6)]] overlay_in_range [OF p(5,6)] p(4) by simp
  then show "\<exists>it. r_IterReverse (unionStore_retriever R) s hi = Inr it \<and> us_left left s it (rev (in_range None hi kvs))"
    using union_iterators.NewUnionIter_left [OF us_iterators b(2) r(2), of True] b(1) r(1)
    by (simp add: unionStore_retriever_def bs_IterReverse_def us_left_def)
next
  fix s show "kv_iterator (r_iterator (unionStore_retriever R) s) (us_left left s)"
    using union_iterators.union_is_iterator [OF us_iterators] by (simp add: unionStore_retriever_def us_left_def)
qed

end

context retriever
begin


lemma us_mutator: "retriever_mutator (unionStore_retriever R) (us_rep rep) (us_left left) unionStore_mutator us_fits"
proof (rule retriever_mutator.intro [OF us_retriever], rule retriever_mutator_axioms.intro)
  fix s kvs k v ws
  assume "us_rep rep s kvs"
  then obtain ds ss where p: "buf_rep (us_buf s) ds" "rep (us_r s) ss" "opts s PresumeKeyNotExistsError = None" "kvs = overlay False ds ss"
    "sorted_wrt (<) (map fst ds)" "sorted_wrt (<) (map fst ss)" by (rule us_parts)
  have put: "us_rep rep (s\<lparr>us_buf := b, us_rnd := rnds\<rparr>) (overlay False (ord_put k v ds) ss) \<and>
      map_of (overlay False (ord_put k v ds) ss) = (map_of kvs)(k := (if v = [] then None else Some v))"
    if b: "buf_rep b (ord_put k v ds)" for b rnds v
    using that p(2,3,4) overlay_put [OF p(5) buf_rep_sorted [OF b] p(6)] by (auto simp: us_rep_def)
  show "\<exists>x' kvs'. m_Set unionStore_mutator s k v = (None, x') \<and> us_rep rep x' kvs' \<and> map_of kvs' = (map_of kvs)(k \<mapsto> v) \<and> us_fits x' ws"
    if f: "us_fits s ((k, v) # ws)" and v: "v \<noteq> []"
  proof -
    obtain b where b: "lazy_Set (us_total s) (us_rnd s 0) (us_buf s) k v = (None, b)" "buf_rep b (ord_put k v ds)" "buf_fits (us_total s) b ws"
      using lazy_Set_rep [OF p(1) _ v] f unfolding us_fits_def by blast
    show ?thesis using put [OF b(2)] b(1,3) v by (auto simp: unionStore_mutator_def us_Set_def us_fits_def)
  qed
  show "\<exists>x' kvs'. m_Delete unionStore_mutator s k = (None, x') \<and> us_rep rep x' kvs' \<and> map_of kvs' = (map_of kvs)(k := None) \<and> us_fits x' ws"
    if f: "us_fits s ((k, []) # ws)"
  proof -
    obtain b where b: "lazy_Delete (us_total s) (us_rnd s 0) (us_buf s) k = (None, b)" "buf_rep b (ord_put k [] ds)" "buf_fits (us_total s) b ws"
      using lazy_Delete_rep [OF p(1)] f unfolding us_fits_def by blast
    show ?thesis using put [OF b(2)] b(1,3) by (auto simp: unionStore_mutator_def us_Delete_def us_fits_def)
  qed
  show "\<exists>x'. m_Set unionStore_mutator s k [] = (Some ErrCannotSetNilValue, x') \<and> us_rep rep x' kvs \<and> us_fits x' ws" if f: "us_fits s ws"
  proof -
    obtain b where b: "lazy_Set (us_total s) (us_rnd s 0) (us_buf s) k [] = (Some ErrCannotSetNilValue, b)" "buf_rep b ds" "buf_fits (us_total s) b ws"
      using lazy_Set_nil [OF p(1)] f unfolding us_fits_def by blast
    then show ?thesis using p(2-4) by (auto simp: unionStore_mutator_def us_Set_def us_fits_def us_rep_def)
  qed
qed

end

text \<open>The union store over the mock snapshot, and the two iterators that it merges.\<close>

interpretation us_iter: union_iterators "bufferIterator lmb" "buf_left lmb" "memDbIterator db" "mem_left db" for lmb db
  using buf_left_iterator mem_left_iterator by (rule union_iterators.intro)

interpretation ustore: retriever_mutator "unionStore_retriever mockSnapshot" "us_rep mock_rep" "us_left (\<lambda>m. mem_left (mb_db m))"
  unionStore_mutator us_fits
  by (rule mock.us_mutator)

section \<open>Sequences of writes\<close>

text \<open>An empty value is a deletion, as in \<open>SaveTo\<close>.\<close>

definition apply_write :: "'x Mutator \<Rightarrow> bytes \<Rightarrow> bytes \<Rightarrow> 'x \<Rightarrow> kv_error option \<times> 'x" where
  "apply_write M k v x = (if length v = 0 then m_Delete M x k else m_Set M x k v)"

definition spec_write :: "bytes \<times> bytes \<Rightarrow> (bytes \<rightharpoonup> bytes) \<Rightarrow> (bytes \<rightharpoonup> bytes)" where
  "spec_write w f = f(fst w := (if snd w = [] then None else Some (snd w)))"

definition collect :: "bytes \<Rightarrow> bytes \<Rightarrow> (bytes \<times> bytes) list \<Rightarrow> kv_error option \<times> (bytes \<times> bytes) list" where
  "collect k v acc = (None, acc @ [(k, v)])"

lemma each_entry_collect: "each_entry collect kvs acc = (None, acc @ kvs)"
  by (induction kvs arbitrary: acc) (auto simp: collect_def)

context retriever_mutator
begin

lemma writes_rep:
  assumes "rep x kvs" "fits x ws"
  shows "\<exists>x' kvs'. each_entry (apply_write M) ws x = (None, x') \<and> rep x' kvs' \<and> map_of kvs' = fold spec_write ws (map_of kvs)"
  using assms
proof (induction ws arbitrary: x kvs)
  case (Cons w ws)
  obtain k v where w: "w = (k, v)" by fastforce
  have "\<exists>x' kvs'. apply_write M k v x = (None, x') \<and> rep x' kvs' \<and> map_of kvs' = spec_write w (map_of kvs) \<and> fits x' ws"
    using set_rep [of x kvs k v ws] delete_rep [of x kvs k ws] Cons.prems unfolding w by (cases "v = []") (auto simp: apply_write_def spec_write_def)
  then obtain x' kvs' where "apply_write M k v x = (None, x')" "rep x' kvs'" "map_of kvs' = spec_write w (map_of kvs)" "fits x' ws" by blast
  then show ?case using Cons.IH [of x' kvs'] w by simp
qed auto

end

lemma fold_spec_write:
  assumes "distinct (map fst ws)"
  shows "fold spec_write ws f k = (case map_of ws k of None \<Rightarrow> f k | Some v \<Rightarrow> if v = [] then None else Some v)"
  using assms
proof (induction ws arbitrary: f)
  case (Cons w ws)
  obtain a b where w: "w = (a, b)" by fastforce
  then have n: "map_of ws a = None" using Cons.prems by (simp add: map_of_eq_None_iff)
  have "fold spec_write (w # ws) f k = fold spec_write ws (spec_write w f) k" by simp
  also have "\<dots> = (case map_of ws k of None \<Rightarrow> spec_write w f k | Some v \<Rightarrow> if v = [] then None else Some v)"
    using Cons.prems by (intro Cons.IH) simp
  also have "\<dots> = (case map_of (w # ws) k of None \<Rightarrow> f k | Some v \<Rightarrow> if v = [] then None else Some v)"
    using n w by (cases "k = a") (simp_all add: spec_write_def split: option.split)
  finally show ?case .
qed simp

text \<open>C13: A union store reads like the snapshot with the transaction's writes applied in order.  After any
  sequence of sets and deletions within the limits, \<open>Get\<close> returns what the updated map has, and an
  iterator over any range, in either direction, delivers exactly the entries of that map in the range,
  in the order of their keys; none of the calls fails or runs forever.\<close>

theorem union_store_refines:
  fixes R :: "('y, 'it) Retriever"
  defines "U \<equiv> unionStore_retriever R"
  assumes "retriever R rep left" "rep snap ss" "us_fits (NewUnionStore lim rnds snap) ws"
  shows "\<exists>s kvs. each_entry (apply_write unionStore_mutator) ws (NewUnionStore lim rnds snap) = (None, s) \<and>
    map_of kvs = fold spec_write ws (map_of ss) \<and> sorted_wrt (<) (map fst kvs) \<and>
    (\<forall>k. r_Get U s k = (case map_of kvs k of None \<Rightarrow> Inl ErrNotExist | Some v \<Rightarrow> Inr v)) \<and>
    (\<forall>lo hi. \<exists>it. r_Iter U s lo hi = Inr it \<and> WalkMemBuffer_loop (r_iterator U s) collect it [] = Some (None, in_range lo hi kvs)) \<and>
    (\<forall>hi. \<exists>it. r_IterReverse U s hi = Inr it \<and> WalkMemBuffer_loop (r_iterator U s) collect it [] = Some (None, rev (in_range None hi kvs)))"
proof -
  note mu = retriever.us_mutator [OF assms(2)] and re = retriever.us_retriever [OF assms(2)]
  have "us_rep rep (NewUnionStore lim rnds snap) ss"
    using assms(3) by (auto simp: us_rep_def NewUnionStore_def NewBufferStore_buf_def buf_rep_def intro!: exI [of _ "[]"])
  from retriever_mutator.writes_rep [OF mu this assms(4)] obtain s kvs where
    s: "each_entry (apply_write unionStore_mutator) ws (NewUnionStore lim rnds snap) = (None, s)" "us_rep rep s kvs"
      "map_of kvs = fold spec_write ws (map_of ss)" by blast
  have w: "WalkMemBuffer_loop (r_iterator U s) collect it [] = Some (None, xs)" if "us_left left s it xs" for it xs
    using kv_iterator.walk_left [OF retriever.iterator [OF re] that, of collect "[]"] by (simp add: U_def each_entry_collect)
  show ?thesis
  proof (intro exI [of _ s] exI [of _ kvs] conjI allI)
    show "sorted_wrt (<) (map fst kvs)" using retriever.rep_ok [OF re s(2)] by simp
    show "r_Get U s k = (case map_of kvs k of None \<Rightarrow> Inl ErrNotExist | Some v \<Rightarrow> Inr v)" for k
      unfolding U_def by (rule retriever.get_rep [OF re s(2)])
    show "\<exists>it. r_Iter U s lo hi = Inr it \<and> WalkMemBuffer_loop (r_iterator U s) collect it [] = Some (None, in_range lo hi kvs)" for lo hi
      using retriever.iter_rep [OF re s(2), of lo hi] w unfolding U_def by blast
    show "\<exists>it. r_IterReverse U s hi = Inr it \<and> WalkMemBuffer_loop (r_iterator U s) collect it [] = Some (None, rev (in_range None hi kvs))" for hi
      using retriever.iter_reverse_rep [OF re s(2), of hi] w unfolding U_def by blast
  qed (rule s(1), rule s(3))
qed

lemma ex_snapshot: "\<exists>snap. mock_rep snap [([1], [9]), ([2], [8])]"
proof -
  have n: "db_rep (New 64) []" by (rule New_rep) simp_all
  have "room (New 64)" by (simp add: room_def New_def newArenaLocator_def)
  from Put_rep [OF n this, of "[2]" "[8]" "\<lambda>_. 0"] obtain db where
    d: "db_rep db [([2], [8])]" "length (blocks (d_arena db)) \<le> 2" by (auto simp: ord_put_def entries_below_def New_def newArenaLocator_def)
  have "room db" using d(2) by (simp add: room_def)
  from Put_rep [OF d(1) this, of "[1]" "[9]" "\<lambda>_. 0"] obtain db' where "db_rep db' [([1], [9]), ([2], [8])]"
    by (auto simp: ord_put_def entries_below_def)
  then have "mock_rep \<lparr>mb_db = db', entrySizeLimit = TxnEntrySizeLimit, bufferSizeLimit = 0\<rparr> [([1], [9]), ([2], [8])]" by (simp add: mock_rep_def)
  then show ?thesis by blast
qed

theorem union_store_refines_witness:
  "\<exists>snap s. mock_rep snap [([1], [9]), ([2], [8])] \<and>
     each_entry (apply_write unionStore_mutator) [([2], [7]), ([1], []), ([3], [5])] (NewUnionStore 0x100000 (\<lambda>_ _. 0) snap) = (None, s) \<and>
     r_Get (unionStore_retriever mockSnapshot) s [2] = Inr [7] \<and> r_Get (unionStore_retriever mockSnapshot) s [1] = Inl ErrNotExist"
proof -
  obtain snap where snap: "mock_rep snap [([1], [9]), ([2], [8])]" using ex_snapshot by blast
  have f: "us_fits (NewUnionStore 0x100000 (\<lambda>_ _. 0) snap) [([2], [7]), ([1], []), ([3], [5])]"
    by (simp add: us_fits_def NewUnionStore_def NewBufferStore_buf_def buf_fits_def DefaultTxnMembufCap_def TxnEntrySizeLimit_def lazy_Size_def buf_blocks_def)
  from union_store_refines [OF mock.retriever_axioms snap f] snap show ?thesis by (auto simp: spec_write_def)
qed

text \<open>C14: Saving the buffer of a union store into a store that holds what the snapshot held makes that store
  read like the union store: the deletions and the sets of the buffer are replayed and nothing else.\<close>

theorem SaveTo_replays:
  assumes "retriever_mutator Q qrep qleft M fits" "retriever R rep left"
    and "us_rep rep us kvs" "rep (us_r us) ss" "buf_rep (us_buf us) ds" "qrep x ss" "fits x ds"
  shows "\<exists>x'. SaveTo us M x = (None, x') \<and> (\<forall>k. r_Get Q x' k = r_Get (unionStore_retriever R) us k)"
proof -
  have d: "distinct (map fst ds)" using buf_rep_sorted [OF assms(5)] by (auto intro: before_distinct simp: sorted_before)
  have q: "retriever Q qrep qleft" using assms(1) by (rule retriever_mutator.axioms)
  obtain it where it: "lazy_Iter (us_buf us) None None = Inr it" "buf_left (us_buf us) it ds"
    using lazy_Iter_rep [OF assms(5), of None None] by (auto simp: in_range_def)
  obtain x' kvs' where x': "each_entry (apply_write M) ds x = (None, x')" "qrep x' kvs'" "map_of kvs' = fold spec_write ds (map_of ss)"
    using retriever_mutator.writes_rep [OF assms(1,6,7)] by blast
  have "SaveTo us M x = WalkBuffer us (apply_write M) x" by (simp add: SaveTo_def apply_write_def [abs_def])
  also have "\<dots> = (None, x')" using it(1) buf_iter.walk_left [OF it(2), of "apply_write M" x] x'(1) by (simp add: WalkBuffer_def)
  finally have "SaveTo us M x = (None, x')" .
  moreover have "us_rep rep us (overlay False ds ss)" using assms(3-5) by (auto simp: us_rep_def)
  from retriever.get_rep [OF retriever.us_retriever [OF assms(2)] this] retriever.get_rep [OF q x'(2)]
  have "r_Get Q x' k = r_Get (unionStore_retriever R) us k" for k
    using x'(3) fold_spec_write [OF d] overlay_map [of False ds ss k] buf_rep_sorted [OF assms(5)] retriever.rep_ok [OF assms(2,4)]
    by (simp add: sorted_before)
  ultimately show ?thesis by blast
qed

lemma ex_buffer:
  "\<exists>lmb. buf_rep lmb [([2], [7])]" "us_rep mock_rep (NewUnionStore lim rnds snap) kvs \<longleftrightarrow> mock_rep snap kvs"
  "us_fits (NewUnionStore 0x100000 rnds snap) [([2], [7])]"
proof -
  show "us_rep mock_rep (NewUnionStore lim rnds snap) kvs \<longleftrightarrow> mock_rep snap kvs"
    by (auto simp: us_rep_def NewUnionStore_def NewBufferStore_buf_def buf_rep_def)
  have f: "buf_fits 0x100000 (NewBufferStore_buf 4096) [([2], [7])]"
    by (simp add: NewBufferStore_buf_def buf_fits_def TxnEntrySizeLimit_def lazy_Size_def buf_blocks_def)
  then show "us_fits (NewUnionStore 0x100000 rnds snap) [([2], [7])]"
    by (simp add: us_fits_def NewUnionStore_def DefaultTxnMembufCap_def)
  have "buf_rep (NewBufferStore_buf 4096) []" by (simp add: NewBufferStore_buf_def buf_rep_def)
  from lazy_Set_rep [OF this f] show "\<exists>lmb. buf_rep lmb [([2], [7])]" by (auto simp: ord_put_def entries_below_def)
qed

theorem SaveTo_replays_witness:
  "\<exists>us x x'. SaveTo us unionStore_mutator x = (None, x') \<and> r_Get (unionStore_retriever mockSnapshot) x [2] = Inr [8] \<and>
     r_Get (unionStore_retriever mockSnapshot) x' [2] = r_Get (unionStore_retriever mockSnapshot) us [2]"
proof -
  obtain snap where snap: "mock_rep snap [([1], [9]), ([2], [8])]" using ex_snapshot by blast
  obtain b where b: "buf_rep b [([2], [7])]" using ex_buffer(1) by blast
  define x where "x = NewUnionStore 0x100000 (\<lambda>_ _. 0) snap"
  define us where "us = x\<lparr>us_buf := b\<rparr>"
  have u: "mock_rep (us_r us) [([1], [9]), ([2], [8])]" "buf_rep (us_buf us) [([2], [7])]" "opts us PresumeKeyNotExistsError = None"
    using b snap by (simp_all add: us_def x_def NewUnionStore_def)
  then have o: "us_rep mock_rep us (overlay False [([2], [7])] [([1], [9]), ([2], [8])])" unfolding us_rep_def by blast
  have x: "us_rep mock_rep x [([1], [9]), ([2], [8])]" "us_fits x [([2], [7])]" using ex_buffer(2,3) snap by (simp_all add: x_def)
  from SaveTo_replays [OF ustore.retriever_mutator_axioms mock.retriever_axioms o u(1,2) x] ustore.get_rep [OF x(1), of "[2]"]
  show ?thesis by auto
qed

text \<open>C36: What \<open>Set\<close> of the memory buffer does with a value it does not accept.  An empty value and an entry
  over the entry limit leave the buffer as it was.  An entry that takes the transaction over its total
  limit is reported, but it is in the buffer.\<close>

theorem mem_Set_errors:
  assumes "db_rep (mb_db m) kvs" "room (mb_db m)" "length k < 2 ^ 16" "length v < 2 ^ 32"
  shows "mem_Set rnd m k [] = (Some ErrCannotSetNilValue, m) \<and>
    (v \<noteq> [] \<and> int (length k) + int (length v) > entrySizeLimit m \<longrightarrow> mem_Set rnd m k v = (Some ErrEntryTooLarge, m)) \<and>
    (v \<noteq> [] \<and> int (length k) + int (length v) \<le> entrySizeLimit m \<longrightarrow>
      (\<exists>m'. mem_Set rnd m k v = (if weight (ord_put k v kvs) > sint (bufferSizeLimit m) then Some ErrTxnTooLarge else None, m') \<and>
         db_rep (mb_db m') (ord_put k v kvs) \<and> mem_Get m' k = Inr v))"
proof -
  obtain db where db: "Put rnd (mb_db m) k v = Some db" "db_rep db (ord_put k v kvs)" using Put_rep [OF assms] by blast
  have "d_size db = weight (ord_put k v kvs)" using Len_Size_rep(2) [OF db(2)] by (simp add: weight_def)
  then show ?thesis using db mem_Get_rep [of "m\<lparr>mb_db := db\<rparr>" "ord_put k v kvs" k]
    by (auto simp: mem_Set_def mem_Size_def map_of_ord_put Let_def)
qed

theorem mem_Set_errors_witness:
  "\<exists>m'. mem_Set (\<lambda>_. 0) \<lparr>mb_db = New 64, entrySizeLimit = TxnEntrySizeLimit, bufferSizeLimit = 1\<rparr> [1] [2, 3] = (Some ErrTxnTooLarge, m') \<and>
     mem_Get m' [1] = Inr [2, 3]"
proof -
  have d: "db_rep (New 64) []" by (rule New_rep) simp_all
  have r: "room (New 64)" by (simp add: room_def New_def newArenaLocator_def)
  from mem_Set_errors [of "\<lparr>mb_db = New 64, entrySizeLimit = TxnEntrySizeLimit, bufferSizeLimit = 1\<rparr>" "[]" "[1]" "[2, 3]" "\<lambda>_. 0"] d r
  show ?thesis by (auto simp: TxnEntrySizeLimit_def ord_put_def entries_below_def)
qed

text \<open>C37: With the option that presumes a key absent, \<open>Get\<close> of a union store reports the key as a duplicate
  exactly when the union store has it, with the error of the option; otherwise it answers as without.\<close>

theorem presume_not_exists:
  assumes "retriever R rep left" "us_rep rep s kvs"
  shows "us_Get R (SetOption s PresumeKeyNotExistsError (ExistErrInfo idx val)) k =
    (if map_of kvs k = None then Inl ErrNotExist else Inl (ErrKeyExists val idx))"
proof -
  have "us_Get R s k = (case map_of kvs k of None \<Rightarrow> Inl ErrNotExist | Some v \<Rightarrow> Inr v)"
    using retriever.get_rep [OF retriever.us_retriever [OF assms(1)] assms(2)] by (simp add: unionStore_retriever_def)
  moreover have "opts s PresumeKeyNotExistsError = None" using assms(2) by (auto simp: us_rep_def)
  ultimately show ?thesis
    by (auto simp: us_Get_def SetOption_def Let_def split: option.splits sum.splits if_splits)
qed

theorem presume_not_exists_witness:
  "\<exists>snap. us_Get mockSnapshot (SetOption (NewUnionStore 0x100000 (\<lambda>_ _. 0) snap) PresumeKeyNotExistsError (ExistErrInfo ''PRIMARY'' ''1'')) [1] =
     Inl (ErrKeyExists ''1'' ''PRIMARY'')"
proof -
  obtain snap where snap: "mock_rep snap [([1], [9]), ([2], [8])]" using ex_snapshot by blast
  then have "us_rep mock_rep (NewUnionStore 0x100000 (\<lambda>_ _. 0) snap) [([1], [9]), ([2], [8])]" using ex_buffer(2) by blast
  from presume_not_exists [OF mock.retriever_axioms this, of "''PRIMARY''" "''1''" "[1]"] show ?thesis by auto
qed

end
