(* ===== verification/Kv_Utils.thy ===== *)
theory Kv_Utils imports Kv_Store_Correct begin

text \<open>
  Counters in a store, \<open>kv/utils.go\<close>, over the decimal integers of package \<open>strconv\<close>.
\<close>

section \<open>Decimal integers (\<open>strconv\<close>)\<close>

text \<open>
  \<open>FormatInt(i, 10)\<close> and \<open>ParseInt(s, 10, 64)\<close>; on this platform a bit size of zero means 64 too.
  \<open>ParseInt\<close> returns a number with its error: zero for a malformed string, the nearest number for one out
  of range.
\<close>

fun format_digits :: "nat \<Rightarrow> bytes" where
  "format_digits n = (if n < 10 then [of_nat (48 + n)] else format_digits (n div 10) @ [of_nat (48 + n mod 10)])"

declare format_digits.simps [simp del]

definition FormatInt :: "u64 \<Rightarrow> bytes" where
  "FormatInt i = (if sint i < 0 then 45 # format_digits (nat (- sint i)) else format_digits (nat (sint i)))"

fun ParseUint_loop :: "bytes \<Rightarrow> u64 \<Rightarrow> kv_error option \<times> u64" where
  "ParseUint_loop [] n = (None, n)"
| "ParseUint_loop (c # s) n =
     (if \<not> (48 \<le> c \<and> c \<le> 57) then (Some ErrSyntax, 0)
      else if n \<ge> MaxUint64 div 10 + 1 then (Some ErrRange, MaxUint64)
      else let n' = n * 10; n1 = n' + ucast (c - 48) in
        if n1 < n' then (Some ErrRange, MaxUint64) else ParseUint_loop s n1)"

definition ParseUint :: "bytes \<Rightarrow> kv_error option \<times> u64" where
  "ParseUint s = (if s = [] then (Some ErrSyntax, 0) else ParseUint_loop s 0)"

definition ParseInt :: "bytes \<Rightarrow> kv_error option \<times> u64" where
  "ParseInt s =
     (case s of
        [] \<Rightarrow> (Some ErrSyntax, 0)
      | c # s' \<Rightarrow>
          let neg = (c = 45); s1 = (if c = 43 \<or> c = 45 then s' else s); (err, un) = ParseUint s1 in
          if err \<noteq> None \<and> err \<noteq> Some ErrRange then (err, 0)
          else if \<not> neg \<and> un \<ge> MinInt64 then (Some ErrRange, MaxInt64)
          else if neg \<and> un > MinInt64 then (Some ErrRange, MinInt64)
          else (None, if neg then - un else un))"

section \<open>Counters\<close>

definition IncInt64 :: "('x, 'it) Retriever \<Rightarrow> 'x Mutator \<Rightarrow> 'x \<Rightarrow> bytes \<Rightarrow> u64 \<Rightarrow> (kv_error + u64) \<times> 'x" where
  "IncInt64 R M x k step =
     (case r_Get R x k of
        Inl err \<Rightarrow>
          if IsErrNotFound (Some err) then
            (case m_Set M x k (FormatInt step) of (Some err, x') \<Rightarrow> (Inl err, x') | (None, x') \<Rightarrow> (Inr step, x'))
          else (Inl err, x)
      | Inr val \<Rightarrow>
          (case ParseInt val of
             (Some err, _) \<Rightarrow> (Inl err, x)
           | (None, intVal) \<Rightarrow>
               let n = intVal + step in
               (case m_Set M x k (FormatInt n) of (Some err, x') \<Rightarrow> (Inl err, x') | (None, x') \<Rightarrow> (Inr n, x'))))"

definition kv_GetInt64 :: "('x, 'it) Retriever \<Rightarrow> 'x \<Rightarrow> bytes \<Rightarrow> kv_error option \<times> u64" where
  "kv_GetInt64 R x k =
     (case r_Get R x k of
        Inl err \<Rightarrow> if IsErrNotFound (Some err) then (None, 0) else (Some err, 0)
      | Inr val \<Rightarrow> ParseInt val)"

section \<open>Round trip\<close>

lemma format_digits_not_Nil [simp]: "format_digits n \<noteq> []"
  by (subst format_digits.simps) simp

lemma unat_digit: "d < 10 \<Longrightarrow> unat (of_nat (48 + d) :: byte) = 48 + d"
  by (simp only: unat_of_nat) simp

lemma digit_ok: "d < 10 \<Longrightarrow> 48 \<le> (of_nat (48 + d) :: byte) \<and> (of_nat (48 + d) :: byte) \<le> 57"
  by (simp only: word_le_nat_alt unat_digit) simp

lemma digit_value: "d < 10 \<Longrightarrow> ucast ((of_nat (48 + d) :: byte) - 48) = (of_nat d :: u64)"
proof -
  assume d: "d < 10"
  have "(of_nat (48 + d) :: byte) - 48 = of_nat d" by simp
  moreover have "unat (ucast (of_nat d :: byte) :: u64) = unat (of_nat d :: u64)" using d by (simp add: unat_of_nat unsigned_ucast_eq take_bit_nat_eq_self)
  ultimately show ?thesis unfolding word_unat_eq_iff [where 'a = 64] by metis
qed

lemma ParseUint_loop_append:
  "ParseUint_loop s n = (None, n') \<Longrightarrow> ParseUint_loop (s @ t) n = ParseUint_loop t n'"
proof (induction s arbitrary: n)
  case (Cons c s)
  then show ?case by (auto simp: Let_def split: if_splits)
qed simp

lemma ParseUint_digit:
  assumes "d < 10" "m * 10 + d < 2 ^ 64"
  shows "ParseUint_loop [of_nat (48 + d)] (of_nat m) = (None, of_nat (m * 10 + d))"
proof -
  have m: "unat (of_nat m :: u64) = m" "unat (of_nat (m * 10) :: u64) = m * 10" "unat (of_nat (m * 10 + d) :: u64) = m * 10 + d"
    using assms by (simp_all only: unat_of_nat) simp_all
  have "unat (MaxUint64 div 10 + 1 :: u64) = 1844674407370955162" by simp
  then have "\<not> MaxUint64 div 10 + 1 \<le> (of_nat m :: u64)" unfolding word_le_nat_alt m using assms by simp
  moreover have "(of_nat m :: u64) * 10 = of_nat (m * 10)" by simp
  moreover have "(of_nat (m * 10) :: u64) + of_nat d = of_nat (m * 10 + d)" by simp
  moreover have "\<not> (of_nat (m * 10 + d) :: u64) < of_nat (m * 10)" unfolding word_less_nat_alt m by simp
  ultimately show ?thesis using digit_ok [OF assms(1)] digit_value [OF assms(1)]
    by (simp only: ParseUint_loop.simps Let_def simp_thms if_False)
qed

lemma ParseUint_format: "n < 2 ^ 64 \<Longrightarrow> ParseUint_loop (format_digits n) 0 = (None, of_nat n)"
proof (induction n rule: format_digits.induct)
  case (1 n)
  show ?case
  proof (cases "n < 10")
    case True
    then show ?thesis using ParseUint_digit [of n 0] by (simp add: format_digits.simps [of n] del: of_nat_add ParseUint_loop.simps)
  next
    case False
    have "ParseUint_loop (format_digits (n div 10)) 0 = (None, of_nat (n div 10))" using 1 False by simp
    from ParseUint_loop_append [OF this, of "[of_nat (48 + n mod 10)]"] ParseUint_digit [of "n mod 10" "n div 10"] 1(2)
    show ?thesis using False by (simp add: format_digits.simps [of n] del: of_nat_add ParseUint_loop.simps)
  qed
qed

lemma format_digits_hd: "hd (format_digits n) \<noteq> 43 \<and> hd (format_digits n) \<noteq> 45"
proof (induction n rule: format_digits.induct)
  case (1 n)
  show ?case
  proof (cases "n < 10")
    case True
    have "unat (of_nat (48 + n) :: byte) = 48 + n" using True by (rule unat_digit)
    then show ?thesis using True by (subst (1 2) format_digits.simps) (auto simp del: of_nat_add)
  next
    case False
    then show ?thesis using 1 by (subst (1 2) format_digits.simps) simp
  qed
qed

lemma ParseInt_FormatInt: "ParseInt (FormatInt i) = (None, i)"
proof (cases "sint i < 0")
  case True
  let ?n = "nat (- sint i)"
  have r: "- 9223372036854775808 \<le> sint i" using sint_ge [of i] by simp
  have "(of_nat ?n :: u64) = of_int (- sint i)" using True by simp
  then have n: "(of_nat ?n :: u64) = - i" by simp
  have u: "unat (of_nat ?n :: u64) = ?n" using r by (simp add: unat_of_nat)
  have "ParseUint (format_digits ?n) = (None, - i)" using ParseUint_format [of ?n] r n by (simp add: ParseUint_def)
  moreover have "\<not> - i > MinInt64" unfolding word_less_nat_alt n [symmetric] u using r by simp
  ultimately show ?thesis using True by (simp add: ParseInt_def FormatInt_def)
next
  case False
  let ?n = "nat (sint i)"
  have r: "sint i < 9223372036854775808" using sint_lt [of i] by simp
  have n: "(of_nat ?n :: u64) = i" using False by simp
  have u: "unat (of_nat ?n :: u64) = ?n" using r by (simp add: unat_of_nat)
  have "ParseUint (format_digits ?n) = (None, i)" using ParseUint_format [of ?n] r n by (simp add: ParseUint_def)
  moreover have "unat i = ?n" using u n by metis
  then have "\<not> i \<ge> MinInt64" unfolding word_le_nat_alt using r by simp
  moreover obtain c s where "format_digits ?n = c # s" "c \<noteq> 43" "c \<noteq> 45" using format_digits_hd [of ?n] by (cases "format_digits ?n") auto
  ultimately show ?thesis using False by (simp add: ParseInt_def FormatInt_def)
qed

lemma FormatInt_not_Nil [simp]: "FormatInt n \<noteq> []"
  by (simp add: FormatInt_def)

section \<open>A counter adds up\<close>

text \<open>The number a key stands for; a missing key counts as zero.\<close>

definition holds_count :: "(bytes \<rightharpoonup> bytes) \<Rightarrow> bytes \<Rightarrow> u64 \<Rightarrow> bool" where
  "holds_count f k n = (case f k of None \<Rightarrow> n = 0 | Some v \<Rightarrow> v = FormatInt n)"

context retriever_mutator
begin

lemma GetInt64_rep: "rep x kvs \<Longrightarrow> holds_count (map_of kvs) k n \<Longrightarrow> kv_GetInt64 R x k = (None, n)"
  by (simp add: kv_GetInt64_def get_rep holds_count_def IsErrNotFound_def ParseInt_FormatInt split: option.splits)

lemma IncInt64_rep:
  assumes "rep x kvs" "holds_count (map_of kvs) k n" "fits x ((k, FormatInt (n + step)) # ws)"
  shows "\<exists>x' kvs'. IncInt64 R M x k step = (Inr (n + step), x') \<and> rep x' kvs' \<and>
    map_of kvs' = (map_of kvs)(k \<mapsto> FormatInt (n + step)) \<and> fits x' ws"
proof -
  obtain x' kvs' where s: "m_Set M x k (FormatInt (n + step)) = (None, x')" "rep x' kvs'"
    "map_of kvs' = (map_of kvs)(k \<mapsto> FormatInt (n + step))" "fits x' ws" using set_rep [OF assms(1,3)] by auto
  then show ?thesis using get_rep [OF assms(1), of k] assms(2)
    by (auto simp: IncInt64_def holds_count_def IsErrNotFound_def ParseInt_FormatInt Let_def split: option.splits)
qed

end

end
