(* ===== verification/Structure.thy ===== *)
theory Structure imports Kv_Utils Bytes_Codec begin

text \<open>
  Package \<open>structure\<close>: strings, hashes and lists laid out in an ordered store (\<open>structure/structure.go\<close>,
  \<open>type.go\<close>, \<open>string.go\<close>, \<open>hash.go\<close>, \<open>list.go\<close>).
\<close>

section \<open>The layout\<close>

datatype struct_error = KvErr kv_error | CodecErr codec_err | ErrInvalidHashKeyFlag | ErrInvalidListIndex |
  ErrInvalidListMetaData | ErrWriteOnSnapshot | ErrHashKeyPrefix

text \<open>
  The reader and the writer work on one state \<open>'x\<close>; a structure over a snapshot has no writer.  The writer
  is a \<open>RetrieverMutator\<close>, so it has a reading half of its own.
\<close>

record ('x, 'it) TxStructure =
  reader :: "('x, 'it) Retriever"
  readWriter :: "(('x, 'it) Retriever \<times> 'x Mutator) option"
  t_prefix :: bytes

definition NewStructure :: "('x, 'it) Retriever \<Rightarrow> (('x, 'it) Retriever \<times> 'x Mutator) option \<Rightarrow> bytes \<Rightarrow> ('x, 'it) TxStructure" where
  "NewStructure r rw p = \<lparr>reader = r, readWriter = rw, t_prefix = p\<rparr>"

definition StringData :: u64 where "StringData = 0x73"
definition HashMeta :: u64 where "HashMeta = 0x48"
definition HashData :: u64 where "HashData = 0x68"
definition ListMeta :: u64 where "ListMeta = 0x4C"
definition ListData :: u64 where "ListData = 0x6C"

definition encodeStringDataKey :: "('x, 'it) TxStructure \<Rightarrow> bytes \<Rightarrow> bytes" where
  "encodeStringDataKey t key = EncodeUint (EncodeBytes (t_prefix t) key) StringData"

definition encodeHashMetaKey :: "('x, 'it) TxStructure \<Rightarrow> bytes \<Rightarrow> bytes" where
  "encodeHashMetaKey t key = EncodeUint (EncodeBytes (t_prefix t) key) HashMeta"

definition encodeHashDataKey :: "('x, 'it) TxStructure \<Rightarrow> bytes \<Rightarrow> bytes \<Rightarrow> bytes" where
  "encodeHashDataKey t key field = EncodeBytes (EncodeUint (EncodeBytes (t_prefix t) key) HashData) field"

definition decodeHashDataKey :: "('x, 'it) TxStructure \<Rightarrow> bytes \<Rightarrow> struct_error + bytes \<times> bytes" where
  "decodeHashDataKey t ek =
     (if \<not> HasPrefix ek (t_prefix t) then Inl ErrHashKeyPrefix
      else case DecodeBytes (drop (length (t_prefix t)) ek) of
        Inl err \<Rightarrow> Inl (CodecErr err)
      | Inr (ek, key) \<Rightarrow>
          (case DecodeUint ek of
             Inl err \<Rightarrow> Inl (CodecErr err)
           | Inr (ek, tp) \<Rightarrow>
               if (ucast tp :: byte) \<noteq> ucast HashData then Inl ErrInvalidHashKeyFlag
               else case DecodeBytes ek of Inl err \<Rightarrow> Inl (CodecErr err) | Inr (_, field) \<Rightarrow> Inr (key, field)))"

definition hashDataKeyPrefix :: "('x, 'it) TxStructure \<Rightarrow> bytes \<Rightarrow> bytes" where
  "hashDataKeyPrefix t key = EncodeUint (EncodeBytes (t_prefix t) key) HashData"

definition encodeListMetaKey :: "('x, 'it) TxStructure \<Rightarrow> bytes \<Rightarrow> bytes" where
  "encodeListMetaKey t key = EncodeUint (EncodeBytes (t_prefix t) key) ListMeta"

definition encodeListDataKey :: "('x, 'it) TxStructure \<Rightarrow> bytes \<Rightarrow> u64 \<Rightarrow> bytes" where
  "encodeListDataKey t key index = EncodeInt (EncodeUint (EncodeBytes (t_prefix t) key) ListData) index"

section \<open>Strings\<close>

text \<open>A nil value is \<open>None\<close>.\<close>

definition write_result :: "kv_error option \<times> 'x \<Rightarrow> struct_error option \<times> 'x" where
  "write_result r = map_prod (map_option KvErr) id r"

definition read_value :: "kv_error + bytes \<Rightarrow> struct_error + bytes option" where
  "read_value r = (case r of Inl err \<Rightarrow> if err = ErrNotExist then Inr None else Inl (KvErr err) | Inr v \<Rightarrow> Inr (Some v))"

definition s_Set :: "('x, 'it) TxStructure \<Rightarrow> 'x \<Rightarrow> bytes \<Rightarrow> bytes \<Rightarrow> struct_error option \<times> 'x" where
  "s_Set t x key value =
     (case readWriter t of
        None \<Rightarrow> (Some ErrWriteOnSnapshot, x)
      | Some (_, w) \<Rightarrow> write_result (m_Set w x (encodeStringDataKey t key) value))"

definition s_Get :: "('x, 'it) TxStructure \<Rightarrow> 'x \<Rightarrow> bytes \<Rightarrow> struct_error + bytes option" where
  "s_Get t x key = read_value (r_Get (reader t) x (encodeStringDataKey t key))"

definition s_GetInt64 :: "('x, 'it) TxStructure \<Rightarrow> 'x \<Rightarrow> bytes \<Rightarrow> struct_error option \<times> u64" where
  "s_GetInt64 t x key =
     (case s_Get t x key of
        Inl err \<Rightarrow> (Some err, 0)
      | Inr None \<Rightarrow> (None, 0)
      | Inr (Some v) \<Rightarrow> map_prod (map_option KvErr) id (ParseInt v))"

definition s_Inc :: "('x, 'it) TxStructure \<Rightarrow> 'x \<Rightarrow> bytes \<Rightarrow> u64 \<Rightarrow> (struct_error + u64) \<times> 'x" where
  "s_Inc t x key step =
     (case readWriter t of
        None \<Rightarrow> (Inl ErrWriteOnSnapshot, x)
      | Some (r, w) \<Rightarrow>
          let (n, x') = IncInt64 r w x (encodeStringDataKey t key) step in
          ((case n of Inl err \<Rightarrow> if err = ErrNotExist then Inr 0 else Inl (KvErr err) | Inr n \<Rightarrow> Inr n), x'))"

definition s_Clear :: "('x, 'it) TxStructure \<Rightarrow> 'x \<Rightarrow> bytes \<Rightarrow> struct_error option \<times> 'x" where
  "s_Clear t x key =
     (case readWriter t of
        None \<Rightarrow> (Some ErrWriteOnSnapshot, x)
      | Some (_, w) \<Rightarrow>
          let (err, x') = m_Delete w x (encodeStringDataKey t key) in
          (if err = Some ErrNotExist then None else map_option KvErr err, x'))"

section \<open>Lists\<close>

record listMeta =
  lIndex :: u64
  rIndex :: u64

definition listMeta_Value :: "listMeta \<Rightarrow> bytes" where
  "listMeta_Value meta = PutUint64 (lIndex meta) @ PutUint64 (rIndex meta)"

definition listMeta_IsEmpty :: "listMeta \<Rightarrow> bool" where
  "listMeta_IsEmpty meta = (sint (lIndex meta) \<ge> sint (rIndex meta))"

definition loadListMeta :: "('x, 'it) TxStructure \<Rightarrow> 'x \<Rightarrow> bytes \<Rightarrow> struct_error option \<times> listMeta" where
  "loadListMeta t x metaKey =
     (case read_value (r_Get (reader t) x metaKey) of
        Inl err \<Rightarrow> (Some err, \<lparr>lIndex = 0, rIndex = 0\<rparr>)
      | Inr None \<Rightarrow> (None, \<lparr>lIndex = 0, rIndex = 0\<rparr>)
      | Inr (Some v) \<Rightarrow>
          if length v \<noteq> 16 then (Some ErrInvalidListMetaData, \<lparr>lIndex = 0, rIndex = 0\<rparr>)
          else (None, \<lparr>lIndex = Uint64 (take 8 v), rIndex = Uint64 (take 8 (drop 8 v))\<rparr>))"

fun listPush_loop :: "('x, 'it) TxStructure \<Rightarrow> 'x Mutator \<Rightarrow> bytes \<Rightarrow> bool \<Rightarrow> bytes list \<Rightarrow> listMeta \<Rightarrow> 'x \<Rightarrow> struct_error option \<times> listMeta \<times> 'x" where
  "listPush_loop t w key left [] meta x = (None, meta, x)"
| "listPush_loop t w key left (v # vs) meta x =
     (let (index, meta') =
        (if left then (lIndex meta - 1, meta\<lparr>lIndex := lIndex meta - 1\<rparr>) else (rIndex meta, meta\<lparr>rIndex := rIndex meta + 1\<rparr>)) in
      case m_Set w x (encodeListDataKey t key index) v of
        (Some err, x') \<Rightarrow> (Some (KvErr err), meta', x')
      | (None, x') \<Rightarrow> listPush_loop t w key left vs meta' x')"

definition listPush :: "('x, 'it) TxStructure \<Rightarrow> 'x \<Rightarrow> bytes \<Rightarrow> bool \<Rightarrow> bytes list \<Rightarrow> struct_error option \<times> 'x" where
  "listPush t x key left values =
     (case readWriter t of
        None \<Rightarrow> (Some ErrWriteOnSnapshot, x)
      | Some (_, w) \<Rightarrow>
          if length values = 0 then (None, x)
          else
            let metaKey = encodeListMetaKey t key in
            (case loadListMeta t x metaKey of
               (Some err, _) \<Rightarrow> (Some err, x)
             | (None, meta) \<Rightarrow>
                 (case listPush_loop t w key left values meta x of
                    (Some err, _, x') \<Rightarrow> (Some err, x')
                  | (None, meta', x') \<Rightarrow> write_result (m_Set w x' metaKey (listMeta_Value meta')))))"

definition LPush :: "('x, 'it) TxStructure \<Rightarrow> 'x \<Rightarrow> bytes \<Rightarrow> bytes list \<Rightarrow> struct_error option \<times> 'x" where
  "LPush t x key values = listPush t x key True values"

definition RPush :: "('x, 'it) TxStructure \<Rightarrow> 'x \<Rightarrow> bytes \<Rightarrow> bytes list \<Rightarrow> struct_error option \<times> 'x" where
  "RPush t x key values = listPush t x key False values"

definition listPop :: "('x, 'it) TxStructure \<Rightarrow> 'x \<Rightarrow> bytes \<Rightarrow> bool \<Rightarrow> (struct_error option \<times> bytes option) \<times> 'x" where
  "listPop t x key left =
     (case readWriter t of
        None \<Rightarrow> ((Some ErrWriteOnSnapshot, None), x)
      | Some (_, w) \<Rightarrow>
          let metaKey = encodeListMetaKey t key; (err, meta) = loadListMeta t x metaKey in
          if err \<noteq> None \<or> listMeta_IsEmpty meta then ((err, None), x)
          else
            let (index, meta') =
                  (if left then (lIndex meta, meta\<lparr>lIndex := lIndex meta + 1\<rparr>) else (rIndex meta - 1, meta\<lparr>rIndex := rIndex meta - 1\<rparr>));
                dataKey = encodeListDataKey t key index
            in case r_Get (reader t) x dataKey of
              Inl err \<Rightarrow> ((Some (KvErr err), None), x)
            | Inr data \<Rightarrow>
                (case m_Delete w x dataKey of
                   (Some err, x') \<Rightarrow> ((Some (KvErr err), None), x')
                 | (None, x') \<Rightarrow>
                     let (err, x'') = (if \<not> listMeta_IsEmpty meta' then m_Set w x' metaKey (listMeta_Value meta') else m_Delete w x' metaKey)
                     in ((map_option KvErr err, Some data), x'')))"

definition LPop :: "('x, 'it) TxStructure \<Rightarrow> 'x \<Rightarrow> bytes \<Rightarrow> (struct_error option \<times> bytes option) \<times> 'x" where
  "LPop t x key = listPop t x key True"

definition RPop :: "('x, 'it) TxStructure \<Rightarrow> 'x \<Rightarrow> bytes \<Rightarrow> (struct_error option \<times> bytes option) \<times> 'x" where
  "RPop t x key = listPop t x key False"

definition LLen :: "('x, 'it) TxStructure \<Rightarrow> 'x \<Rightarrow> bytes \<Rightarrow> struct_error option \<times> u64" where
  "LLen t x key = (let (err, meta) = loadListMeta t x (encodeListMetaKey t key) in (err, rIndex meta - lIndex meta))"

text \<open>
  The loop \<open>for index := RIndex - 1; index >= LIndex; index--\<close>.  It runs forever for a list that starts at
  the smallest index, which \<open>None\<close> stands for.
\<close>

partial_function (option) LGetAll_loop ::
  "('x, 'it) TxStructure \<Rightarrow> 'x \<Rightarrow> bytes \<Rightarrow> u64 \<Rightarrow> u64 \<Rightarrow> bytes list \<Rightarrow> (struct_error + bytes list) option" where
  "LGetAll_loop t x key l index elements =
     (if sint index \<ge> sint l then
        (case r_Get (reader t) x (encodeListDataKey t key index) of
           Inl err \<Rightarrow> Some (Inl (KvErr err))
         | Inr e \<Rightarrow> LGetAll_loop t x key l (index - 1) (elements @ [e]))
      else Some (Inr elements))"

text \<open>\<open>make\<close> with a capacity of \<open>n\<close> elements of the given size panics for a negative one and beyond the address space.\<close>

definition make_ok :: "int \<Rightarrow> int \<Rightarrow> bool" where
  "make_ok w n = (0 \<le> n \<and> n * w \<le> 2 ^ 48)"

definition LGetAll :: "('x, 'it) TxStructure \<Rightarrow> 'x \<Rightarrow> bytes \<Rightarrow> (struct_error + bytes list) option" where
  "LGetAll t x key =
     (let (err, meta) = loadListMeta t x (encodeListMetaKey t key) in
      case err of
        Some err \<Rightarrow> Some (Inl err)
      | None \<Rightarrow> if listMeta_IsEmpty meta then Some (Inr [])
                else if \<not> make_ok 24 (sint (rIndex meta - lIndex meta)) then Some (Inl (KvErr Crash))
                else LGetAll_loop t x key (lIndex meta) (rIndex meta - 1) [])"

definition adjustIndex :: "u64 \<Rightarrow> u64 \<Rightarrow> u64 \<Rightarrow> u64" where
  "adjustIndex index min' max' = (if sint index \<ge> 0 then index + min' else index + max')"

definition LIndex :: "('x, 'it) TxStructure \<Rightarrow> 'x \<Rightarrow> bytes \<Rightarrow> u64 \<Rightarrow> struct_error + bytes option" where
  "LIndex t x key index =
     (let (err, meta) = loadListMeta t x (encodeListMetaKey t key) in
      case err of
        Some err \<Rightarrow> Inl err
      | None \<Rightarrow>
          if listMeta_IsEmpty meta then Inr None
          else
            let index = adjustIndex index (lIndex meta) (rIndex meta) in
            if sint index \<ge> sint (lIndex meta) \<and> sint index < sint (rIndex meta) then
              (case r_Get (reader t) x (encodeListDataKey t key index) of Inl err \<Rightarrow> Inl (KvErr err) | Inr v \<Rightarrow> Inr (Some v))
            else Inr None)"

definition LSet :: "('x, 'it) TxStructure \<Rightarrow> 'x \<Rightarrow> bytes \<Rightarrow> u64 \<Rightarrow> bytes \<Rightarrow> struct_error option \<times> 'x" where
  "LSet t x key index value =
     (case readWriter t of
        None \<Rightarrow> (Some ErrWriteOnSnapshot, x)
      | Some (_, w) \<Rightarrow>
          let (err, meta) = loadListMeta t x (encodeListMetaKey t key) in
          if err \<noteq> None \<or> listMeta_IsEmpty meta then (err, x)
          else
            let index = adjustIndex index (lIndex meta) (rIndex meta) in
            if sint index \<ge> sint (lIndex meta) \<and> sint index < sint (rIndex meta) then
              write_result (m_Set w x (encodeListDataKey t key index) value)
            else (Some ErrInvalidListIndex, x))"

partial_function (option) LClear_loop ::
  "('x, 'it) TxStructure \<Rightarrow> 'x Mutator \<Rightarrow> bytes \<Rightarrow> u64 \<Rightarrow> u64 \<Rightarrow> 'x \<Rightarrow> (struct_error option \<times> 'x) option" where
  "LClear_loop t w key r index x =
     (if sint index < sint r then
        (case m_Delete w x (encodeListDataKey t key index) of
           (Some err, x') \<Rightarrow> Some (Some (KvErr err), x')
         | (None, x') \<Rightarrow> LClear_loop t w key r (index + 1) x')
      else Some (None, x))"

definition LClear :: "('x, 'it) TxStructure \<Rightarrow> 'x \<Rightarrow> bytes \<Rightarrow> (struct_error option \<times> 'x) option" where
  "LClear t x key =
     (case readWriter t of
        None \<Rightarrow> Some (Some ErrWriteOnSnapshot, x)
      | Some (_, w) \<Rightarrow>
          let metaKey = encodeListMetaKey t key; (err, meta) = loadListMeta t x metaKey in
          if err \<noteq> None \<or> listMeta_IsEmpty meta then Some (err, x)
          else case LClear_loop t w key (rIndex meta) (lIndex meta) x of
            None \<Rightarrow> None
          | Some (Some err, x') \<Rightarrow> Some (Some err, x')
          | Some (None, x') \<Rightarrow> Some (write_result (m_Delete w x' metaKey)))"

section \<open>Hashes\<close>

record HashPair =
  Field :: bytes
  PairValue :: bytes

record hashMeta =
  FieldCount :: u64

definition hashMeta_Value :: "hashMeta \<Rightarrow> bytes" where
  "hashMeta_Value meta = PutUint64 (FieldCount meta)"

definition hashMeta_IsEmpty :: "hashMeta \<Rightarrow> bool" where
  "hashMeta_IsEmpty meta = (sint (FieldCount meta) \<le> 0)"

definition loadHashMeta :: "('x, 'it) TxStructure \<Rightarrow> 'x \<Rightarrow> bytes \<Rightarrow> struct_error option \<times> hashMeta" where
  "loadHashMeta t x metaKey =
     (case read_value (r_Get (reader t) x metaKey) of
        Inl err \<Rightarrow> (Some err, \<lparr>FieldCount = 0\<rparr>)
      | Inr None \<Rightarrow> (None, \<lparr>FieldCount = 0\<rparr>)
      | Inr (Some v) \<Rightarrow>
          if length v \<noteq> 8 then (Some ErrInvalidListMetaData, \<lparr>FieldCount = 0\<rparr>)
          else (None, \<lparr>FieldCount = Uint64 v\<rparr>))"

definition loadHashValue :: "('x, 'it) TxStructure \<Rightarrow> 'x \<Rightarrow> bytes \<Rightarrow> struct_error + bytes option" where
  "loadHashValue t x dataKey = read_value (r_Get (reader t) x dataKey)"

text \<open>The callback of \<open>updateHash\<close> works on a variable \<open>'b\<close> of the caller.  \<open>bytes.Equal\<close> takes nil for empty.\<close>

definition updateHash ::
  "('x, 'it) TxStructure \<Rightarrow> 'x \<Rightarrow> bytes \<Rightarrow> bytes \<Rightarrow> ('b \<Rightarrow> bytes option \<Rightarrow> (struct_error + bytes) \<times> 'b) \<Rightarrow> 'b \<Rightarrow>
     struct_error option \<times> 'b \<times> 'x" where
  "updateHash t x key field fn b =
     (let dataKey = encodeHashDataKey t key field in
      case loadHashValue t x dataKey of
        Inl err \<Rightarrow> (Some err, b, x)
      | Inr oldValue \<Rightarrow>
          (case fn b oldValue of
             (Inl err, b) \<Rightarrow> (Some err, b, x)
           | (Inr newValue, b) \<Rightarrow>
               if (case oldValue of None \<Rightarrow> [] | Some v \<Rightarrow> v) = newValue then (None, b, x)
               else case readWriter t of
                 None \<Rightarrow> (Some (KvErr Crash), b, x)
               | Some (_, w) \<Rightarrow>
                   (case m_Set w x dataKey newValue of
                      (Some err, x) \<Rightarrow> (Some (KvErr err), b, x)
                    | (None, x) \<Rightarrow>
                        let metaKey = encodeHashMetaKey t key in
                        (case loadHashMeta t x metaKey of
                           (Some err, _) \<Rightarrow> (Some err, b, x)
                         | (None, meta) \<Rightarrow>
                             if oldValue = None then
                               let meta = meta\<lparr>FieldCount := FieldCount meta + 1\<rparr>;
                                   (err, x) = write_result (m_Set w x metaKey (hashMeta_Value meta))
                               in (err, b, x)
                             else (None, b, x)))))"

definition HSet :: "('x, 'it) TxStructure \<Rightarrow> 'x \<Rightarrow> bytes \<Rightarrow> bytes \<Rightarrow> bytes \<Rightarrow> struct_error option \<times> 'x" where
  "HSet t x key field value =
     (if readWriter t = None then (Some ErrWriteOnSnapshot, x)
      else let (err, _, x') = updateHash t x key field (\<lambda>b _. (Inr value, b)) () in (err, x'))"

definition HGet :: "('x, 'it) TxStructure \<Rightarrow> 'x \<Rightarrow> bytes \<Rightarrow> bytes \<Rightarrow> struct_error + bytes option" where
  "HGet t x key field = read_value (r_Get (reader t) x (encodeHashDataKey t key field))"

definition hashFieldIntegerVal :: "u64 \<Rightarrow> bytes" where
  "hashFieldIntegerVal val = FormatInt val"

definition EncodeHashAutoIDKeyValue :: "('x, 'it) TxStructure \<Rightarrow> bytes \<Rightarrow> bytes \<Rightarrow> u64 \<Rightarrow> bytes \<times> bytes" where
  "EncodeHashAutoIDKeyValue t key field val = (encodeHashDataKey t key field, hashFieldIntegerVal val)"

definition HInc_fn :: "u64 \<Rightarrow> u64 \<Rightarrow> bytes option \<Rightarrow> (struct_error + bytes) \<times> u64" where
  "HInc_fn step base oldValue =
     (case oldValue of
        None \<Rightarrow> (Inr (hashFieldIntegerVal (base + step)), base + step)
      | Some v \<Rightarrow>
          (case ParseInt v of
             (Some err, n) \<Rightarrow> (Inl (KvErr err), n)
           | (None, n) \<Rightarrow> (Inr (hashFieldIntegerVal (n + step)), n + step)))"

definition HInc :: "('x, 'it) TxStructure \<Rightarrow> 'x \<Rightarrow> bytes \<Rightarrow> bytes \<Rightarrow> u64 \<Rightarrow> struct_error option \<times> u64 \<times> 'x" where
  "HInc t x key field step =
     (if readWriter t = None then (Some ErrWriteOnSnapshot, 0, x)
      else updateHash t x key field (HInc_fn step) 0)"

definition HGetInt64 :: "('x, 'it) TxStructure \<Rightarrow> 'x \<Rightarrow> bytes \<Rightarrow> bytes \<Rightarrow> struct_error option \<times> u64" where
  "HGetInt64 t x key field =
     (case HGet t x key field of
        Inl err \<Rightarrow> (Some err, 0)
      | Inr None \<Rightarrow> (None, 0)
      | Inr (Some v) \<Rightarrow> map_prod (map_option KvErr) id (ParseInt v))"

definition HLen :: "('x, 'it) TxStructure \<Rightarrow> 'x \<Rightarrow> bytes \<Rightarrow> struct_error option \<times> u64" where
  "HLen t x key =
     (case loadHashMeta t x (encodeHashMetaKey t key) of (Some err, _) \<Rightarrow> (Some err, 0) | (None, meta) \<Rightarrow> (None, FieldCount meta))"

fun HDel_loop :: "('x, 'it) TxStructure \<Rightarrow> 'x Mutator \<Rightarrow> bytes \<Rightarrow> bytes list \<Rightarrow> hashMeta \<Rightarrow> 'x \<Rightarrow> struct_error option \<times> hashMeta \<times> 'x" where
  "HDel_loop t w key [] meta x = (None, meta, x)"
| "HDel_loop t w key (field # fs) meta x =
     (let dataKey = encodeHashDataKey t key field in
      case loadHashValue t x dataKey of
        Inl err \<Rightarrow> (Some err, meta, x)
      | Inr None \<Rightarrow> HDel_loop t w key fs meta x
      | Inr (Some _) \<Rightarrow>
          (case m_Delete w x dataKey of
             (Some err, x') \<Rightarrow> (Some (KvErr err), meta, x')
           | (None, x') \<Rightarrow> HDel_loop t w key fs (meta\<lparr>FieldCount := FieldCount meta - 1\<rparr>) x'))"

definition HDel :: "('x, 'it) TxStructure \<Rightarrow> 'x \<Rightarrow> bytes \<Rightarrow> bytes list \<Rightarrow> struct_error option \<times> 'x" where
  "HDel t x key fs =
     (case readWriter t of
        None \<Rightarrow> (Some ErrWriteOnSnapshot, x)
      | Some (_, w) \<Rightarrow>
          let metaKey = encodeHashMetaKey t key; (err, meta) = loadHashMeta t x metaKey in
          if err \<noteq> None \<or> hashMeta_IsEmpty meta then (err, x)
          else case HDel_loop t w key fs meta x of
            (Some err, _, x') \<Rightarrow> (Some err, x')
          | (None, meta', x') \<Rightarrow>
              write_result (if hashMeta_IsEmpty meta' then m_Delete w x' metaKey else m_Set w x' metaKey (hashMeta_Value meta')))"

text \<open>
  The callback of the iterations changes a state \<open>'s\<close> and the store; the iterator reads the store as it is
  at each step.  The second component of the reverse callback says whether to go on.
\<close>

partial_function (option) iterateHash_loop ::
  "('x, 'it) TxStructure \<Rightarrow> bytes \<Rightarrow> (bytes \<Rightarrow> bytes \<Rightarrow> 's \<times> 'x \<Rightarrow> struct_error option \<times> 's \<times> 'x) \<Rightarrow> 'it \<Rightarrow> 's \<times> 'x \<Rightarrow>
     (struct_error option \<times> 's \<times> 'x) option" where
  "iterateHash_loop t dataPrefix fn it s =
     (let I = r_iterator (reader t) (snd s) in
      if \<not> Valid I it \<or> \<not> HasPrefix (Key I it) dataPrefix then Some (None, s)
      else case decodeHashDataKey t (Key I it) of
        Inl err \<Rightarrow> Some (Some err, s)
      | Inr (_, field) \<Rightarrow>
          (case fn field (Value I it) s of
             (Some err, s') \<Rightarrow> Some (Some err, s')
           | (None, s') \<Rightarrow>
               (case Iterator.Next (r_iterator (reader t) (snd s')) it of
                  (Some err, _) \<Rightarrow> Some (Some (KvErr err), s')
                | (None, it') \<Rightarrow> iterateHash_loop t dataPrefix fn it' s')))"

definition iterateHash ::
  "('x, 'it) TxStructure \<Rightarrow> bytes \<Rightarrow> (bytes \<Rightarrow> bytes \<Rightarrow> 's \<times> 'x \<Rightarrow> struct_error option \<times> 's \<times> 'x) \<Rightarrow> 's \<times> 'x \<Rightarrow>
     (struct_error option \<times> 's \<times> 'x) option" where
  "iterateHash t key fn s =
     (let dataPrefix = hashDataKeyPrefix t key in
      case r_Iter (reader t) (snd s) (Some dataPrefix) (Some (PrefixNext dataPrefix)) of
        Inl err \<Rightarrow> Some (Some (KvErr err), s)
      | Inr it \<Rightarrow> iterateHash_loop t dataPrefix fn it s)"

definition HKeys :: "('x, 'it) TxStructure \<Rightarrow> 'x \<Rightarrow> bytes \<Rightarrow> (struct_error option \<times> bytes list) option" where
  "HKeys t x key =
     map_option (\<lambda>(err, keys, _). (err, keys)) (iterateHash t key (\<lambda>field value (keys, x). (None, keys @ [field], x)) ([], x))"

definition HGetAll :: "('x, 'it) TxStructure \<Rightarrow> 'x \<Rightarrow> bytes \<Rightarrow> (struct_error option \<times> HashPair list) option" where
  "HGetAll t x key =
     map_option (\<lambda>(err, res, _). (err, res))
       (iterateHash t key (\<lambda>field value (res, x). (None, res @ [\<lparr>Field = field, PairValue = value\<rparr>], x)) ([], x))"

definition HClear :: "('x, 'it) TxStructure \<Rightarrow> 'x \<Rightarrow> bytes \<Rightarrow> (struct_error option \<times> 'x) option" where
  "HClear t x key =
     (let metaKey = encodeHashMetaKey t key; (err, meta) = loadHashMeta t x metaKey in
      if err \<noteq> None \<or> hashMeta_IsEmpty meta then Some (err, x)
      else case readWriter t of
        None \<Rightarrow> Some (Some (KvErr Crash), x)
      | Some (_, w) \<Rightarrow>
          (case iterateHash t key
                  (\<lambda>field value (u, x). let (err, x') = write_result (m_Delete w x (encodeHashDataKey t key field)) in (err, u, x')) ((), x) of
             None \<Rightarrow> None
           | Some (Some err, _, x') \<Rightarrow> Some (Some err, x')
           | Some (None, _, x') \<Rightarrow> Some (write_result (m_Delete w x' metaKey))))"

partial_function (option) iterReverseHash_loop ::
  "('x, 'it) TxStructure \<Rightarrow> 'x \<Rightarrow> bytes \<Rightarrow> (bytes \<Rightarrow> bytes \<Rightarrow> 's \<Rightarrow> struct_error option \<times> bool \<times> 's) \<Rightarrow> 'it \<Rightarrow> 's \<Rightarrow>
     (struct_error option \<times> 's) option" where
  "iterReverseHash_loop t x dataPrefix fn it s =
     (let I = r_iterator (reader t) x in
      if \<not> Valid I it \<or> \<not> HasPrefix (Key I it) dataPrefix then Some (None, s)
      else case decodeHashDataKey t (Key I it) of
        Inl err \<Rightarrow> Some (Some err, s)
      | Inr (_, field) \<Rightarrow>
          (case fn field (Value I it) s of
             (err, go_on, s') \<Rightarrow>
               if \<not> go_on \<or> err \<noteq> None then Some (err, s')
               else (case Iterator.Next I it of
                 (Some err, _) \<Rightarrow> Some (Some (KvErr err), s')
               | (None, it') \<Rightarrow> iterReverseHash_loop t x dataPrefix fn it' s')))"

definition iterReverseHash ::
  "('x, 'it) TxStructure \<Rightarrow> 'x \<Rightarrow> bytes \<Rightarrow> (bytes \<Rightarrow> bytes \<Rightarrow> 's \<Rightarrow> struct_error option \<times> bool \<times> 's) \<Rightarrow> 's \<Rightarrow>
     (struct_error option \<times> 's) option" where
  "iterReverseHash t x key fn s =
     (let dataPrefix = hashDataKeyPrefix t key in
      case r_IterReverse (reader t) x (Some (PrefixNext dataPrefix)) of
        Inl err \<Rightarrow> Some (Some (KvErr err), s)
      | Inr it \<Rightarrow> iterReverseHash_loop t x dataPrefix fn it s)"

definition HGetLastN :: "('x, 'it) TxStructure \<Rightarrow> 'x \<Rightarrow> bytes \<Rightarrow> int \<Rightarrow> (struct_error option \<times> HashPair list) option" where
  "HGetLastN t x key num =
     (if \<not> make_ok 48 num then Some (Some (KvErr Crash), [])
      else iterReverseHash t x key
        (\<lambda>field value res.
           let res = res @ [\<lparr>Field = field, PairValue = value\<rparr>] in
           if int (length res) \<ge> num then (None, False, res) else (None, True, res)) [])"

end
