(* ===== verification/Meta.thy ===== *)
theory Meta
  imports Structure
begin

text \<open>
  Package \<open>meta\<close> (\<open>meta/meta.go\<close>): the catalogue of databases, tables, DDL jobs and counters, kept in the
  structures of package \<open>structure\<close> under the prefix \<open>m\<close>.  A transaction is used through its interface
  (\<open>kv/kv.go\<close>); the values stored are JSON, whose encoder and decoder are arguments, as the fields that the
  code of the package does not touch are one component of each record.
\<close>

section \<open>Values and errors\<close>

datatype meta_error = StructErr struct_error | JsonErr | ErrDBExists | ErrDBNotExists | ErrTableExists | ErrTableNotExists

record 'o DBInfo =
  db_ID :: u64
  db_Rest :: 'o

record 'o TableInfo =
  tbl_ID :: u64
  tbl_Rest :: 'o

record 'o SchemaDiff =
  Version :: u64
  diff_Rest :: 'o

record ('args, 'o) Job =
  ID :: u64
  TableID :: u64
  Args :: 'args
  RawArgs :: bytes
  ReorgMeta :: "u64 option"
  job_Priority :: int
  job_Rest :: 'o

text \<open>
  \<open>json.Marshal\<close> fails or gives bytes.  \<open>json.Unmarshal\<close> fills a value that it is given; the second
  component is what is in it afterwards, also when it fails.
\<close>

record ('db, 'tbl, 'diff, 'args, 'job) Json =
  marshalDB :: "'db DBInfo \<Rightarrow> bytes option"
  unmarshalDB :: "bytes \<Rightarrow> meta_error option \<times> 'db DBInfo"
  marshalTable :: "'tbl TableInfo \<Rightarrow> bytes option"
  unmarshalTable :: "bytes \<Rightarrow> meta_error option \<times> 'tbl TableInfo"
  marshalDiff :: "'diff SchemaDiff \<Rightarrow> bytes option"
  unmarshalDiff :: "bytes \<Rightarrow> meta_error option \<times> 'diff SchemaDiff"
  marshalArgs :: "'args \<Rightarrow> bytes option"
  marshalJob :: "('args, 'job) Job \<Rightarrow> bytes option"
  unmarshalJob :: "bytes \<Rightarrow> ('args, 'job) Job \<Rightarrow> meta_error option \<times> ('args, 'job) Job"
  zeroJob :: "('args, 'job) Job"

definition job_Encode :: "('db, 'tbl, 'diff, 'args, 'job) Json \<Rightarrow> ('args, 'job) Job \<Rightarrow> bool \<Rightarrow> (meta_error + bytes) \<times> ('args, 'job) Job" where
  "job_Encode J job updateRawArgs =
     (case (if updateRawArgs then map_option (\<lambda>raw. job\<lparr>RawArgs := raw\<rparr>) (marshalArgs J (Args job)) else Some job) of
        None \<Rightarrow> (Inl JsonErr, job\<lparr>RawArgs := []\<rparr>)
      | Some job \<Rightarrow> (case marshalJob J job of None \<Rightarrow> (Inl JsonErr, job) | Some b \<Rightarrow> (Inr b, job)))"

definition job_Decode :: "('db, 'tbl, 'diff, 'args, 'job) Json \<Rightarrow> ('args, 'job) Job \<Rightarrow> bytes \<Rightarrow> meta_error option \<times> ('args, 'job) Job" where
  "job_Decode J job b = unmarshalJob J b job"

section \<open>Keys\<close>

definition str :: "string \<Rightarrow> bytes" where
  "str s = map of_char s"

definition mMetaPrefix :: bytes where "mMetaPrefix = str ''m''"
definition mNextGlobalIDKey :: bytes where "mNextGlobalIDKey = str ''NextGlobalID''"
definition mSchemaVersionKey :: bytes where "mSchemaVersionKey = str ''SchemaVersionKey''"
definition mDBs :: bytes where "mDBs = str ''DBs''"
definition mDBPrefix :: bytes where "mDBPrefix = str ''DB''"
definition mTablePrefix :: bytes where "mTablePrefix = str ''Table''"
definition mTableIDPrefix :: bytes where "mTableIDPrefix = str ''TID''"
definition mBootstrapKey :: bytes where "mBootstrapKey = str ''BootstrapKey''"
definition mSchemaDiffPrefix :: bytes where "mSchemaDiffPrefix = str ''Diff''"
definition mDDLJobListKey :: bytes where "mDDLJobListKey = str ''DDLJobList''"
definition mDDLJobAddIdxList :: bytes where "mDDLJobAddIdxList = str ''DDLJobAddIdxList''"
definition mDDLJobHistoryKey :: bytes where "mDDLJobHistoryKey = str ''DDLJobHistory''"
definition mDDLJobReorgKey :: bytes where "mDDLJobReorgKey = str ''DDLJobReorg''"

definition DefaultJobListKey :: bytes where "DefaultJobListKey = mDDLJobListKey"
definition AddIndexJobListKey :: bytes where "AddIndexJobListKey = mDDLJobAddIdxList"

text \<open>\<open>fmt.Sprintf("%s:%d", pre, i)\<close>.\<close>

definition id_key :: "bytes \<Rightarrow> u64 \<Rightarrow> bytes" where
  "id_key pre i = pre @ str '':'' @ FormatInt i"

definition dbKey :: "u64 \<Rightarrow> bytes" where "dbKey dbID = id_key mDBPrefix dbID"
definition autoTableIDKey :: "u64 \<Rightarrow> bytes" where "autoTableIDKey tableID = id_key mTableIDPrefix tableID"
definition tableKey :: "u64 \<Rightarrow> bytes" where "tableKey tableID = id_key mTablePrefix tableID"
definition schemaDiffKey :: "u64 \<Rightarrow> bytes" where "schemaDiffKey schemaVersion = id_key mSchemaDiffPrefix schemaVersion"
definition jobIDKey :: "u64 \<Rightarrow> bytes" where "jobIDKey i = PutUint64 i"
definition reorgJobStartHandle :: "u64 \<Rightarrow> bytes" where "reorgJobStartHandle i = jobIDKey i"
definition reorgJobEndHandle :: "u64 \<Rightarrow> bytes" where "reorgJobEndHandle i = PutUint64 i @ str ''_end''"
definition reorgJobPhysicalTableID :: "u64 \<Rightarrow> bytes" where "reorgJobPhysicalTableID i = PutUint64 i @ str ''_pid''"

section \<open>The catalogue in a transaction\<close>

text \<open>What the package uses of \<open>kv.Transaction\<close>; its options are those of the union store.\<close>

record ('x, 'it) Transaction =
  tx_retriever :: "('x, 'it) Retriever"
  tx_mutator :: "'x Mutator"
  tx_SetOption :: "'x \<Rightarrow> nat \<Rightarrow> option_value \<Rightarrow> 'x"
  tx_StartTS :: "'x \<Rightarrow> u64"

definition Priority :: nat where "Priority = 5"
definition SyncLog :: nat where "SyncLog = 7"
definition PriorityNormal :: int where "PriorityNormal = 0"
definition PriorityLow :: int where "PriorityLow = 1"
definition PriorityHigh :: int where "PriorityHigh = 2"

record ('x, 'it) Meta =
  txn :: "('x, 'it) TxStructure"
  StartTS :: u64
  jobListKey :: bytes

definition NewMeta :: "('x, 'it) Transaction \<Rightarrow> 'x \<Rightarrow> bytes list \<Rightarrow> ('x, 'it) Meta \<times> 'x" where
  "NewMeta T x jobListKeys =
     (let x = tx_SetOption T x Priority (OtherValue (nat PriorityHigh));
          x = tx_SetOption T x SyncLog (OtherValue 1);
          t = NewStructure (tx_retriever T) (Some (tx_retriever T, tx_mutator T)) mMetaPrefix;
          listKey = (if length jobListKeys \<noteq> 0 then jobListKeys ! 0 else DefaultJobListKey)
      in (\<lparr>txn = t, StartTS = tx_StartTS T x, jobListKey = listKey\<rparr>, x))"

definition NewSnapshotMeta :: "('x, 'it) Retriever \<Rightarrow> ('x, 'it) Meta" where
  "NewSnapshotMeta snapshot = \<lparr>txn = NewStructure snapshot None mMetaPrefix, StartTS = 0, jobListKey = []\<rparr>"

definition sterr :: "struct_error option \<times> 'b \<Rightarrow> meta_error option \<times> 'b" where
  "sterr = map_prod (map_option StructErr) id"

definition stval :: "struct_error + 'b \<Rightarrow> meta_error + 'b" where
  "stval = map_sum StructErr id"

subsection \<open>Counters\<close>

definition GenGlobalID :: "('x, 'it) Meta \<Rightarrow> 'x \<Rightarrow> (meta_error + u64) \<times> 'x" where
  "GenGlobalID m x = map_prod stval id (s_Inc (txn m) x mNextGlobalIDKey 1)"

text \<open>The loop \<open>for i := origID + 1; i <= newID; i++\<close>, which never ends when \<open>newID\<close> is the largest integer.\<close>

partial_function (option) GenGlobalIDs_loop :: "u64 \<Rightarrow> u64 \<Rightarrow> u64 list \<Rightarrow> u64 list option" where
  "GenGlobalIDs_loop i newID ids =
     (if sint i \<le> sint newID then GenGlobalIDs_loop (i + 1) newID (ids @ [i]) else Some ids)"

definition GenGlobalIDs :: "('x, 'it) Meta \<Rightarrow> 'x \<Rightarrow> u64 \<Rightarrow> ((meta_error + u64 list) \<times> 'x) option" where
  "GenGlobalIDs m x n =
     (case s_Inc (txn m) x mNextGlobalIDKey n of
        (Inl err, x') \<Rightarrow> Some (Inl (StructErr err), x')
      | (Inr newID, x') \<Rightarrow>
          if \<not> make_ok 8 (sint n) then Some (Inl (StructErr (KvErr Crash)), x')
          else map_option (\<lambda>ids. (Inr ids, x')) (GenGlobalIDs_loop (newID - n + 1) newID []))"

definition GetGlobalID :: "('x, 'it) Meta \<Rightarrow> 'x \<Rightarrow> meta_error option \<times> u64" where
  "GetGlobalID m x = sterr (s_GetInt64 (txn m) x mNextGlobalIDKey)"

definition GetSchemaVersion :: "('x, 'it) Meta \<Rightarrow> 'x \<Rightarrow> meta_error option \<times> u64" where
  "GetSchemaVersion m x = sterr (s_GetInt64 (txn m) x mSchemaVersionKey)"

definition GenSchemaVersion :: "('x, 'it) Meta \<Rightarrow> 'x \<Rightarrow> (meta_error + u64) \<times> 'x" where
  "GenSchemaVersion m x = map_prod stval id (s_Inc (txn m) x mSchemaVersionKey 1)"

definition GetBootstrapVersion :: "('x, 'it) Meta \<Rightarrow> 'x \<Rightarrow> meta_error option \<times> u64" where
  "GetBootstrapVersion m x = sterr (s_GetInt64 (txn m) x mBootstrapKey)"

definition FinishBootstrap :: "('x, 'it) Meta \<Rightarrow> 'x \<Rightarrow> u64 \<Rightarrow> meta_error option \<times> 'x" where
  "FinishBootstrap m x version = sterr (s_Set (txn m) x mBootstrapKey (FormatInt version))"

subsection \<open>Databases and tables\<close>

definition checkDBExists :: "('x, 'it) Meta \<Rightarrow> 'x \<Rightarrow> bytes \<Rightarrow> meta_error option" where
  "checkDBExists m x key =
     (case HGet (txn m) x mDBs key of Inl err \<Rightarrow> Some (StructErr err) | Inr None \<Rightarrow> Some ErrDBNotExists | Inr (Some _) \<Rightarrow> None)"

definition checkDBNotExists :: "('x, 'it) Meta \<Rightarrow> 'x \<Rightarrow> bytes \<Rightarrow> meta_error option" where
  "checkDBNotExists m x key =
     (case HGet (txn m) x mDBs key of Inl err \<Rightarrow> Some (StructErr err) | Inr None \<Rightarrow> None | Inr (Some _) \<Rightarrow> Some ErrDBExists)"

definition checkTableExists :: "('x, 'it) Meta \<Rightarrow> 'x \<Rightarrow> bytes \<Rightarrow> bytes \<Rightarrow> meta_error option" where
  "checkTableExists m x db key =
     (case HGet (txn m) x db key of Inl err \<Rightarrow> Some (StructErr err) | Inr None \<Rightarrow> Some ErrTableNotExists | Inr (Some _) \<Rightarrow> None)"

definition checkTableNotExists :: "('x, 'it) Meta \<Rightarrow> 'x \<Rightarrow> bytes \<Rightarrow> bytes \<Rightarrow> meta_error option" where
  "checkTableNotExists m x db key =
     (case HGet (txn m) x db key of Inl err \<Rightarrow> Some (StructErr err) | Inr None \<Rightarrow> None | Inr (Some _) \<Rightarrow> Some ErrTableExists)"

definition GenAutoTableIDKeyValue :: "('x, 'it) Meta \<Rightarrow> u64 \<Rightarrow> u64 \<Rightarrow> u64 \<Rightarrow> bytes \<times> bytes" where
  "GenAutoTableIDKeyValue m dbID tableID autoID = EncodeHashAutoIDKeyValue (txn m) (dbKey dbID) (autoTableIDKey tableID) autoID"

definition GenAutoTableID :: "('x, 'it) Meta \<Rightarrow> 'x \<Rightarrow> u64 \<Rightarrow> u64 \<Rightarrow> u64 \<Rightarrow> (meta_error option \<times> u64) \<times> 'x" where
  "GenAutoTableID m x dbID tableID step =
     (case checkDBExists m x (dbKey dbID) of
        Some err \<Rightarrow> ((Some err, 0), x)
      | None \<Rightarrow>
          (case checkTableExists m x (dbKey dbID) (tableKey tableID) of
             Some err \<Rightarrow> ((Some err, 0), x)
           | None \<Rightarrow> (case HInc (txn m) x (dbKey dbID) (autoTableIDKey tableID) step of (err, n, x') \<Rightarrow> ((map_option StructErr err, n), x'))))"

definition GetAutoTableID :: "('x, 'it) Meta \<Rightarrow> 'x \<Rightarrow> u64 \<Rightarrow> u64 \<Rightarrow> meta_error option \<times> u64" where
  "GetAutoTableID m x dbID tableID = sterr (HGetInt64 (txn m) x (dbKey dbID) (autoTableIDKey tableID))"

definition CreateDatabase :: "('db, 'tbl, 'diff, 'args, 'job) Json \<Rightarrow> ('x, 'it) Meta \<Rightarrow> 'x \<Rightarrow> 'db DBInfo \<Rightarrow> meta_error option \<times> 'x" where
  "CreateDatabase J m x dbInfo =
     (case checkDBNotExists m x (dbKey (db_ID dbInfo)) of
        Some err \<Rightarrow> (Some err, x)
      | None \<Rightarrow> (case marshalDB J dbInfo of None \<Rightarrow> (Some JsonErr, x) | Some data \<Rightarrow> sterr (HSet (txn m) x mDBs (dbKey (db_ID dbInfo)) data)))"

definition UpdateDatabase :: "('db, 'tbl, 'diff, 'args, 'job) Json \<Rightarrow> ('x, 'it) Meta \<Rightarrow> 'x \<Rightarrow> 'db DBInfo \<Rightarrow> meta_error option \<times> 'x" where
  "UpdateDatabase J m x dbInfo =
     (case checkDBExists m x (dbKey (db_ID dbInfo)) of
        Some err \<Rightarrow> (Some err, x)
      | None \<Rightarrow> (case marshalDB J dbInfo of None \<Rightarrow> (Some JsonErr, x) | Some data \<Rightarrow> sterr (HSet (txn m) x mDBs (dbKey (db_ID dbInfo)) data)))"

definition CreateTableOrView :: "('db, 'tbl, 'diff, 'args, 'job) Json \<Rightarrow> ('x, 'it) Meta \<Rightarrow> 'x \<Rightarrow> u64 \<Rightarrow> 'tbl TableInfo \<Rightarrow> meta_error option \<times> 'x" where
  "CreateTableOrView J m x dbID tableInfo =
     (case checkDBExists m x (dbKey dbID) of
        Some err \<Rightarrow> (Some err, x)
      | None \<Rightarrow>
          (case checkTableNotExists m x (dbKey dbID) (tableKey (tbl_ID tableInfo)) of
             Some err \<Rightarrow> (Some err, x)
           | None \<Rightarrow> (case marshalTable J tableInfo of
                 None \<Rightarrow> (Some JsonErr, x)
               | Some data \<Rightarrow> sterr (HSet (txn m) x (dbKey dbID) (tableKey (tbl_ID tableInfo)) data))))"

definition CreateTableAndSetAutoID :: "('db, 'tbl, 'diff, 'args, 'job) Json \<Rightarrow> ('x, 'it) Meta \<Rightarrow> 'x \<Rightarrow> u64 \<Rightarrow> 'tbl TableInfo \<Rightarrow> u64 \<Rightarrow> meta_error option \<times> 'x" where
  "CreateTableAndSetAutoID J m x dbID tableInfo autoID =
     (case CreateTableOrView J m x dbID tableInfo of
        (Some err, x') \<Rightarrow> (Some err, x')
      | (None, x') \<Rightarrow>
          (case HInc (txn m) x' (dbKey dbID) (autoTableIDKey (tbl_ID tableInfo)) autoID of (err, _, x'') \<Rightarrow> (map_option StructErr err, x'')))"

definition DropDatabase :: "('x, 'it) Meta \<Rightarrow> 'x \<Rightarrow> u64 \<Rightarrow> (meta_error option \<times> 'x) option" where
  "DropDatabase m x dbID =
     (case HClear (txn m) x (dbKey dbID) of
        None \<Rightarrow> None
      | Some (Some err, x') \<Rightarrow> Some (Some (StructErr err), x')
      | Some (None, x') \<Rightarrow> Some (sterr (HDel (txn m) x' mDBs [dbKey dbID])))"

definition DropTableOrView :: "('x, 'it) Meta \<Rightarrow> 'x \<Rightarrow> u64 \<Rightarrow> u64 \<Rightarrow> bool \<Rightarrow> meta_error option \<times> 'x" where
  "DropTableOrView m x dbID tblID delAutoID =
     (case checkDBExists m x (dbKey dbID) of
        Some err \<Rightarrow> (Some err, x)
      | None \<Rightarrow>
          (case checkTableExists m x (dbKey dbID) (tableKey tblID) of
             Some err \<Rightarrow> (Some err, x)
           | None \<Rightarrow>
               (case HDel (txn m) x (dbKey dbID) [tableKey tblID] of
                  (Some err, x') \<Rightarrow> (Some (StructErr err), x')
                | (None, x') \<Rightarrow> if delAutoID then sterr (HDel (txn m) x' (dbKey dbID) [autoTableIDKey tblID]) else (None, x'))))"

definition UpdateTable :: "('db, 'tbl, 'diff, 'args, 'job) Json \<Rightarrow> ('x, 'it) Meta \<Rightarrow> 'x \<Rightarrow> u64 \<Rightarrow> 'tbl TableInfo \<Rightarrow> meta_error option \<times> 'x" where
  "UpdateTable J m x dbID tableInfo =
     (case checkDBExists m x (dbKey dbID) of
        Some err \<Rightarrow> (Some err, x)
      | None \<Rightarrow>
          (case checkTableExists m x (dbKey dbID) (tableKey (tbl_ID tableInfo)) of
             Some err \<Rightarrow> (Some err, x)
           | None \<Rightarrow> (case marshalTable J tableInfo of
                 None \<Rightarrow> (Some JsonErr, x)
               | Some data \<Rightarrow> sterr (HSet (txn m) x (dbKey dbID) (tableKey (tbl_ID tableInfo)) data))))"

fun ListTables_loop :: "('db, 'tbl, 'diff, 'args, 'job) Json \<Rightarrow> HashPair list \<Rightarrow> 'tbl TableInfo list \<Rightarrow> meta_error + 'tbl TableInfo list" where
  "ListTables_loop J [] tables = Inr tables"
| "ListTables_loop J (r # res) tables =
     (if \<not> HasPrefix (Field r) mTablePrefix then ListTables_loop J res tables
      else case unmarshalTable J (PairValue r) of
        (Some err, _) \<Rightarrow> Inl err
      | (None, tbInfo) \<Rightarrow> ListTables_loop J res (tables @ [tbInfo]))"

definition ListTables :: "('db, 'tbl, 'diff, 'args, 'job) Json \<Rightarrow> ('x, 'it) Meta \<Rightarrow> 'x \<Rightarrow> u64 \<Rightarrow> (meta_error + 'tbl TableInfo list) option" where
  "ListTables J m x dbID =
     (case checkDBExists m x (dbKey dbID) of
        Some err \<Rightarrow> Some (Inl err)
      | None \<Rightarrow>
          (case HGetAll (txn m) x (dbKey dbID) of
             None \<Rightarrow> None
           | Some (Some err, _) \<Rightarrow> Some (Inl (StructErr err))
           | Some (None, res) \<Rightarrow> Some (ListTables_loop J res [])))"

fun ListDatabases_loop :: "('db, 'tbl, 'diff, 'args, 'job) Json \<Rightarrow> HashPair list \<Rightarrow> 'db DBInfo list \<Rightarrow> meta_error + 'db DBInfo list" where
  "ListDatabases_loop J [] dbs = Inr dbs"
| "ListDatabases_loop J (r # res) dbs =
     (case unmarshalDB J (PairValue r) of
        (Some err, _) \<Rightarrow> Inl err
      | (None, dbInfo) \<Rightarrow> ListDatabases_loop J res (dbs @ [dbInfo]))"

definition ListDatabases :: "('db, 'tbl, 'diff, 'args, 'job) Json \<Rightarrow> ('x, 'it) Meta \<Rightarrow> 'x \<Rightarrow> (meta_error + 'db DBInfo list) option" where
  "ListDatabases J m x =
     (case HGetAll (txn m) x mDBs of
        None \<Rightarrow> None
      | Some (Some err, _) \<Rightarrow> Some (Inl (StructErr err))
      | Some (None, res) \<Rightarrow> Some (ListDatabases_loop J res []))"

text \<open>The readers of one value return no value (nil) for a missing one.\<close>

definition GetDatabase :: "('db, 'tbl, 'diff, 'args, 'job) Json \<Rightarrow> ('x, 'it) Meta \<Rightarrow> 'x \<Rightarrow> u64 \<Rightarrow> meta_error option \<times> 'db DBInfo option" where
  "GetDatabase J m x dbID =
     (case HGet (txn m) x mDBs (dbKey dbID) of
        Inl err \<Rightarrow> (Some (StructErr err), None)
      | Inr None \<Rightarrow> (None, None)
      | Inr (Some v) \<Rightarrow> map_prod id Some (unmarshalDB J v))"

definition GetTable :: "('db, 'tbl, 'diff, 'args, 'job) Json \<Rightarrow> ('x, 'it) Meta \<Rightarrow> 'x \<Rightarrow> u64 \<Rightarrow> u64 \<Rightarrow> meta_error option \<times> 'tbl TableInfo option" where
  "GetTable J m x dbID tableID =
     (case checkDBExists m x (dbKey dbID) of
        Some err \<Rightarrow> (Some err, None)
      | None \<Rightarrow>
          (case HGet (txn m) x (dbKey dbID) (tableKey tableID) of
             Inl err \<Rightarrow> (Some (StructErr err), None)
           | Inr None \<Rightarrow> (None, None)
           | Inr (Some v) \<Rightarrow> map_prod id Some (unmarshalTable J v)))"

subsection \<open>DDL jobs\<close>

text \<open>The variadic list keys: the first one, or the list of the \<open>Meta\<close>.\<close>

definition list_key :: "('x, 'it) Meta \<Rightarrow> bytes list \<Rightarrow> bytes" where
  "list_key m jobListKeys = (if length jobListKeys \<noteq> 0 then jobListKeys ! 0 else jobListKey m)"

text \<open>The jobs are pointers: the second component is the job after its raw arguments were updated.\<close>

definition enQueueDDLJob :: "('db, 'tbl, 'diff, 'args, 'job) Json \<Rightarrow> ('x, 'it) Meta \<Rightarrow> 'x \<Rightarrow> bytes \<Rightarrow> ('args, 'job) Job \<Rightarrow> meta_error option \<times> ('args, 'job) Job \<times> 'x" where
  "enQueueDDLJob J m x key job =
     (case job_Encode J job True of
        (Inl err, job') \<Rightarrow> (Some err, job', x)
      | (Inr b, job') \<Rightarrow> (let (err, x') = sterr (RPush (txn m) x key [b]) in (err, job', x')))"

definition EnQueueDDLJob :: "('db, 'tbl, 'diff, 'args, 'job) Json \<Rightarrow> ('x, 'it) Meta \<Rightarrow> 'x \<Rightarrow> ('args, 'job) Job \<Rightarrow> bytes list \<Rightarrow> meta_error option \<times> ('args, 'job) Job \<times> 'x" where
  "EnQueueDDLJob J m x job jobListKeys = enQueueDDLJob J m x (list_key m jobListKeys) job"

definition deQueueDDLJob :: "('db, 'tbl, 'diff, 'args, 'job) Json \<Rightarrow> ('x, 'it) Meta \<Rightarrow> 'x \<Rightarrow> bytes \<Rightarrow> (meta_error option \<times> ('args, 'job) Job option) \<times> 'x" where
  "deQueueDDLJob J m x key =
     (case LPop (txn m) x key of
        ((Some err, _), x') \<Rightarrow> ((Some (StructErr err), None), x')
      | ((None, None), x') \<Rightarrow> ((None, None), x')
      | ((None, Some v), x') \<Rightarrow> (map_prod id Some (job_Decode J (zeroJob J) v), x'))"

definition DeQueueDDLJob :: "('db, 'tbl, 'diff, 'args, 'job) Json \<Rightarrow> ('x, 'it) Meta \<Rightarrow> 'x \<Rightarrow> (meta_error option \<times> ('args, 'job) Job option) \<times> 'x" where
  "DeQueueDDLJob J m x = deQueueDDLJob J m x (jobListKey m)"

definition getDDLJob :: "('db, 'tbl, 'diff, 'args, 'job) Json \<Rightarrow> ('x, 'it) Meta \<Rightarrow> 'x \<Rightarrow> bytes \<Rightarrow> u64 \<Rightarrow> meta_error option \<times> ('args, 'job) Job option" where
  "getDDLJob J m x key index =
     (case LIndex (txn m) x key index of
        Inl err \<Rightarrow> (Some (StructErr err), None)
      | Inr None \<Rightarrow> (None, None)
      | Inr (Some v) \<Rightarrow>
          (let (err, job) = job_Decode J ((zeroJob J)\<lparr>job_Priority := PriorityLow\<rparr>) v;
               job = (if job_Priority job < PriorityNormal \<or> job_Priority job > PriorityHigh then job\<lparr>job_Priority := PriorityLow\<rparr> else job)
           in (err, Some job)))"

definition GetDDLJobByIdx :: "('db, 'tbl, 'diff, 'args, 'job) Json \<Rightarrow> ('x, 'it) Meta \<Rightarrow> 'x \<Rightarrow> u64 \<Rightarrow> bytes list \<Rightarrow> meta_error option \<times> ('args, 'job) Job option" where
  "GetDDLJobByIdx J m x index jobListKeys = getDDLJob J m x (list_key m jobListKeys) index"

definition updateDDLJob :: "('db, 'tbl, 'diff, 'args, 'job) Json \<Rightarrow> ('x, 'it) Meta \<Rightarrow> 'x \<Rightarrow> u64 \<Rightarrow> ('args, 'job) Job \<Rightarrow> bytes \<Rightarrow> bool \<Rightarrow> meta_error option \<times> ('args, 'job) Job \<times> 'x" where
  "updateDDLJob J m x index job key updateRawArgs =
     (case job_Encode J job updateRawArgs of
        (Inl err, job') \<Rightarrow> (Some err, job', x)
      | (Inr b, job') \<Rightarrow> (let (err, x') = sterr (LSet (txn m) x key index b) in (err, job', x')))"

definition UpdateDDLJob :: "('db, 'tbl, 'diff, 'args, 'job) Json \<Rightarrow> ('x, 'it) Meta \<Rightarrow> 'x \<Rightarrow> u64 \<Rightarrow> ('args, 'job) Job \<Rightarrow> bool \<Rightarrow> bytes list \<Rightarrow> meta_error option \<times> ('args, 'job) Job \<times> 'x" where
  "UpdateDDLJob J m x index job updateRawArgs jobListKeys = updateDDLJob J m x index job (list_key m jobListKeys) updateRawArgs"

definition DDLJobQueueLen :: "('x, 'it) Meta \<Rightarrow> 'x \<Rightarrow> bytes list \<Rightarrow> meta_error option \<times> u64" where
  "DDLJobQueueLen m x jobListKeys = sterr (LLen (txn m) x (list_key m jobListKeys))"

fun decode_jobs :: "('db, 'tbl, 'diff, 'args, 'job) Json \<Rightarrow> bytes list \<Rightarrow> ('args, 'job) Job list \<Rightarrow> meta_error + ('args, 'job) Job list" where
  "decode_jobs J [] jobs = Inr jobs"
| "decode_jobs J (v # vs) jobs =
     (case job_Decode J (zeroJob J) v of (Some err, _) \<Rightarrow> Inl err | (None, job) \<Rightarrow> decode_jobs J vs (jobs @ [job]))"

definition GetAllDDLJobsInQueue :: "('db, 'tbl, 'diff, 'args, 'job) Json \<Rightarrow> ('x, 'it) Meta \<Rightarrow> 'x \<Rightarrow> bytes list \<Rightarrow> (meta_error + ('args, 'job) Job list) option" where
  "GetAllDDLJobsInQueue J m x jobListKeys =
     (case LGetAll (txn m) x (list_key m jobListKeys) of
        None \<Rightarrow> None
      | Some (Inl err) \<Rightarrow> Some (Inl (StructErr err))
      | Some (Inr values) \<Rightarrow> Some (decode_jobs J values []))"

definition addHistoryDDLJob :: "('db, 'tbl, 'diff, 'args, 'job) Json \<Rightarrow> ('x, 'it) Meta \<Rightarrow> 'x \<Rightarrow> bytes \<Rightarrow> ('args, 'job) Job \<Rightarrow> bool \<Rightarrow> meta_error option \<times> ('args, 'job) Job \<times> 'x" where
  "addHistoryDDLJob J m x key job updateRawArgs =
     (case job_Encode J job updateRawArgs of
        (Inl err, job') \<Rightarrow> (Some err, job', x)
      | (Inr b, job') \<Rightarrow> (let (err, x') = sterr (HSet (txn m) x key (jobIDKey (ID job')) b) in (err, job', x')))"

definition AddHistoryDDLJob :: "('db, 'tbl, 'diff, 'args, 'job) Json \<Rightarrow> ('x, 'it) Meta \<Rightarrow> 'x \<Rightarrow> ('args, 'job) Job \<Rightarrow> bool \<Rightarrow> meta_error option \<times> ('args, 'job) Job \<times> 'x" where
  "AddHistoryDDLJob J m x job updateRawArgs = addHistoryDDLJob J m x mDDLJobHistoryKey job updateRawArgs"

definition getHistoryDDLJob :: "('db, 'tbl, 'diff, 'args, 'job) Json \<Rightarrow> ('x, 'it) Meta \<Rightarrow> 'x \<Rightarrow> bytes \<Rightarrow> u64 \<Rightarrow> meta_error option \<times> ('args, 'job) Job option" where
  "getHistoryDDLJob J m x key i =
     (case HGet (txn m) x key (jobIDKey i) of
        Inl err \<Rightarrow> (Some (StructErr err), None)
      | Inr None \<Rightarrow> (None, None)
      | Inr (Some v) \<Rightarrow> map_prod id Some (job_Decode J (zeroJob J) v))"

definition GetHistoryDDLJob :: "('db, 'tbl, 'diff, 'args, 'job) Json \<Rightarrow> ('x, 'it) Meta \<Rightarrow> 'x \<Rightarrow> u64 \<Rightarrow> meta_error option \<times> ('args, 'job) Job option" where
  "GetHistoryDDLJob J m x i = getHistoryDDLJob J m x mDDLJobHistoryKey i"

text \<open>\<open>sort.Sort\<close> orders by ID; jobs with different IDs have one sorted order.\<close>

definition decodeAndSortJob :: "('db, 'tbl, 'diff, 'args, 'job) Json \<Rightarrow> HashPair list \<Rightarrow> meta_error + ('args, 'job) Job list" where
  "decodeAndSortJob J jobPairs = map_sum id (sort_key (\<lambda>job. sint (ID job))) (decode_jobs J (map PairValue jobPairs) [])"

definition GetAllHistoryDDLJobs :: "('db, 'tbl, 'diff, 'args, 'job) Json \<Rightarrow> ('x, 'it) Meta \<Rightarrow> 'x \<Rightarrow> (meta_error + ('args, 'job) Job list) option" where
  "GetAllHistoryDDLJobs J m x =
     (case HGetAll (txn m) x mDDLJobHistoryKey of
        None \<Rightarrow> None
      | Some (Some err, _) \<Rightarrow> Some (Inl (StructErr err))
      | Some (None, pairs) \<Rightarrow> Some (decodeAndSortJob J pairs))"

definition GetLastNHistoryDDLJobs :: "('db, 'tbl, 'diff, 'args, 'job) Json \<Rightarrow> ('x, 'it) Meta \<Rightarrow> 'x \<Rightarrow> int \<Rightarrow> (meta_error + ('args, 'job) Job list) option" where
  "GetLastNHistoryDDLJobs J m x num =
     (case HGetLastN (txn m) x mDDLJobHistoryKey num of
        None \<Rightarrow> None
      | Some (Some err, _) \<Rightarrow> Some (Inl (StructErr err))
      | Some (None, pairs) \<Rightarrow> Some (decodeAndSortJob J pairs))"

subsection \<open>Reorganisation state and schema differences\<close>

definition UpdateDDLReorgStartHandle :: "('x, 'it) Meta \<Rightarrow> 'x \<Rightarrow> ('args, 'job) Job \<Rightarrow> u64 \<Rightarrow> meta_error option \<times> 'x" where
  "UpdateDDLReorgStartHandle m x job startHandle = sterr (HSet (txn m) x mDDLJobReorgKey (reorgJobStartHandle (ID job)) (FormatInt startHandle))"

definition UpdateDDLReorgHandle :: "('x, 'it) Meta \<Rightarrow> 'x \<Rightarrow> ('args, 'job) Job \<Rightarrow> u64 \<Rightarrow> u64 \<Rightarrow> u64 \<Rightarrow> meta_error option \<times> 'x" where
  "UpdateDDLReorgHandle m x job startHandle endHandle physicalTableID =
     (case HSet (txn m) x mDDLJobReorgKey (reorgJobStartHandle (ID job)) (FormatInt startHandle) of
        (Some err, x) \<Rightarrow> (Some (StructErr err), x)
      | (None, x) \<Rightarrow>
          (case HSet (txn m) x mDDLJobReorgKey (reorgJobEndHandle (ID job)) (FormatInt endHandle) of
             (Some err, x) \<Rightarrow> (Some (StructErr err), x)
           | (None, x) \<Rightarrow> sterr (HSet (txn m) x mDDLJobReorgKey (reorgJobPhysicalTableID (ID job)) (FormatInt physicalTableID))))"

text \<open>The errors of the second and the third deletion are logged only.\<close>

definition RemoveDDLReorgHandle :: "('x, 'it) Meta \<Rightarrow> 'x \<Rightarrow> ('args, 'job) Job \<Rightarrow> meta_error option \<times> 'x" where
  "RemoveDDLReorgHandle m x job =
     (case HDel (txn m) x mDDLJobReorgKey [reorgJobStartHandle (ID job)] of
        (Some err, x) \<Rightarrow> (Some (StructErr err), x)
      | (None, x) \<Rightarrow>
          (let (_, x) = HDel (txn m) x mDDLJobReorgKey [reorgJobEndHandle (ID job)];
               (_, x) = HDel (txn m) x mDDLJobReorgKey [reorgJobPhysicalTableID (ID job)]
           in (None, x)))"

definition GetDDLReorgHandle :: "('x, 'it) Meta \<Rightarrow> 'x \<Rightarrow> ('args, 'job) Job \<Rightarrow> meta_error option \<times> u64 \<times> u64 \<times> u64" where
  "GetDDLReorgHandle m x job =
     (case HGetInt64 (txn m) x mDDLJobReorgKey (reorgJobStartHandle (ID job)) of
        (Some err, s) \<Rightarrow> (Some (StructErr err), s, 0, 0)
      | (None, s) \<Rightarrow>
          (case HGetInt64 (txn m) x mDDLJobReorgKey (reorgJobEndHandle (ID job)) of
             (Some err, e) \<Rightarrow> (Some (StructErr err), s, e, 0)
           | (None, e) \<Rightarrow>
               (case HGetInt64 (txn m) x mDDLJobReorgKey (reorgJobPhysicalTableID (ID job)) of
                  (Some err, pid) \<Rightarrow> (Some (StructErr err), s, e, pid)
                | (None, pid) \<Rightarrow>
                    if pid = 0 then (None, s, (case ReorgMeta job of Some end_handle \<Rightarrow> end_handle | None \<Rightarrow> 0x7FFFFFFFFFFFFFFF), TableID job)
                    else (None, s, e, pid))))"

definition GetSchemaDiff :: "('db, 'tbl, 'diff, 'args, 'job) Json \<Rightarrow> ('x, 'it) Meta \<Rightarrow> 'x \<Rightarrow> u64 \<Rightarrow> meta_error option \<times> 'diff SchemaDiff option" where
  "GetSchemaDiff J m x schemaVersion =
     (case s_Get (txn m) x (schemaDiffKey schemaVersion) of
        Inl err \<Rightarrow> (Some (StructErr err), None)
      | Inr None \<Rightarrow> (None, None)
      | Inr (Some data) \<Rightarrow> if length data = 0 then (None, None) else map_prod id Some (unmarshalDiff J data))"

definition SetSchemaDiff :: "('db, 'tbl, 'diff, 'args, 'job) Json \<Rightarrow> ('x, 'it) Meta \<Rightarrow> 'x \<Rightarrow> 'diff SchemaDiff \<Rightarrow> meta_error option \<times> 'x" where
  "SetSchemaDiff J m x diff =
     (case marshalDiff J diff of
        None \<Rightarrow> (Some JsonErr, x)
      | Some data \<Rightarrow> sterr (s_Set (txn m) x (schemaDiffKey (Version diff)) data))"

end
