(* ===== verification/Structure_Layout.thy ===== *)
theory Structure_Layout
  imports Structure
begin

text \<open>
  The layout of the data structures in a store (\<open>structure/type.go\<close>): the keys of the strings, hashes and lists
  under a prefix are slots with distinct keys, and a store is seen as what it holds in each slot.
\<close>

section \<open>Slots\<close>

text \<open>The places of the layout, and the key of each; different places have different keys.\<close>

datatype slot = StringSlot bytes | HashMetaSlot bytes | HashSlot bytes bytes | ListMetaSlot bytes | ListSlot bytes u64

fun slot_rest :: "slot \<Rightarrow> bytes \<times> u64 \<times> bytes" where
  "slot_rest (StringSlot k) = (k, StringData, [])"
| "slot_rest (HashMetaSlot k) = (k, HashMeta, [])"
| "slot_rest (HashSlot k f) = (k, HashData, EncodeBytes [] f)"
| "slot_rest (ListMetaSlot k) = (k, ListMeta, [])"
| "slot_rest (ListSlot k i) = (k, ListData, EncodeInt [] i)"

definition slot_key :: "bytes \<Rightarrow> slot \<Rightarrow> bytes" where
  "slot_key p s = (case slot_rest s of (k, tag, rest) \<Rightarrow> p @ EncodeBytes [] k @ PutUint64 tag @ rest)"

named_theorems slot_simps \<open>keys of the layout as keys of slots\<close>

lemma slot_keys [slot_simps]:
  "encodeStringDataKey t key = slot_key (t_prefix t) (StringSlot key)"
  "encodeHashMetaKey t key = slot_key (t_prefix t) (HashMetaSlot key)"
  "encodeHashDataKey t key field = slot_key (t_prefix t) (HashSlot key field)"
  "encodeListMetaKey t key = slot_key (t_prefix t) (ListMetaSlot key)"
  "encodeListDataKey t key i = slot_key (t_prefix t) (ListSlot key i)"
  by (simp_all add: slot_key_def encodeStringDataKey_def encodeHashMetaKey_def encodeHashDataKey_def encodeListMetaKey_def
      encodeListDataKey_def EncodeBytes_groups EncodeUint_def EncodeInt_def)

lemma slot_rest_inj: "slot_rest s = slot_rest s' \<Longrightarrow> s = s'"
  using cmp_bytes.enc_inj cmp_int.enc_inj
  by (cases s; cases s') (auto simp: StringData_def HashMeta_def HashData_def ListMeta_def ListData_def)

lemma slot_key_inj: "slot_key p s = slot_key p s' \<longleftrightarrow> s = s'"
proof
  assume e: "slot_key p s = slot_key p s'"
  obtain k tag r k' tag' r' where s: "slot_rest s = (k, tag, r)" "slot_rest s' = (k', tag', r')" by (metis prod_cases3)
  then have "EncodeBytes [] k @ PutUint64 tag @ r = EncodeBytes [] k' @ PutUint64 tag' @ r'" using e by (simp add: slot_key_def)
  then have "k = k'" "PutUint64 tag @ r = PutUint64 tag' @ r'" by (simp_all add: cmp_bytes.enc_append_eq_iff)
  then have "slot_rest s = slot_rest s'" using s by simp
  then show "s = s'" by (rule slot_rest_inj)
qed simp

text \<open>What a store holds in each slot.\<close>

definition slots :: "bytes \<Rightarrow> (bytes \<times> bytes) list \<Rightarrow> slot \<Rightarrow> bytes option" where
  "slots p kvs s = map_of kvs (slot_key p s)"

lemma slots_update:
  "map_of kvs' = (map_of kvs)(slot_key p s := v) \<Longrightarrow> slots p kvs' = (slots p kvs)(s := v)"
  by (rule ext) (simp add: slots_def slot_key_inj)

text \<open>A structure over a store that both reads and writes.\<close>

definition on_store :: "('x, 'it) Retriever \<Rightarrow> 'x Mutator \<Rightarrow> bytes \<Rightarrow> ('x, 'it) TxStructure" where
  "on_store R M p = NewStructure R (Some (R, M)) p"

lemma on_store_simps [simp]: "reader (on_store R M p) = R" "readWriter (on_store R M p) = Some (R, M)" "t_prefix (on_store R M p) = p"
  by (simp_all add: on_store_def NewStructure_def)

text \<open>The store holds nothing but slots under the prefix of the structure.\<close>

definition layout :: "bytes \<Rightarrow> ('x \<Rightarrow> (bytes \<times> bytes) list \<Rightarrow> bool) \<Rightarrow> 'x \<Rightarrow> (bytes \<times> bytes) list \<Rightarrow> bool" where
  "layout p rep x kvs = (rep x kvs \<and> (\<forall>k \<in> dom (map_of kvs). HasPrefix k p \<longrightarrow> (\<exists>s. k = slot_key p s)))"

lemma layout_update:
  assumes "layout p rep x kvs" "rep x' kvs'" "map_of kvs' = (map_of kvs)(slot_key p s := v)"
  shows "layout p rep x' kvs'"
  using assms by (auto simp: layout_def split: if_splits)

lemma layout_rep: "layout p rep x kvs \<Longrightarrow> rep x kvs"
  by (simp add: layout_def)

context retriever_mutator
begin

lemma read_slot: "layout p rep x kvs \<Longrightarrow> read_value (r_Get R x (slot_key p s)) = Inr (slots p kvs s)"
  by (drule layout_rep) (simp add: get_rep read_value_def slots_def split: option.split)

lemma get_slot: "layout p rep x kvs \<Longrightarrow> slots p kvs s = Some v \<Longrightarrow> r_Get R x (slot_key p s) = Inr v"
  by (drule layout_rep) (simp add: get_rep slots_def)

lemma set_slot:
  assumes "layout p rep x kvs" "fits x ((slot_key p s, v) # ws)" "v \<noteq> []"
  shows "\<exists>x' kvs'. m_Set M x (slot_key p s) v = (None, x') \<and> layout p rep x' kvs' \<and> slots p kvs' = (slots p kvs)(s \<mapsto> v) \<and> fits x' ws"
  using set_rep [OF layout_rep [OF assms(1)] assms(2,3)] slots_update layout_update [OF assms(1)] by blast

lemma delete_slot:
  assumes "layout p rep x kvs" "fits x ((slot_key p s, []) # ws)"
  shows "\<exists>x' kvs'. m_Delete M x (slot_key p s) = (None, x') \<and> layout p rep x' kvs' \<and> slots p kvs' = (slots p kvs)(s := None) \<and> fits x' ws"
  using delete_rep [OF layout_rep [OF assms(1)] assms(2)] slots_update layout_update [OF assms(1)] by blast

end

end
