(* ===== verification/Structure_List.thy ===== *)
theory Structure_List
  imports Structure_Layout
begin

text \<open>
  The list operations of \<open>structure/list.go\<close> on a store that holds a list: what each returns and which list the
  store holds afterwards.  The lemmas are proved once for every store with the laws of \<open>retriever_mutator\<close>.
\<close>

section \<open>Lists\<close>

text \<open>The list \<open>xs\<close> under a key occupies the indices from \<open>l\<close> up to \<open>r\<close>.\<close>

definition idx :: "int \<Rightarrow> u64" where
  "idx i = of_int i"

definition items :: "(slot \<Rightarrow> bytes option) \<Rightarrow> bytes \<Rightarrow> int \<Rightarrow> bytes list \<Rightarrow> bool" where
  "items g key l xs = (\<forall>i < length xs. g (ListSlot key (idx (l + int i))) = Some (xs ! i))"

definition list_meta :: "int \<Rightarrow> int \<Rightarrow> bytes" where
  "list_meta l r = PutUint64 (idx l) @ PutUint64 (idx r)"

definition index_ok :: "int \<Rightarrow> bool" where
  "index_ok i = (- (2 ^ 63) < i \<and> i < 2 ^ 63)"

definition list_rep :: "(slot \<Rightarrow> bytes option) \<Rightarrow> bytes \<Rightarrow> int \<Rightarrow> int \<Rightarrow> bytes list \<Rightarrow> bool" where
  "list_rep g key l r xs =
     (r = l + int (length xs) \<and> index_ok l \<and> index_ok r \<and> items g key l xs \<and> (\<forall>v \<in> set xs. v \<noteq> []) \<and>
      (if xs = [] then l = 0 \<and> g (ListMetaSlot key) = None else g (ListMetaSlot key) = Some (list_meta l r)))"

text \<open>Only the slots of the list under the key differ.\<close>

definition same_but_list :: "bytes \<Rightarrow> (slot \<Rightarrow> bytes option) \<Rightarrow> (slot \<Rightarrow> bytes option) \<Rightarrow> bool" where
  "same_but_list key g g' = (\<forall>s. (\<forall>i. s \<noteq> ListSlot key i) \<longrightarrow> s \<noteq> ListMetaSlot key \<longrightarrow> g' s = g s)"

lemma sint_idx: "- (2 ^ 63) \<le> i \<Longrightarrow> i < 2 ^ 63 \<Longrightarrow> sint (idx i) = i"
  by (simp add: idx_def signed_of_int signed_take_bit_int_eq_self)

lemma sint_of_index: "index_ok i \<Longrightarrow> sint (idx i) = i"
  by (simp add: sint_idx index_ok_def)

lemma index_eq: "index_ok i \<Longrightarrow> index_ok j \<Longrightarrow> idx i = idx j \<longleftrightarrow> i = j"
  by (metis sint_of_index)

lemma idx_step [simp]: "idx i + 1 = idx (i + 1)" "idx i - 1 = idx (i - 1)" "idx 0 = 0"
  by (simp_all add: idx_def)

lemma index_ok_between: "index_ok l \<Longrightarrow> index_ok r \<Longrightarrow> l \<le> i \<Longrightarrow> i \<le> r \<Longrightarrow> index_ok i"
  by (simp add: index_ok_def)

lemma list_meta_length [simp]: "length (list_meta l r) = 16" "list_meta l r \<noteq> []"
  by (simp_all add: list_meta_def flip: length_greater_0_conv)

lemma list_repD:
  assumes "list_rep g key l r xs"
  shows "items g key l xs" "r = l + int (length xs)" "index_ok l" "index_ok r" "\<forall>v \<in> set xs. v \<noteq> []"
  using assms by (auto simp: list_rep_def)

lemma items_other: "(\<forall>i. s \<noteq> ListSlot key i) \<Longrightarrow> items (g(s := v)) key l xs = items g key l xs"
  by (auto simp: items_def)

lemma items_right:
  assumes "items g key l xs" "index_ok l" "index_ok (l + int (length xs))"
  shows "items (g(ListSlot key (idx (l + int (length xs))) \<mapsto> v)) key l (xs @ [v])"
  unfolding items_def
proof (intro allI impI)
  fix i assume i: "i < length (xs @ [v])"
  have "index_ok (l + int i)" using i by (intro index_ok_between [OF assms(2,3)]) simp_all
  then show "(g(ListSlot key (idx (l + int (length xs))) \<mapsto> v)) (ListSlot key (idx (l + int i))) = Some ((xs @ [v]) ! i)"
    using assms(1) i index_eq [OF _ assms(3)] by (auto simp: items_def nth_append)
qed

lemma items_left:
  assumes "items g key l xs" "index_ok (l - 1)" "index_ok (l + int (length xs))"
  shows "items (g(ListSlot key (idx (l - 1)) \<mapsto> v)) key (l - 1) (v # xs)"
  unfolding items_def
proof (intro allI impI)
  fix i assume i: "i < length (v # xs)"
  have k: "index_ok (l - 1 + int i)" using i by (intro index_ok_between [OF assms(2,3)]) simp_all
  show "(g(ListSlot key (idx (l - 1)) \<mapsto> v)) (ListSlot key (idx (l - 1 + int i))) = Some ((v # xs) ! i)"
  proof (cases i)
    case (Suc j)
    then have "idx (l - 1 + int i) \<noteq> idx (l - 1)" using index_eq [OF k assms(2)] by simp
    moreover have "l - 1 + int i = l + int j" using Suc by simp
    ultimately show ?thesis using assms(1) i Suc by (simp add: items_def)
  qed simp
qed

lemma items_butlast: "items g key l (xs @ [v]) \<Longrightarrow> items g key l xs"
proof -
  assume a: "items g key l (xs @ [v])"
  have "g (ListSlot key (idx (l + int i))) = Some (xs ! i)" if "i < length xs" for i
    using a [unfolded items_def, rule_format, of i] that by (simp add: nth_append)
  then show ?thesis by (simp add: items_def)
qed

lemma items_tl: "items g key l (v # xs) \<Longrightarrow> items g key (l + 1) xs"
proof -
  assume a: "items g key l (v # xs)"
  have "g (ListSlot key (idx (l + 1 + int i))) = Some (xs ! i)" if "i < length xs" for i
  proof -
    have "l + int (Suc i) = l + 1 + int i" by simp
    then show ?thesis using a [unfolded items_def, rule_format, of "Suc i"] that by (simp only: nth_Cons_Suc length_Cons Suc_less_eq simp_thms)
  qed
  then show ?thesis by (simp add: items_def)
qed

lemma items_delete:
  assumes "items g key l xs" "index_ok l" "index_ok (l + int (length xs))" "index_ok j" "j < l \<or> l + int (length xs) \<le> j"
  shows "items (g(ListSlot key (idx j) := v)) key l xs"
  unfolding items_def
proof (intro allI impI)
  fix i assume i: "i < length xs"
  have "index_ok (l + int i)" using i by (intro index_ok_between [OF assms(2,3)]) simp_all
  then have "idx (l + int i) \<noteq> idx j" using index_eq [OF _ assms(4)] assms(5) i by auto
  then show "(g(ListSlot key (idx j) := v)) (ListSlot key (idx (l + int i))) = Some (xs ! i)" using assms(1) i by (simp add: items_def)
qed

text \<open>The bounds and the elements after values are pushed at one end.\<close>

definition push_l :: "bool \<Rightarrow> int \<Rightarrow> bytes list \<Rightarrow> int" where
  "push_l front l vs = (if front then l - int (length vs) else l)"

definition push_r :: "bool \<Rightarrow> int \<Rightarrow> bytes list \<Rightarrow> int" where
  "push_r front r vs = (if front then r else r + int (length vs))"

definition push_to :: "bool \<Rightarrow> bytes list \<Rightarrow> bytes list \<Rightarrow> bytes list" where
  "push_to front xs vs = (if front then rev vs @ xs else xs @ vs)"

fun push_writes :: "bytes \<Rightarrow> bytes \<Rightarrow> bool \<Rightarrow> int \<Rightarrow> int \<Rightarrow> bytes list \<Rightarrow> (bytes \<times> bytes) list" where
  "push_writes p key front l r [] = [(slot_key p (ListMetaSlot key), list_meta l r)]"
| "push_writes p key front l r (v # vs) =
     (slot_key p (ListSlot key (idx (if front then l - 1 else r))), v) #
     push_writes p key front (push_l front l [v]) (push_r front r [v]) vs"

lemmas push_defs = push_l_def push_r_def push_to_def

lemma push_more:
  "push_l front (push_l front l [v]) vs = push_l front l (v # vs)" "push_r front (push_r front r [v]) vs = push_r front r (v # vs)"
  "push_to front (push_to front xs [v]) vs = push_to front xs (v # vs)"
  by (simp_all add: push_defs)

lemma push_Nil [simp]: "push_l front l [] = l" "push_r front r [] = r" "push_to front xs [] = xs"
  by (simp_all add: push_defs)

lemma items_push:
  assumes "items g key l xs" "r = l + int (length xs)" "index_ok (push_l front l [v])" "index_ok (push_r front r [v])"
  shows "items (g(ListSlot key (idx (if front then l - 1 else r)) \<mapsto> v)) key (push_l front l [v]) (push_to front xs [v])"
proof (cases front)
  case True
  then show ?thesis using assms items_left [OF assms(1)] by (simp add: push_defs)
next
  case False
  then have "index_ok l" "index_ok r" using assms by (auto simp: push_defs index_ok_def)
  then show ?thesis using False items_right [OF assms(1)] assms(2) by (simp add: push_defs)
qed

context retriever_mutator
begin

lemma load_list:
  assumes "layout p rep x kvs" "list_rep (slots p kvs) key l r xs"
  shows "loadListMeta (on_store R M p) x (slot_key p (ListMetaSlot key)) = (None, \<lparr>lIndex = idx l, rIndex = idx r\<rparr>)"
proof -
  have "xs = [] \<Longrightarrow> l = 0 \<and> r = 0" using assms(2) by (simp add: list_rep_def)
  then show ?thesis using assms(2) unfolding loadListMeta_def on_store_simps read_slot [OF assms(1)]
    by (auto simp: list_rep_def list_meta_def split: if_splits)
qed

lemma empty_list: "list_rep g key l r xs \<Longrightarrow> listMeta_IsEmpty \<lparr>lIndex = idx l, rIndex = idx r\<rparr> \<longleftrightarrow> xs = []"
  by (auto simp: listMeta_IsEmpty_def list_rep_def sint_of_index)

lemma push_loop:
  assumes "layout p rep x kvs" "items (slots p kvs) key l xs" "r = l + int (length xs)" "index_ok (push_l front l vs)" "index_ok (push_r front r vs)"
    and "\<forall>v \<in> set vs. v \<noteq> []" "fits x (push_writes p key front l r vs)"
  shows "\<exists>x' kvs'. listPush_loop (on_store R M p) M key front vs \<lparr>lIndex = idx l, rIndex = idx r\<rparr> x =
      (None, \<lparr>lIndex = idx (push_l front l vs), rIndex = idx (push_r front r vs)\<rparr>, x') \<and> layout p rep x' kvs' \<and>
    items (slots p kvs') key (push_l front l vs) (push_to front xs vs) \<and> same_but_list key (slots p kvs) (slots p kvs') \<and>
    fits x' [(slot_key p (ListMetaSlot key), list_meta (push_l front l vs) (push_r front r vs))]"
  using assms
proof (induction vs arbitrary: x kvs xs l r)
  case Nil
  then show ?case by (auto simp: same_but_list_def)
next
  case (Cons v vs)
  let ?i = "idx (if front then l - 1 else r)" and ?l = "push_l front l [v]" and ?r = "push_r front r [v]"
  have ok: "index_ok ?l" "index_ok ?r" "?r = ?l + int (length (push_to front xs [v]))"
    using Cons.prems(3-5) by (auto simp: index_ok_def push_defs split: if_splits)
  have v: "v \<noteq> []" "fits x ((slot_key p (ListSlot key ?i), v) # push_writes p key front ?l ?r vs)" "\<forall>v \<in> set vs. v \<noteq> []"
    using Cons.prems(6,7) by simp_all
  obtain x' kvs' where s: "m_Set M x (slot_key p (ListSlot key ?i)) v = (None, x')" "layout p rep x' kvs'"
    "slots p kvs' = (slots p kvs)(ListSlot key ?i \<mapsto> v)" "fits x' (push_writes p key front ?l ?r vs)"
    using set_slot [OF Cons.prems(1) v(2,1)] by blast
  have i: "items (slots p kvs') key ?l (push_to front xs [v])" unfolding s(3) by (rule items_push [OF Cons.prems(2,3) ok(1,2)])
  have b: "index_ok (push_l front ?l vs)" "index_ok (push_r front ?r vs)" unfolding push_more by (fact Cons.prems)+
  obtain x2 kvs2 where t: "listPush_loop (on_store R M p) M key front vs \<lparr>lIndex = idx ?l, rIndex = idx ?r\<rparr> x' =
      (None, \<lparr>lIndex = idx (push_l front l (v # vs)), rIndex = idx (push_r front r (v # vs))\<rparr>, x2)" "layout p rep x2 kvs2"
    "items (slots p kvs2) key (push_l front l (v # vs)) (push_to front xs (v # vs))" "same_but_list key (slots p kvs') (slots p kvs2)"
    "fits x2 [(slot_key p (ListMetaSlot key), list_meta (push_l front l (v # vs)) (push_r front r (v # vs)))]"
    using Cons.IH [OF s(2) i ok(3) b v(3) s(4)] unfolding push_more by blast
  have "same_but_list key (slots p kvs) (slots p kvs2)" using t(4) s(3) by (auto simp: same_but_list_def)
  moreover have "listPush_loop (on_store R M p) M key front (v # vs) \<lparr>lIndex = idx l, rIndex = idx r\<rparr> x =
      listPush_loop (on_store R M p) M key front vs \<lparr>lIndex = idx ?l, rIndex = idx ?r\<rparr> x'"
    using s(1) by (cases front) (simp_all add: slot_simps push_defs)
  ultimately show ?case using t by auto
qed

theorem push_rep:
  assumes "layout p rep x kvs" "list_rep (slots p kvs) key l r xs" "index_ok (push_l front l vs)" "index_ok (push_r front r vs)" "vs \<noteq> []"
    and "\<forall>v \<in> set vs. v \<noteq> []" "fits x (push_writes p key front l r vs)"
  shows "\<exists>x' kvs'. listPush (on_store R M p) x key front vs = (None, x') \<and> layout p rep x' kvs' \<and>
    list_rep (slots p kvs') key (push_l front l vs) (push_r front r vs) (push_to front xs vs) \<and> same_but_list key (slots p kvs) (slots p kvs')"
proof -
  let ?l = "push_l front l vs" and ?r = "push_r front r vs"
  note q = list_repD(1,2,5) [OF assms(2)]
  obtain x' kvs' where s: "listPush_loop (on_store R M p) M key front vs \<lparr>lIndex = idx l, rIndex = idx r\<rparr> x =
      (None, \<lparr>lIndex = idx ?l, rIndex = idx ?r\<rparr>, x')" "layout p rep x' kvs'"
    "items (slots p kvs') key ?l (push_to front xs vs)" "same_but_list key (slots p kvs) (slots p kvs')"
    "fits x' [(slot_key p (ListMetaSlot key), list_meta ?l ?r)]"
    using push_loop [OF assms(1) q(1,2) assms(3,4,6,7)] by blast
  obtain x2 kvs2 where t: "m_Set M x' (slot_key p (ListMetaSlot key)) (list_meta ?l ?r) = (None, x2)" "layout p rep x2 kvs2"
    "slots p kvs2 = (slots p kvs')(ListMetaSlot key \<mapsto> list_meta ?l ?r)"
    using set_slot [OF s(2,5)] by auto
  have "listPush (on_store R M p) x key front vs = (None, x2)"
    using assms(5) s(1) t(1) by (simp add: listPush_def slot_simps load_list [OF assms(1,2)] listMeta_Value_def list_meta_def idx_def write_result_def)
  moreover have "list_rep (slots p kvs2) key ?l ?r (push_to front xs vs)"
    using s(3) q(2,3) assms(3-6) t(3) items_other [of "ListMetaSlot key" key] by (auto simp: list_rep_def push_defs)
  moreover have "same_but_list key (slots p kvs) (slots p kvs2)" using s(4) t(3) by (simp add: same_but_list_def)
  ultimately show ?thesis using t(2) by blast
qed

end

definition pop_writes :: "bytes \<Rightarrow> bytes \<Rightarrow> bool \<Rightarrow> int \<Rightarrow> int \<Rightarrow> (bytes \<times> bytes) list" where
  "pop_writes p key front l r =
     (let l' = (if front then l + 1 else l); r' = (if front then r else r - 1) in
      [(slot_key p (ListSlot key (idx (if front then l else r - 1))), []),
       (slot_key p (ListMetaSlot key), if l' = r' then [] else list_meta l' r')])"

definition pop_of :: "bool \<Rightarrow> bytes list \<Rightarrow> bytes" where
  "pop_of front xs = (if front then hd xs else last xs)"

definition pop_rest :: "bool \<Rightarrow> bytes list \<Rightarrow> bytes list" where
  "pop_rest front xs = (if front then tl xs else butlast xs)"

lemmas pop_defs = pop_of_def pop_rest_def

lemma pop_rest_length: "xs \<noteq> [] \<Longrightarrow> int (length (pop_rest front xs)) = int (length xs) - 1"
  by (cases xs) (simp_all add: pop_defs)

lemma pop_rest_set: "set (pop_rest front xs) \<subseteq> set xs"
  by (cases xs) (auto simp: pop_defs dest: in_set_butlastD split: if_splits)

lemma items_pop:
  assumes "items g key l xs" "r = l + int (length xs)" "index_ok l" "index_ok r" "xs \<noteq> []"
  shows "g (ListSlot key (idx (if front then l else r - 1))) = Some (pop_of front xs)"
    and "items (g(ListSlot key (idx (if front then l else r - 1)) := v)) key (if front then l + 1 else l) (pop_rest front xs)"
proof -
  obtain y ys where y: "xs = y # ys" using assms(5) by (cases xs) auto
  obtain z zs where z: "xs = zs @ [z]" using assms(5) by (cases xs rule: rev_cases) auto
  show "g (ListSlot key (idx (if front then l else r - 1))) = Some (pop_of front xs)"
  proof (cases front)
    case False
    then show ?thesis using assms(1) [unfolded items_def z, rule_format, of "length zs"] assms(2) z by (simp add: pop_defs)
  qed (use assms(1) y in \<open>auto simp: items_def pop_defs\<close>)
  have k: "index_ok (l + 1)" "index_ok (r - 1)" using assms(2-5) y by (auto simp: index_ok_def)
  show "items (g(ListSlot key (idx (if front then l else r - 1)) := v)) key (if front then l + 1 else l) (pop_rest front xs)"
  proof (cases front)
    case True
    have "items g key (l + 1) ys" using items_tl assms(1) y by simp
    then show ?thesis using True y items_delete [of g key "l + 1" ys l v] k(1) assms(2-4) by (simp add: pop_defs algebra_simps)
  next
    case False
    have "items g key l zs" using items_butlast assms(1) z by simp
    then show ?thesis using False z items_delete [of g key l zs "r - 1" v] k(2) assms(2-4) by (simp add: pop_defs)
  qed
qed

lemma list_meta_Value: "listMeta_Value \<lparr>lIndex = idx l, rIndex = idx r\<rparr> = list_meta l r"
  by (simp add: listMeta_Value_def list_meta_def idx_def)

lemma list_meta_rep:
  assumes "items g key l xs" "r = l + int (length xs)" "index_ok l" "index_ok r" "\<forall>v \<in> set xs. v \<noteq> []"
  shows "list_rep (g(ListMetaSlot key := if l = r then None else Some (list_meta l r))) key (if xs = [] then 0 else l) (if xs = [] then 0 else r) xs"
  using assms items_other [of "ListMetaSlot key" key] by (auto simp: list_rep_def items_def index_ok_def)

lemma list_rep_update:
  assumes "list_rep g key l r xs" "i < length xs" "v \<noteq> []"
  shows "list_rep (g(ListSlot key (idx (l + int i)) \<mapsto> v)) key l r (xs[i := v])"
proof -
  note a = list_repD [OF assms(1)]
  have "(g(ListSlot key (idx (l + int i)) \<mapsto> v)) (ListSlot key (idx (l + int j))) = Some (xs[i := v] ! j)" if "j < length xs" for j
  proof -
    have "index_ok (l + int j)" "index_ok (l + int i)" using a(2-4) assms(2) that by (auto simp: index_ok_def)
    then show ?thesis using a(1) index_eq that assms(2) by (auto simp: items_def nth_list_update)
  qed
  then show ?thesis using assms a set_update_subset_insert [of xs i v] by (fastforce simp: list_rep_def items_def)
qed

context retriever_mutator
begin

lemma put_meta:
  assumes "layout p rep x kvs" "fits x ((slot_key p s, v) # ws)"
  shows "\<exists>x' kvs'. (if v \<noteq> [] then m_Set M x (slot_key p s) v else m_Delete M x (slot_key p s)) = (None, x') \<and> layout p rep x' kvs' \<and>
    slots p kvs' = (slots p kvs)(s := if v = [] then None else Some v) \<and> fits x' ws"
  using set_slot [OF assms] delete_slot [of p x kvs s ws] assms by (cases "v = []") auto

theorem pop_rep:
  assumes "layout p rep x kvs" "list_rep (slots p kvs) key l r xs" "xs \<noteq> []" "fits x (pop_writes p key front l r)"
  shows "\<exists>x' kvs' l' r'. listPop (on_store R M p) x key front = ((None, Some (pop_of front xs)), x') \<and> layout p rep x' kvs' \<and>
    list_rep (slots p kvs') key l' r' (pop_rest front xs) \<and> same_but_list key (slots p kvs) (slots p kvs')"
proof -
  let ?l = "if front then l + 1 else l" and ?r = "if front then r else r - 1" and ?i = "idx (if front then l else r - 1)"
  let ?m = "if ?l = ?r then [] else list_meta ?l ?r"
  note q = list_repD [OF assms(2)]
  have len: "int (length (pop_rest front xs)) = int (length xs) - 1" "0 < length xs"
    using pop_rest_length [OF assms(3)] assms(3) by simp_all
  have n: "?r = ?l + int (length (pop_rest front xs))" unfolding len(1) q(2) by simp
  have ok: "index_ok ?l" "index_ok ?r" by (rule index_ok_between [OF q(3,4)]; use len(1) q(2) assms(3) in \<open>simp split: if_split\<close>)+
  have ne: "\<forall>v \<in> set (pop_rest front xs). v \<noteq> []" using q(5) pop_rest_set by blast
  have f: "fits x ((slot_key p (ListSlot key ?i), []) # [(slot_key p (ListMetaSlot key), ?m)])" using assms(4) by (simp add: pop_writes_def Let_def)
  obtain x' kvs' where s: "m_Delete M x (slot_key p (ListSlot key ?i)) = (None, x')" "layout p rep x' kvs'"
    "slots p kvs' = (slots p kvs)(ListSlot key ?i := None)" "fits x' [(slot_key p (ListMetaSlot key), ?m)]"
    using delete_slot [OF assms(1) f] by blast
  obtain x2 kvs2 where t: "(if ?m \<noteq> [] then m_Set M x' (slot_key p (ListMetaSlot key)) ?m else m_Delete M x' (slot_key p (ListMetaSlot key))) = (None, x2)"
    "layout p rep x2 kvs2" "slots p kvs2 = (slots p kvs')(ListMetaSlot key := if ?m = [] then None else Some ?m)"
    using put_meta [OF s(2,4)] by blast
  have i: "items (slots p kvs') key ?l (pop_rest front xs)" unfolding s(3) by (rule items_pop(2) [OF q(1-4) assms(3)])
  have e: "(if ?m = [] then None else Some ?m) = (if ?l = ?r then None else Some (list_meta ?l ?r))" by simp
  have lr: "list_rep (slots p kvs2) key (if pop_rest front xs = [] then 0 else ?l) (if pop_rest front xs = [] then 0 else ?r) (pop_rest front xs)"
    unfolding t(3) e by (rule list_meta_rep [OF i n ok ne])
  have g: "r_Get R x (slot_key p (ListSlot key ?i)) = Inr (pop_of front xs)"
    by (rule get_slot [OF assms(1) items_pop(1) [OF q(1-4) assms(3)]])
  have m: "listMeta_IsEmpty \<lparr>lIndex = idx ?l, rIndex = idx ?r\<rparr> \<longleftrightarrow> ?l = ?r"
    using ok n by (simp only: listMeta_IsEmpty_def sint_of_index listMeta.simps) auto
  have "listPop (on_store R M p) x key front = ((None, Some (pop_of front xs)), x2)"
    using g s(1) t(1) m empty_list [OF assms(2)] assms(3)
    by (cases front) (auto simp: listPop_def slot_simps load_list [OF assms(1,2)] list_meta_Value Let_def split: if_splits)
  moreover have "same_but_list key (slots p kvs) (slots p kvs2)" using s(3) t(3) by (simp add: same_but_list_def)
  ultimately show ?thesis using t(2) lr by blast
qed

lemma pop_empty:
  assumes "layout p rep x kvs" "list_rep (slots p kvs) key l r []"
  shows "listPop (on_store R M p) x key front = ((None, None), x)"
  using empty_list [OF assms(2)] by (simp add: listPop_def slot_simps load_list [OF assms])

lemma len_rep:
  assumes "layout p rep x kvs" "list_rep (slots p kvs) key l r xs"
  shows "LLen (on_store R M p) x key = (None, of_nat (length xs))"
  using assms(2) by (simp add: LLen_def slot_simps load_list [OF assms] list_rep_def idx_def)

lemma get_all_loop:
  assumes "layout p rep x kvs" "items (slots p kvs) key l xs" "index_ok l" "index_ok (l + int (length xs))"
  shows "LGetAll_loop (on_store R M p) x key (idx l) (idx (l + int (length xs) - 1)) acc = Some (Inr (acc @ rev xs))"
  using assms(2-4)
proof (induction xs arbitrary: acc rule: rev_induct)
  case Nil
  then have "\<not> sint (idx l) \<le> sint (idx (l - 1))" by (simp add: index_ok_def sint_idx)
  then show ?case by (subst LGetAll_loop.simps) simp
next
  case (snoc v xs)
  have i: "items (slots p kvs) key l xs" "index_ok (l + int (length xs))" using items_butlast [OF snoc.prems(1)] snoc.prems(2,3) by (auto simp: index_ok_def)
  have "sint (idx l) \<le> sint (idx (l + int (length xs)))" using sint_of_index snoc.prems(2) i(2) by simp
  moreover have "r_Get R x (slot_key p (ListSlot key (idx (l + int (length xs))))) = Inr v"
    using snoc.prems(1) [unfolded items_def, rule_format, of "length xs"] by (intro get_slot [OF assms(1)]) simp
  ultimately show ?case using snoc.IH [OF i(1) snoc.prems(2) i(2), of "acc @ [v]"]
    by (subst LGetAll_loop.simps) (simp add: slot_simps)
qed

theorem get_all_rep:
  assumes "layout p rep x kvs" "list_rep (slots p kvs) key l r xs" "24 * length xs \<le> 2 ^ 48"
  shows "LGetAll (on_store R M p) x key = Some (Inr (rev xs))"
proof -
  have "idx r - idx l = idx (int (length xs))" using list_repD(2) [OF assms(2)] by (simp add: idx_def)
  then have "make_ok 24 (sint (idx r - idx l))" using assms(3) by (simp add: make_ok_def sint_idx)
  then show ?thesis
    using get_all_loop [OF assms(1) list_repD(1,3) [OF assms(2)], of "[]"] list_repD(2,4) [OF assms(2)] empty_list [OF assms(2)]
    by (simp add: LGetAll_def slot_simps load_list [OF assms(1,2)])
qed

text \<open>An index counts from the front, a negative one from the back.\<close>

lemma adjust_index:
  assumes "index_ok j" shows "adjustIndex (idx j) (idx l) (idx r) = idx (if 0 \<le> j then l + j else r + j)"
  using sint_of_index [OF assms] by (simp add: adjustIndex_def idx_def add.commute)

lemma index_rep:
  assumes "layout p rep x kvs" "list_rep (slots p kvs) key l r xs" "index_ok j" "index_ok (if 0 \<le> j then l + j else r + j)"
    and i: "i = (if 0 \<le> j then j else int (length xs) + j)"
  shows "LIndex (on_store R M p) x key (idx j) = Inr (if 0 \<le> i \<and> i < int (length xs) then Some (xs ! nat i) else None)"
proof -
  note q = list_repD [OF assms(2)]
  have a: "(if 0 \<le> j then l + j else r + j) = l + i" using q(2) i by simp
  have adj: "adjustIndex (idx j) (idx l) (idx r) = idx (l + i)" unfolding adjust_index [OF assms(3)] a ..
  have "sint (idx (l + i)) = l + i" "sint (idx l) = l" "sint (idx r) = r" using assms(4) q unfolding a by (simp_all only: sint_of_index)
  moreover have "r_Get R x (slot_key p (ListSlot key (idx (l + i)))) = Inr (xs ! nat i)" if "0 \<le> i" "i < int (length xs)"
    using q(1) [unfolded items_def, rule_format, of "nat i"] that by (intro get_slot [OF assms(1)]) simp
  ultimately show ?thesis using empty_list [OF assms(2)] q(2) adj
    by (auto simp: LIndex_def slot_simps load_list [OF assms(1,2)] Let_def)
qed

lemma set_index_rep:
  assumes "layout p rep x kvs" "list_rep (slots p kvs) key l r xs" "index_ok j" "index_ok (if 0 \<le> j then l + j else r + j)"
    and i: "i = (if 0 \<le> j then j else int (length xs) + j)" and "v \<noteq> []" "fits x [(slot_key p (ListSlot key (idx (l + i))), v)]"
  shows "xs = [] \<Longrightarrow> LSet (on_store R M p) x key (idx j) v = (None, x)"
    and "xs \<noteq> [] \<Longrightarrow> i < 0 \<or> int (length xs) \<le> i \<Longrightarrow> LSet (on_store R M p) x key (idx j) v = (Some ErrInvalidListIndex, x)"
    and "0 \<le> i \<Longrightarrow> i < int (length xs) \<Longrightarrow> \<exists>x' kvs'. LSet (on_store R M p) x key (idx j) v = (None, x') \<and> layout p rep x' kvs' \<and>
      list_rep (slots p kvs') key l r (xs[nat i := v]) \<and> same_but_list key (slots p kvs) (slots p kvs')"
proof -
  note q = list_repD [OF assms(2)]
  have a: "(if 0 \<le> j then l + j else r + j) = l + i" using q(2) i by simp
  have adj: "adjustIndex (idx j) (idx l) (idx r) = idx (l + i)" unfolding adjust_index [OF assms(3)] a ..
  have s: "sint (idx (l + i)) = l + i" "sint (idx l) = l" "sint (idx r) = r" using assms(4) q unfolding a by (simp_all only: sint_of_index)
  have u: "LSet (on_store R M p) x key (idx j) v =
      (if xs = [] then (None, x)
       else if 0 \<le> i \<and> i < int (length xs) then write_result (m_Set M x (slot_key p (ListSlot key (idx (l + i)))) v)
       else (Some ErrInvalidListIndex, x))"
    using empty_list [OF assms(2)] q(2) s adj by (simp add: LSet_def slot_simps load_list [OF assms(1,2)] Let_def)
  show "xs = [] \<Longrightarrow> LSet (on_store R M p) x key (idx j) v = (None, x)"
    and "xs \<noteq> [] \<Longrightarrow> i < 0 \<or> int (length xs) \<le> i \<Longrightarrow> LSet (on_store R M p) x key (idx j) v = (Some ErrInvalidListIndex, x)"
    using u by auto
  assume b: "0 \<le> i" "i < int (length xs)"
  obtain x' kvs' where t: "m_Set M x (slot_key p (ListSlot key (idx (l + i)))) v = (None, x')" "layout p rep x' kvs'"
    "slots p kvs' = (slots p kvs)(ListSlot key (idx (l + i)) \<mapsto> v)"
    using set_slot [OF assms(1,7,6)] by blast
  have "list_rep (slots p kvs') key l r (xs[nat i := v])" using list_rep_update [OF assms(2) _ assms(6), of "nat i"] b t(3) by simp
  moreover have "xs \<noteq> []" "same_but_list key (slots p kvs) (slots p kvs')" using b t(3) by (auto simp: same_but_list_def)
  ultimately show "\<exists>x' kvs'. LSet (on_store R M p) x key (idx j) v = (None, x') \<and> layout p rep x' kvs' \<and>
      list_rep (slots p kvs') key l r (xs[nat i := v]) \<and> same_but_list key (slots p kvs) (slots p kvs')"
    using u t(1,2) b by (auto simp: write_result_def)
qed

lemma clear_loop:
  assumes "layout p rep x kvs" "r = l + int (length xs)" "index_ok l" "index_ok r"
    and "fits x (map (\<lambda>i. (slot_key p (ListSlot key (idx (l + int i))), [])) [0 ..< length xs] @ ws)"
  shows "\<exists>x' kvs'. LClear_loop (on_store R M p) M key (idx r) (idx l) x = Some (None, x') \<and> layout p rep x' kvs' \<and> fits x' ws \<and>
    same_but_list key (slots p kvs) (slots p kvs') \<and> slots p kvs' (ListMetaSlot key) = slots p kvs (ListMetaSlot key)"
  using assms
proof (induction xs arbitrary: x kvs l)
  case Nil
  then show ?case by (subst LClear_loop.simps) (auto simp: same_but_list_def)
next
  case (Cons v xs)
  have e: "map (\<lambda>i. (slot_key p (ListSlot key (idx (l + int i))), [])) [0 ..< length (v # xs)] =
      (slot_key p (ListSlot key (idx l)), []) # map (\<lambda>i. (slot_key p (ListSlot key (idx (l + 1 + int i))), [])) [0 ..< length xs]"
    by (simp add: upt_conv_Cons map_Suc_upt [symmetric] algebra_simps del: upt_Suc)
  obtain x' kvs' where s: "m_Delete M x (slot_key p (ListSlot key (idx l))) = (None, x')" "layout p rep x' kvs'"
    "slots p kvs' = (slots p kvs)(ListSlot key (idx l) := None)"
    "fits x' (map (\<lambda>i. (slot_key p (ListSlot key (idx (l + 1 + int i))), [])) [0 ..< length xs] @ ws)"
    using delete_slot [OF Cons.prems(1)] Cons.prems(5) unfolding e append_Cons by blast
  have b: "r = l + 1 + int (length xs)" "index_ok (l + 1)" "sint (idx l) < sint (idx r)"
    using Cons.prems(2-4) by (auto simp: index_ok_def sint_idx)
  obtain x2 kvs2 where t: "LClear_loop (on_store R M p) M key (idx r) (idx (l + 1)) x' = Some (None, x2)" "layout p rep x2 kvs2" "fits x2 ws"
    "same_but_list key (slots p kvs') (slots p kvs2)" "slots p kvs2 (ListMetaSlot key) = slots p kvs' (ListMetaSlot key)"
    using Cons.IH [OF s(2) b(1,2) Cons.prems(4) s(4)] by blast
  have "LClear_loop (on_store R M p) M key (idx r) (idx l) x = Some (None, x2)"
    using b(3) s(1) t(1) by (subst LClear_loop.simps) (simp add: slot_simps)
  moreover have "same_but_list key (slots p kvs) (slots p kvs2)" "slots p kvs2 (ListMetaSlot key) = slots p kvs (ListMetaSlot key)"
    using t(4,5) s(3) by (simp_all add: same_but_list_def)
  ultimately show ?case using t(2,3) by blast
qed

lemma list_clear_rep:
  assumes "layout p rep x kvs" "list_rep (slots p kvs) key l r xs"
    and "fits x (map (\<lambda>i. (slot_key p (ListSlot key (idx (l + int i))), [])) [0 ..< length xs] @ [(slot_key p (ListMetaSlot key), [])])"
  shows "\<exists>x' kvs'. LClear (on_store R M p) x key = Some (None, x') \<and> layout p rep x' kvs' \<and>
    list_rep (slots p kvs') key 0 0 [] \<and> same_but_list key (slots p kvs) (slots p kvs')"
proof (cases "xs = []")
  case True
  then have "LClear (on_store R M p) x key = Some (None, x)" using empty_list [OF assms(2)] by (simp add: LClear_def slot_simps load_list [OF assms(1,2)])
  moreover have "list_rep (slots p kvs) key 0 0 []" using assms(2) True by (auto simp: list_rep_def)
  ultimately show ?thesis using assms(1) by (auto simp: same_but_list_def)
next
  case False
  note q = list_repD [OF assms(2)]
  obtain x' kvs' where s: "LClear_loop (on_store R M p) M key (idx r) (idx l) x = Some (None, x')" "layout p rep x' kvs'"
    "fits x' [(slot_key p (ListMetaSlot key), [])]" "same_but_list key (slots p kvs) (slots p kvs')"
    using clear_loop [OF assms(1) q(2-4) assms(3)] by blast
  obtain x2 kvs2 where t: "m_Delete M x' (slot_key p (ListMetaSlot key)) = (None, x2)" "layout p rep x2 kvs2"
    "slots p kvs2 = (slots p kvs')(ListMetaSlot key := None)"
    using delete_slot [OF s(2,3)] by blast
  have "LClear (on_store R M p) x key = Some (None, x2)"
    using False empty_list [OF assms(2)] s(1) t(1) by (simp add: LClear_def slot_simps load_list [OF assms(1,2)] write_result_def)
  moreover have "list_rep (slots p kvs2) key 0 0 []" "same_but_list key (slots p kvs) (slots p kvs2)"
    using s(4) t(3) by (simp_all add: list_rep_def same_but_list_def items_def index_ok_def)
  ultimately show ?thesis using t(2) by blast
qed

end

end
