(* ===== verification/Structure_Hash.thy ===== *)
theory Structure_Hash
  imports Structure_List
begin

text \<open>
  The hash operations of \<open>structure/hash.go\<close> on a store that holds a finite map under a key: the field count of
  the meta value is the number of fields after every operation, and iteration gives the fields in order.
\<close>

section \<open>Hashes\<close>

text \<open>The hash under a key holds the fields of \<open>m\<close>, and its meta value their number.\<close>

definition hash_count :: "(bytes \<rightharpoonup> bytes) \<Rightarrow> bytes option" where
  "hash_count m = (if card (dom m) = 0 then None else Some (PutUint64 (of_nat (card (dom m)))))"

definition hash_rep :: "(slot \<Rightarrow> bytes option) \<Rightarrow> bytes \<Rightarrow> (bytes \<rightharpoonup> bytes) \<Rightarrow> bool" where
  "hash_rep g key m =
     (finite (dom m) \<and> card (dom m) < 2 ^ 63 \<and> (\<forall>f. g (HashSlot key f) = m f) \<and> (\<forall>v \<in> ran m. v \<noteq> []) \<and>
      g (HashMetaSlot key) = hash_count m)"

definition same_but_hash :: "bytes \<Rightarrow> (slot \<Rightarrow> bytes option) \<Rightarrow> (slot \<Rightarrow> bytes option) \<Rightarrow> bool" where
  "same_but_hash key g g' = (\<forall>s. (\<forall>f. s \<noteq> HashSlot key f) \<longrightarrow> s \<noteq> HashMetaSlot key \<longrightarrow> g' s = g s)"

definition hash_writes :: "bytes \<Rightarrow> bytes \<Rightarrow> (bytes \<rightharpoonup> bytes) \<Rightarrow> bytes \<Rightarrow> bytes \<Rightarrow> (bytes \<times> bytes) list" where
  "hash_writes p key m f v =
     (if m f = Some v then []
      else (slot_key p (HashSlot key f), v) #
        (if m f = None then [(slot_key p (HashMetaSlot key), PutUint64 (of_nat (card (dom m) + 1)))] else []))"

lemma hash_repD:
  assumes "hash_rep g key m"
  shows "finite (dom m)" "card (dom m) < 2 ^ 63" "\<And>f. g (HashSlot key f) = m f" "\<forall>v \<in> ran m. v \<noteq> []" "g (HashMetaSlot key) = hash_count m"
  using assms by (auto simp: hash_rep_def)

lemma PutUint64_not_Nil [simp]: "PutUint64 n \<noteq> []"
  by (simp flip: length_greater_0_conv)

lemma sint_count: "n < 2 ^ 63 \<Longrightarrow> sint (of_nat n :: u64) = int n"
  by (metis of_int_of_nat_eq idx_def sint_idx of_nat_0_le_iff of_nat_less_numeral_power_cancel_iff order_trans neg_le_0_iff_le zero_le_power zero_le_numeral)

lemma hash_rep_put:
  assumes "hash_rep g key m" "v \<noteq> []" "m f = None \<Longrightarrow> card (dom m) + 1 < 2 ^ 63"
    and "g' = (if m f = None then (g(HashSlot key f \<mapsto> v))(HashMetaSlot key \<mapsto> PutUint64 (of_nat (card (dom m) + 1))) else g(HashSlot key f \<mapsto> v))"
  shows "hash_rep g' key (m(f \<mapsto> v))" "same_but_hash key g g'"
proof -
  note q = hash_repD [OF assms(1)]
  have c: "card (dom (m(f \<mapsto> v))) = (if m f = None then card (dom m) + 1 else card (dom m))"
    using q(1) by (simp add: card_insert_if domIff)
  have "m f \<noteq> None \<Longrightarrow> hash_count (m(f \<mapsto> v)) = hash_count m" using c by (simp only: hash_count_def if_False)
  moreover have "m f = None \<Longrightarrow> hash_count (m(f \<mapsto> v)) = Some (PutUint64 (of_nat (card (dom m) + 1)))"
    using c by (simp only: hash_count_def) simp
  moreover have "\<forall>w \<in> ran (m(f \<mapsto> v)). w \<noteq> []" using q(4) assms(2) by (auto simp: ran_def split: if_splits)
  ultimately show "hash_rep g' key (m(f \<mapsto> v))" using q assms(3,4) c by (auto simp: hash_rep_def)
  show "same_but_hash key g g'" using assms(4) by (auto simp: same_but_hash_def)
qed

lemma hash_rep_remove:
  assumes "hash_rep g key m" "g' = (g(HashSlot key f := None))(HashMetaSlot key := hash_count (m(f := None)))"
  shows "hash_rep g' key (m(f := None))"
proof -
  note q = hash_repD [OF assms(1)]
  have "card (dom m - {f}) \<le> card (dom m)" using q(1) by (intro card_mono) auto
  then show ?thesis using q assms(2) by (auto simp: hash_rep_def ran_def split: if_splits)
qed

context retriever_mutator
begin

lemma load_hash_value: "layout p rep x kvs \<Longrightarrow> loadHashValue (on_store R M p) x (slot_key p s) = Inr (slots p kvs s)"
  by (simp add: loadHashValue_def read_slot)

lemma load_hash:
  assumes "layout p rep x kvs" "slots p kvs (HashMetaSlot key) = hash_count m"
  shows "loadHashMeta (on_store R M p) x (slot_key p (HashMetaSlot key)) = (None, \<lparr>FieldCount = of_nat (card (dom m))\<rparr>)"
  unfolding loadHashMeta_def on_store_simps read_slot [OF assms(1)] assms(2) by (simp add: hash_count_def)

lemma update_hash_rep:
  assumes "layout p rep x kvs" "hash_rep (slots p kvs) key m" "fn b (m f) = (Inr v, b')" "v \<noteq> []"
    and "m f = None \<Longrightarrow> card (dom m) + 1 < 2 ^ 63" "fits x (hash_writes p key m f v)"
  shows "\<exists>x' kvs'. updateHash (on_store R M p) x key f fn b = (None, b', x') \<and> layout p rep x' kvs' \<and>
    hash_rep (slots p kvs') key (m(f \<mapsto> v)) \<and> same_but_hash key (slots p kvs) (slots p kvs')"
proof (cases "m f = Some v")
  case True
  then have "m(f \<mapsto> v) = m" by auto
  moreover have "updateHash (on_store R M p) x key f fn b = (None, b', x)"
    using True assms(3) hash_repD(3) [OF assms(2)] by (simp add: updateHash_def slot_simps load_hash_value [OF assms(1)])
  ultimately show ?thesis using assms(1,2) by (auto simp: same_but_hash_def)
next
  case False
  note q = hash_repD [OF assms(2)]
  have old: "(case m f of None \<Rightarrow> [] | Some w \<Rightarrow> w) \<noteq> v" using False assms(4) by (auto split: option.splits)
  let ?ws = "if m f = None then [(slot_key p (HashMetaSlot key), PutUint64 (of_nat (card (dom m) + 1)))] else []"
  have "fits x ((slot_key p (HashSlot key f), v) # ?ws)" using assms(6) False by (simp add: hash_writes_def)
  then obtain x' kvs' where s: "m_Set M x (slot_key p (HashSlot key f)) v = (None, x')" "layout p rep x' kvs'"
    "slots p kvs' = (slots p kvs)(HashSlot key f \<mapsto> v)" "fits x' ?ws"
    using set_slot [OF assms(1) _ assms(4)] by blast
  have l: "loadHashMeta (on_store R M p) x' (slot_key p (HashMetaSlot key)) = (None, \<lparr>FieldCount = of_nat (card (dom m))\<rparr>)"
    using q(5) s(3) by (intro load_hash [OF s(2)]) simp
  have u: "updateHash (on_store R M p) x key f fn b =
      (if m f = None then (let (err, x2) = write_result (m_Set M x' (slot_key p (HashMetaSlot key)) (PutUint64 (of_nat (card (dom m) + 1)))) in (err, b', x2))
       else (None, b', x'))"
    using old assms(3) q(3) s(1) l
    by (simp add: updateHash_def slot_simps load_hash_value [OF assms(1)] hashMeta_Value_def add.commute split: option.splits)
  show ?thesis
  proof (cases "m f")
    case None
    then have f: "fits x' [(slot_key p (HashMetaSlot key), PutUint64 (of_nat (card (dom m) + 1)))]" using s(4) by simp
    obtain x2 kvs2 where t: "m_Set M x' (slot_key p (HashMetaSlot key)) (PutUint64 (of_nat (card (dom m) + 1))) = (None, x2)"
      "layout p rep x2 kvs2" "slots p kvs2 = (slots p kvs')(HashMetaSlot key \<mapsto> PutUint64 (of_nat (card (dom m) + 1)))"
      using set_slot [OF s(2) f PutUint64_not_Nil] by blast
    have "updateHash (on_store R M p) x key f fn b = (None, b', x2)" using u None t(1) by (simp add: write_result_def)
    moreover have "hash_rep (slots p kvs2) key (m(f \<mapsto> v))" "same_but_hash key (slots p kvs) (slots p kvs2)"
      by (rule hash_rep_put [OF assms(2,4,5), of f]; use None t(3) s(3) in simp)+
    ultimately show ?thesis using t(2) by blast
  next
    case (Some w)
    then have "updateHash (on_store R M p) x key f fn b = (None, b', x')" using u by simp
    moreover have "hash_rep (slots p kvs') key (m(f \<mapsto> v))" "same_but_hash key (slots p kvs) (slots p kvs')"
      by (rule hash_rep_put [OF assms(2,4,5), of f]; use Some s(3) in simp)+
    ultimately show ?thesis using s(2) by blast
  qed
qed

end

fun del_writes :: "bytes \<Rightarrow> bytes \<Rightarrow> (bytes \<rightharpoonup> bytes) \<Rightarrow> bytes list \<Rightarrow> (bytes \<times> bytes) list" where
  "del_writes p key m [] = []"
| "del_writes p key m (f # fs) =
     (if m f = None then del_writes p key m fs else (slot_key p (HashSlot key f), []) # del_writes p key (m(f := None)) fs)"

definition meta_write :: "bytes \<Rightarrow> bytes \<Rightarrow> (bytes \<rightharpoonup> bytes) \<Rightarrow> bytes \<times> bytes" where
  "meta_write p key m = (slot_key p (HashMetaSlot key), case hash_count m of None \<Rightarrow> [] | Some v \<Rightarrow> v)"

lemma hash_empty: "card (dom m) < 2 ^ 63 \<Longrightarrow> hashMeta_IsEmpty \<lparr>FieldCount = of_nat (card (dom m))\<rparr> \<longleftrightarrow> card (dom m) = 0"
  by (simp add: hashMeta_IsEmpty_def sint_count)

lemma restrict_out: "m f = None \<Longrightarrow> m |` (- set (f # fs)) = m |` (- set fs)"
  by (rule ext) (simp add: restrict_map_def)

lemma restrict_in: "m(f := None) |` (- set fs) = m |` (- set (f # fs))"
  by (rule ext) (simp add: restrict_map_def)

lemma count_less:
  assumes "finite (dom m)" "m f \<noteq> None"
  shows "of_nat (card (dom m)) - 1 = (of_nat (card (dom (m(f := None)))) :: u64)"
proof -
  have "card (dom m) = Suc (card (dom (m(f := None))))" using assms card_Suc_Diff1 [of "dom m" f] by (auto simp: domIff)
  then show ?thesis by simp
qed

text \<open>The keys of the data of a hash are those with the prefix of the hash.\<close>

definition hash_prefix :: "bytes \<Rightarrow> bytes \<Rightarrow> bytes" where
  "hash_prefix p key = p @ EncodeBytes [] key @ PutUint64 HashData"

lemma hash_prefix_simps [slot_simps]: "hashDataKeyPrefix t key = hash_prefix (t_prefix t) key"
  by (simp add: hash_prefix_def hashDataKeyPrefix_def EncodeBytes_groups EncodeUint_def)

lemma slot_hash_prefix: "slot_key p (HashSlot key f) = hash_prefix p key @ EncodeBytes [] f"
  by (simp add: slot_key_def hash_prefix_def)

lemma slot_with_prefix:
  assumes "HasPrefix (slot_key p s) (hash_prefix p key)" shows "\<exists>f. s = HashSlot key f"
proof -
  obtain k tag r where s: "slot_rest s = (k, tag, r)" by (metis prod_cases3)
  obtain z where "slot_key p s = hash_prefix p key @ z" using assms by (auto simp: prefix_def)
  then have "EncodeBytes [] k @ PutUint64 tag @ r = EncodeBytes [] key @ PutUint64 HashData @ z" using s by (simp add: slot_key_def hash_prefix_def)
  then have k: "k = key" "PutUint64 tag @ r = PutUint64 HashData @ z" by (simp_all add: cmp_bytes.enc_append_eq_iff)
  then have "tag = HashData" using arg_cong [OF k(2), of "take 8"] PutUint64_eq_iff by simp
  then show ?thesis using s k(1) by (cases s) (auto simp: StringData_def HashMeta_def HashData_def ListMeta_def ListData_def)
qed

lemma HashData_last: "PutUint64 HashData = [0, 0, 0, 0, 0, 0, 0] @ [0x68]"
  by code_simp

lemma prefix_range_last:
  "(c :: byte) \<noteq> 255 \<Longrightarrow> q @ [c] \<le> x \<and> x < q @ [c + 1] \<longleftrightarrow> HasPrefix x (q @ [c])"
proof (induction q arbitrary: x)
  case Nil
  have e: "a < c + 1 \<longleftrightarrow> a \<le> c" for a using less_byte_succ [OF Nil] by simp
  show ?case
  proof (cases x)
    case (Cons a z)
    have "[c] \<le> x \<longleftrightarrow> c < a \<or> c = a" "x < [c + 1] \<longleftrightarrow> a < c + 1" "HasPrefix x [c] \<longleftrightarrow> a = c" by (auto simp: Cons)
    then show ?thesis using e [of a] by (simp only: append_Nil) auto
  qed simp
next
  case (Cons a q)
  show ?case
  proof (cases x)
    case x: (Cons b z)
    have "(a # q) @ [c] \<le> x \<longleftrightarrow> a < b \<or> a = b \<and> q @ [c] \<le> z" "x < (a # q) @ [c + 1] \<longleftrightarrow> b < a \<or> b = a \<and> z < q @ [c + 1]"
      "HasPrefix x ((a # q) @ [c]) \<longleftrightarrow> a = b \<and> HasPrefix z (q @ [c])" by (auto simp: x)
    then show ?thesis using Cons.IH [OF Cons.prems, of z] by (simp only:) auto
  qed simp
qed

lemma hash_range: "hash_prefix p key \<le> k \<and> k < PrefixNext (hash_prefix p key) \<longleftrightarrow> HasPrefix k (hash_prefix p key)"
proof -
  obtain q where q: "hash_prefix p key = q @ [0x68]" unfolding hash_prefix_def HashData_last by simp
  have "PrefixNext (q @ [0x68]) = q @ [0x68 + 1]" using PrefixNext_step [of "0x68" q 0] by simp
  then show ?thesis unfolding q using prefix_range_last [of "0x68" q k] by simp
qed

definition hash_entries :: "bytes \<Rightarrow> bytes \<Rightarrow> (bytes \<rightharpoonup> bytes) \<Rightarrow> (bytes \<times> bytes) list" where
  "hash_entries p key m = map (\<lambda>f. (slot_key p (HashSlot key f), the (m f))) (sorted_list_of_set (dom m))"

lemma slot_order: "slot_key p (HashSlot key f) < slot_key p (HashSlot key f') \<longleftrightarrow> f < f'"
  using cmp_bytes.enc_less_iff [where v = f and w = f' and x = "[]" and y = "[]"] by (simp add: slot_hash_prefix lex_append_left)

lemma entries_at:
  assumes "finite (dom m)"
  shows "map_of (hash_entries p key m) (slot_key p (HashSlot key f)) = m f"
proof -
  have "map_of (map (\<lambda>f. (slot_key p (HashSlot key f), the (m f))) fs) (slot_key p (HashSlot key f)) = (if f \<in> set fs then Some (the (m f)) else None)" for fs
    by (induction fs) (auto simp: slot_key_inj)
  then show ?thesis using assms by (cases "m f") (simp_all add: hash_entries_def domIff)
qed

lemma entries_sorted: "sorted_wrt (<) (map fst (hash_entries p key m))"
proof -
  have "map fst (hash_entries p key m) = map (\<lambda>f. slot_key p (HashSlot key f)) (sorted_list_of_set (dom m))"
    by (simp add: hash_entries_def)
  then show ?thesis by (simp add: sorted_wrt_map slot_order strict_sorted_list_of_set)
qed

lemma entries_unique:
  assumes "sorted_wrt (<) (map fst es)" "finite (dom m)" "\<And>f. map_of es (slot_key p (HashSlot key f)) = m f"
    and "\<And>k. k \<in> dom (map_of es) \<Longrightarrow> \<exists>f. k = slot_key p (HashSlot key f)"
  shows "es = hash_entries p key m"
proof (rule sorted_map_unique [where r = False])
  show "map_of es = map_of (hash_entries p key m)"
  proof (rule ext)
    fix k
    show "map_of es k = map_of (hash_entries p key m) k"
    proof (cases "\<exists>f. k = slot_key p (HashSlot key f)")
      case True
      then show ?thesis using assms(3) entries_at [OF assms(2)] by auto
    next
      case False
      then have "k \<notin> dom (map_of es)" "map_of (hash_entries p key m) k = None" using assms(4) by (blast, auto simp: hash_entries_def map_of_eq_None_iff)
      then show ?thesis by (simp add: domIff)
    qed
  qed
qed (use assms(1) entries_sorted in \<open>simp_all add: sorted_before\<close>)

lemma hash_in_range:
  assumes "layout p rep x kvs" "hash_rep (slots p kvs) key m" "sorted_wrt (<) (map fst kvs)"
  shows "in_range (Some (hash_prefix p key)) (Some (PrefixNext (hash_prefix p key))) kvs = hash_entries p key m"
proof (rule entries_unique)
  let ?es = "in_range (Some (hash_prefix p key)) (Some (PrefixNext (hash_prefix p key))) kvs"
  have r: "map_of ?es k = (if HasPrefix k (hash_prefix p key) then map_of kvs k else None)" for k
    by (simp add: map_of_in_range hash_range)
  show "sorted_wrt (<) (map fst ?es)" "finite (dom m)" using assms(3) hash_repD(1) [OF assms(2)] by (auto intro: in_range_sorted)
  show "map_of ?es (slot_key p (HashSlot key f)) = m f" for f
    using hash_repD(3) [OF assms(2), of f] unfolding r by (simp add: slot_hash_prefix slots_def)
  fix k assume "k \<in> dom (map_of ?es)"
  then have k: "k \<in> dom (map_of kvs)" "HasPrefix k (hash_prefix p key)" by (auto simp: r split: if_splits)
  then have "HasPrefix k p" by (auto simp: hash_prefix_def prefix_def)
  then obtain s where "k = slot_key p s" using assms(1) k(1) by (auto simp: layout_def)
  then show "\<exists>f. k = slot_key p (HashSlot key f)" using k(2) slot_with_prefix by blast
qed

definition pair_of_field :: "(bytes \<rightharpoonup> bytes) \<Rightarrow> bytes \<Rightarrow> HashPair" where
  "pair_of_field m f = \<lparr>Field = f, PairValue = the (m f)\<rparr>"

lemma decode_slot: "decodeHashDataKey (on_store R M p) (slot_key p (HashSlot key f)) = Inr (key, f)"
proof -
  have "(ucast HashData :: byte) = ucast HashData" ..
  then show ?thesis using cmp_bytes.dec_enc [of key "PutUint64 HashData @ EncodeBytes [] f"] cmp_bytes.dec_enc [of f "[]"]
    by (simp add: decodeHashDataKey_def slot_key_def DecodeUint_def)
qed

context retriever_mutator
begin

theorem set_hash_rep:
  assumes "layout p rep x kvs" "hash_rep (slots p kvs) key m" "v \<noteq> []"
    and "m f = None \<Longrightarrow> card (dom m) + 1 < 2 ^ 63" "fits x (hash_writes p key m f v)"
  shows "\<exists>x' kvs'. HSet (on_store R M p) x key f v = (None, x') \<and> layout p rep x' kvs' \<and>
    hash_rep (slots p kvs') key (m(f \<mapsto> v)) \<and> same_but_hash key (slots p kvs) (slots p kvs')"
  using update_hash_rep [where fn = "\<lambda>b _. (Inr v, b)" and b = "()", OF assms(1,2) _ assms(3-5)] by (auto simp: HSet_def)

theorem inc_hash_rep:
  assumes "layout p rep x kvs" "hash_rep (slots p kvs) key m" "m f = Some (FormatInt n) \<or> m f = None \<and> n = 0"
    and "m f = None \<Longrightarrow> card (dom m) + 1 < 2 ^ 63" "fits x (hash_writes p key m f (FormatInt (n + step)))"
  shows "\<exists>x' kvs'. HInc (on_store R M p) x key f step = (None, n + step, x') \<and> layout p rep x' kvs' \<and>
    hash_rep (slots p kvs') key (m(f \<mapsto> FormatInt (n + step))) \<and> same_but_hash key (slots p kvs) (slots p kvs')"
proof -
  have "HInc_fn step 0 (m f) = (Inr (FormatInt (n + step)), n + step)"
    using assms(3) by (auto simp: HInc_fn_def hashFieldIntegerVal_def ParseInt_FormatInt)
  then show ?thesis using update_hash_rep [OF assms(1,2) _ _ assms(4,5)] by (auto simp: HInc_def)
qed

lemma get_hash_rep: "layout p rep x kvs \<Longrightarrow> hash_rep (slots p kvs) key m \<Longrightarrow> HGet (on_store R M p) x key f = Inr (m f)"
  using read_slot hash_repD(3) by (simp add: HGet_def slot_simps)

lemma len_hash_rep:
  assumes "layout p rep x kvs" "hash_rep (slots p kvs) key m"
  shows "HLen (on_store R M p) x key = (None, of_nat (card (dom m)))"
  using load_hash [OF assms(1) hash_repD(5) [OF assms(2)]] by (simp add: HLen_def slot_simps)

lemma del_loop:
  assumes "layout p rep x kvs" "\<And>f. slots p kvs (HashSlot key f) = m f" "finite (dom m)" "fits x (del_writes p key m fs @ ws)"
  shows "\<exists>x' kvs'. HDel_loop (on_store R M p) M key fs \<lparr>FieldCount = of_nat (card (dom m))\<rparr> x =
      (None, \<lparr>FieldCount = of_nat (card (dom (m |` (- set fs))))\<rparr>, x') \<and> layout p rep x' kvs' \<and> fits x' ws \<and>
    (\<forall>f. slots p kvs' (HashSlot key f) = (m |` (- set fs)) f) \<and> same_but_hash key (slots p kvs) (slots p kvs')"
  using assms
proof (induction fs arbitrary: x kvs m)
  case Nil
  then show ?case by (auto simp: same_but_hash_def)
next
  case (Cons f fs)
  have v: "loadHashValue (on_store R M p) x (slot_key p (HashSlot key f)) = Inr (m f)"
    using load_hash_value [OF Cons.prems(1)] Cons.prems(2) by simp
  show ?case
  proof (cases "m f")
    case None
    then have "fits x (del_writes p key m fs @ ws)" using Cons.prems(4) by simp
    from Cons.IH [OF Cons.prems(1-3) this] show ?thesis unfolding restrict_out [of m f fs, OF None] using v None by (simp add: slot_simps)
  next
    case (Some w)
    have f: "fits x ((slot_key p (HashSlot key f), []) # (del_writes p key (m(f := None)) fs @ ws))" using Cons.prems(4) Some by simp
    obtain x' kvs' where s: "m_Delete M x (slot_key p (HashSlot key f)) = (None, x')" "layout p rep x' kvs'"
      "slots p kvs' = (slots p kvs)(HashSlot key f := None)" "fits x' (del_writes p key (m(f := None)) fs @ ws)"
      using delete_slot [OF Cons.prems(1) f] by blast
    have m: "slots p kvs' (HashSlot key g) = (m(f := None)) g" "finite (dom (m(f := None)))" for g
      using s(3) Cons.prems(2,3) by simp_all
    have c: "of_nat (card (dom m)) - 1 = (of_nat (card (dom (m(f := None)))) :: u64)" by (rule count_less [OF Cons.prems(3)]) (simp add: Some)
    have d: "HDel_loop (on_store R M p) M key (f # fs) \<lparr>FieldCount = of_nat (card (dom m))\<rparr> x =
        HDel_loop (on_store R M p) M key fs \<lparr>FieldCount = of_nat (card (dom (m(f := None))))\<rparr> x'"
      using v Some s(1) by (simp add: slot_simps c [symmetric] del: dom_fun_upd)
    obtain x2 kvs2 where t: "HDel_loop (on_store R M p) M key fs \<lparr>FieldCount = of_nat (card (dom (m(f := None))))\<rparr> x' =
        (None, \<lparr>FieldCount = of_nat (card (dom (m |` (- set (f # fs)))))\<rparr>, x2)" "layout p rep x2 kvs2" "fits x2 ws"
      "\<forall>g. slots p kvs2 (HashSlot key g) = (m |` (- set (f # fs))) g" "same_but_hash key (slots p kvs') (slots p kvs2)"
      using Cons.IH [OF s(2) m s(4)] unfolding restrict_in by blast
    have "same_but_hash key (slots p kvs) (slots p kvs2)" using t(5) s(3) by (simp add: same_but_hash_def)
    then show ?thesis unfolding d using t by blast
  qed
qed

lemma del_hash_more:
  assumes "layout p rep x kvs" "hash_rep (slots p kvs) key m" "card (dom m) \<noteq> 0"
    and "fits x (del_writes p key m fs @ meta_write p key (m |` (- set fs)) # ws)"
  shows "\<exists>x' kvs'. HDel (on_store R M p) x key fs = (None, x') \<and> layout p rep x' kvs' \<and>
    hash_rep (slots p kvs') key (m |` (- set fs)) \<and> same_but_hash key (slots p kvs) (slots p kvs') \<and> fits x' ws"
proof -
  note q = hash_repD [OF assms(2)]
  let ?m = "m |` (- set fs)"
  have "card (dom ?m) \<le> card (dom m)" using q(1) by (intro card_mono) auto
  then have c: "card (dom ?m) < 2 ^ 63" "finite (dom ?m)" using q(1,2) by auto
  obtain x' kvs' where s: "HDel_loop (on_store R M p) M key fs \<lparr>FieldCount = of_nat (card (dom m))\<rparr> x =
      (None, \<lparr>FieldCount = of_nat (card (dom ?m))\<rparr>, x')" "layout p rep x' kvs'" "fits x' (meta_write p key ?m # ws)"
    "\<forall>f. slots p kvs' (HashSlot key f) = ?m f" "same_but_hash key (slots p kvs) (slots p kvs')"
    using del_loop [OF assms(1) q(3,1) assms(4)] by blast
  obtain x2 kvs2 where t: "(if snd (meta_write p key ?m) \<noteq> [] then m_Set M x' (slot_key p (HashMetaSlot key)) (snd (meta_write p key ?m))
      else m_Delete M x' (slot_key p (HashMetaSlot key))) = (None, x2)" "layout p rep x2 kvs2"
    "slots p kvs2 = (slots p kvs')(HashMetaSlot key := if snd (meta_write p key ?m) = [] then None else Some (snd (meta_write p key ?m)))" "fits x2 ws"
    using put_meta [OF s(2), of "HashMetaSlot key" "snd (meta_write p key ?m)" ws] s(3) by (auto simp: meta_write_def)
  have w: "snd (meta_write p key ?m) = (if card (dom ?m) = 0 then [] else PutUint64 (of_nat (card (dom ?m))))"
    "(if snd (meta_write p key ?m) = [] then None else Some (snd (meta_write p key ?m))) = hash_count ?m"
    by (simp_all only: meta_write_def hash_count_def) auto
  have "HDel (on_store R M p) x key fs = (None, x2)"
    using assms(3) hash_empty [OF q(2)] hash_empty [OF c(1)] s(1) t(1) unfolding w(1)
    by (simp add: HDel_def slot_simps load_hash [OF assms(1) q(5)] hashMeta_Value_def write_result_def split: if_splits)
  moreover have "\<forall>v \<in> ran ?m. v \<noteq> []" using q(4) by (auto simp: ran_def restrict_map_def split: if_splits)
  then have "hash_rep (slots p kvs2) key ?m" using c s(4) unfolding t(3) w(2) by (simp add: hash_rep_def)
  moreover have "same_but_hash key (slots p kvs) (slots p kvs2)" using s(5) t(3) by (simp add: same_but_hash_def)
  ultimately show ?thesis using t(2,4) by blast
qed

theorem del_hash_rep:
  assumes "layout p rep x kvs" "hash_rep (slots p kvs) key m"
    and "fits x (del_writes p key m fs @ [meta_write p key (m |` (- set fs))])"
  shows "\<exists>x' kvs'. HDel (on_store R M p) x key fs = (None, x') \<and> layout p rep x' kvs' \<and>
    hash_rep (slots p kvs') key (m |` (- set fs)) \<and> same_but_hash key (slots p kvs) (slots p kvs')"
proof (cases "card (dom m) = 0")
  case True
  note q = hash_repD [OF assms(2)]
  have "m = Map.empty" using True q(1) by simp
  then have "m |` (- set fs) = m" by (simp add: restrict_map_def)
  moreover have "HDel (on_store R M p) x key fs = (None, x)"
    using True hash_empty [OF q(2)] by (simp add: HDel_def slot_simps load_hash [OF assms(1) q(5)])
  ultimately show ?thesis using assms(1,2) by (auto simp: same_but_hash_def)
next
  case False
  then show ?thesis using del_hash_more [OF assms(1,2) False assms(3)] by blast
qed

end

lemma sorted_split:
  assumes "sorted_wrt (<) (map fst kvs)" "lo < hi"
  shows "in_range None (Some hi) kvs = in_range None (Some lo) kvs @ in_range (Some lo) (Some hi) kvs"
  using assms(1)
proof (induction kvs)
  case (Cons e kvs)
  have e: "\<forall>d \<in> set kvs. fst e < fst d" "in_range None (Some hi) kvs = in_range None (Some lo) kvs @ in_range (Some lo) (Some hi) kvs"
    using Cons by auto
  show ?case
  proof (cases "fst e < lo")
    case True
    then show ?thesis using e(2) assms(2) by (auto simp: in_range_def)
  next
    case False
    then have "in_range None (Some lo) kvs = []" using e(1) by (force simp: in_range_def filter_empty_conv)
    then show ?thesis using False e(2) by (auto simp: in_range_def)
  qed
qed (simp add: in_range_def)

lemma prefix_below: "lo \<le> hi \<Longrightarrow> e \<in> set (in_range None (Some lo) kvs) \<Longrightarrow> \<not> HasPrefix (fst e) lo"
  using prefix_lex_le by (fastforce simp: in_range_def)

lemma hash_prefix_less: "hash_prefix p key < PrefixNext (hash_prefix p key)"
  using hash_range [of p key "hash_prefix p key"] by simp

context retriever_mutator
begin

lemma iterate_loop:
  assumes "left x it (map (\<lambda>f. (slot_key p (HashSlot key f), val f)) fs)"
  shows "iterateHash_loop (on_store R M p) (hash_prefix p key) (\<lambda>f v (s, x). (None, g f v s, x)) it (s, x) =
    Some (None, fold (\<lambda>f. g f (val f)) fs s, x)"
  using assms
proof (induction fs arbitrary: it s)
  case Nil
  then show ?case using kv_iterator.left_valid [OF iterator] by (subst iterateHash_loop.simps) (simp add: Let_def)
next
  case (Cons f fs)
  let ?I = "r_iterator R x"
  have l: "left x it ((slot_key p (HashSlot key f), val f) # map (\<lambda>f. (slot_key p (HashSlot key f), val f)) fs)" using Cons.prems by simp
  have k: "Valid ?I it" "Key ?I it = slot_key p (HashSlot key f)" "Value ?I it = val f"
    using kv_iterator.left_valid [OF iterator l] kv_iterator.left_entry [OF iterator l] by simp_all
  obtain it' where n: "Iterator.Next ?I it = (None, it')" "left x it' (map (\<lambda>f. (slot_key p (HashSlot key f), val f)) fs)"
    using kv_iterator.left_next [OF iterator l] by blast
  have "HasPrefix (slot_key p (HashSlot key f)) (hash_prefix p key)" by (simp add: slot_hash_prefix)
  then show ?case using k n(1) Cons.IH [OF n(2)] by (subst iterateHash_loop.simps) (simp add: Let_def decode_slot)
qed

lemma iterate_rep:
  assumes "layout p rep x kvs" "hash_rep (slots p kvs) key m"
  shows "iterateHash (on_store R M p) key (\<lambda>f v (s, x). (None, g f v s, x)) (s, x) =
    Some (None, fold (\<lambda>f. g f (the (m f))) (sorted_list_of_set (dom m)) s, x)"
proof -
  note r = layout_rep [OF assms(1)]
  obtain it where it: "r_Iter R x (Some (hash_prefix p key)) (Some (PrefixNext (hash_prefix p key))) = Inr it"
    "left x it (in_range (Some (hash_prefix p key)) (Some (PrefixNext (hash_prefix p key))) kvs)"
    using iter_rep [OF r] by blast
  have "left x it (map (\<lambda>f. (slot_key p (HashSlot key f), the (m f))) (sorted_list_of_set (dom m)))"
    using it(2) hash_in_range [OF assms] rep_ok [OF r] by (simp add: hash_entries_def)
  from iterate_loop [OF this] show ?thesis by (simp add: iterateHash_def slot_simps it(1))
qed

theorem get_all_hash_rep:
  assumes "layout p rep x kvs" "hash_rep (slots p kvs) key m"
  shows "HGetAll (on_store R M p) x key = Some (None, map (pair_of_field m) (sorted_list_of_set (dom m)))"
    and "HKeys (on_store R M p) x key = Some (None, sorted_list_of_set (dom m))"
proof -
  have "fold (\<lambda>f res. res @ [h f]) fs acc = acc @ map h fs" for h :: "bytes \<Rightarrow> 'c" and fs acc by (induction fs arbitrary: acc) simp_all
  note f = this [of "pair_of_field m"] this [of "\<lambda>f. f"]
  show "HGetAll (on_store R M p) x key = Some (None, map (pair_of_field m) (sorted_list_of_set (dom m)))"
    unfolding HGetAll_def iterate_rep [OF assms, of "\<lambda>f v res. res @ [\<lparr>Field = f, PairValue = v\<rparr>]" "[]"]
    using f(1) [of "sorted_list_of_set (dom m)" "[]"] by (simp add: pair_of_field_def)
  show "HKeys (on_store R M p) x key = Some (None, sorted_list_of_set (dom m))"
    unfolding HKeys_def iterate_rep [OF assms, of "\<lambda>f v keys. keys @ [f]" "[]"]
    using f(2) [of "sorted_list_of_set (dom m)" "[]"] by simp
qed

lemma last_loop:
  assumes "left x it (map (\<lambda>f. (slot_key p (HashSlot key f), the (m f))) fs @ rest)"
    and "rest = [] \<or> \<not> HasPrefix (fst (hd rest)) (hash_prefix p key)"
  shows "iterReverseHash_loop (on_store R M p) x (hash_prefix p key)
      (\<lambda>f v res. let res = res @ [\<lparr>Field = f, PairValue = v\<rparr>] in if int (length res) \<ge> num then (None, False, res) else (None, True, res)) it acc =
    Some (None, acc @ map (pair_of_field m) (take (max 1 (nat num - length acc)) fs))"
  using assms(1)
proof (induction fs arbitrary: it acc)
  case Nil
  show ?case
  proof (cases rest)
    case Nil
    then show ?thesis using kv_iterator.left_valid [OF iterator] Nil.prems by (subst iterReverseHash_loop.simps) (simp add: Let_def)
  next
    case (Cons e es)
    then have l: "left x it (e # es)" using Nil.prems by simp
    have "Key (r_iterator R x) it = fst e" using kv_iterator.left_entry [OF iterator l] by auto
    then show ?thesis using assms(2) Cons by (subst iterReverseHash_loop.simps) (simp add: Let_def)
  qed
next
  case (Cons f fs)
  let ?I = "r_iterator R x"
  let ?es = "map (\<lambda>f. (slot_key p (HashSlot key f), the (m f))) fs @ rest"
  have l: "left x it ((slot_key p (HashSlot key f), the (m f)) # ?es)" using Cons.prems by simp
  have k: "Valid ?I it" "Key ?I it = slot_key p (HashSlot key f)" "Value ?I it = the (m f)"
    using kv_iterator.left_valid [OF iterator l] kv_iterator.left_entry [OF iterator l] by simp_all
  obtain it' where n: "Iterator.Next ?I it = (None, it')" "left x it' ?es" using kv_iterator.left_next [OF iterator l] by blast
  have h: "HasPrefix (slot_key p (HashSlot key f)) (hash_prefix p key)" by (simp add: slot_hash_prefix)
  show ?case
  proof (cases "num \<le> int (length acc) + 1")
    case True
    then have "max 1 (nat num - length acc) = 1" by simp
    then show ?thesis using True k h by (subst iterReverseHash_loop.simps) (simp add: Let_def decode_slot pair_of_field_def)
  next
    case False
    then have t: "max 1 (nat num - length acc) = Suc (max 1 (nat num - length (acc @ [pair_of_field m f])))" by simp
    show ?thesis unfolding t using False k h n(1) Cons.IH [OF n(2), of "acc @ [pair_of_field m f]"]
      by (subst iterReverseHash_loop.simps) (simp add: Let_def decode_slot pair_of_field_def)
  qed
qed

theorem get_last_rep:
  assumes "layout p rep x kvs" "hash_rep (slots p kvs) key m" "make_ok 48 num"
  shows "HGetLastN (on_store R M p) x key num = Some (None, map (pair_of_field m) (take (max 1 (nat num)) (rev (sorted_list_of_set (dom m)))))"
proof -
  note r = layout_rep [OF assms(1)]
  let ?lo = "hash_prefix p key"
  let ?rest = "rev (in_range None (Some ?lo) kvs)"
  have s: "sorted_wrt (<) (map fst kvs)" using rep_ok [OF r] by blast
  obtain it where it: "r_IterReverse R x (Some (PrefixNext ?lo)) = Inr it" "left x it (rev (in_range None (Some (PrefixNext ?lo)) kvs))"
    using iter_reverse_rep [OF r] by blast
  have "left x it (map (\<lambda>f. (slot_key p (HashSlot key f), the (m f))) (rev (sorted_list_of_set (dom m))) @ ?rest)"
    using it(2) unfolding sorted_split [OF s hash_prefix_less] hash_in_range [OF assms(1,2) s] hash_entries_def by (simp add: rev_map)
  moreover have "?rest = [] \<or> \<not> HasPrefix (fst (hd ?rest)) ?lo"
    using prefix_below [of ?lo ?lo "hd ?rest" kvs] hd_in_set [of ?rest] by auto
  ultimately have "iterReverseHash (on_store R M p) x key
      (\<lambda>f v res. let res = res @ [\<lparr>Field = f, PairValue = v\<rparr>] in if int (length res) \<ge> num then (None, False, res) else (None, True, res)) [] =
    Some (None, [] @ map (pair_of_field m) (take (max 1 (nat num - length ([] :: HashPair list))) (rev (sorted_list_of_set (dom m)))))"
    unfolding iterReverseHash_def slot_simps on_store_simps Let_def it(1) sum.case
    by (rule last_loop [unfolded Let_def])
  then show ?thesis using assms(3) by (simp add: HGetLastN_def)
qed

end

end
