(* ===== verification/Structure_Correct.thy ===== *)
theory Structure_Correct
  imports Structure_Hash
begin

text \<open>
  What the structures of package \<open>structure\<close> promise, over any store with the laws of \<open>retriever_mutator\<close>; the
  union store of package \<open>kv\<close> is the store of the witnesses.
\<close>

definition list_now :: "bytes \<Rightarrow> ('x \<Rightarrow> (bytes \<times> bytes) list \<Rightarrow> bool) \<Rightarrow> (bytes \<times> bytes) list \<Rightarrow> bytes \<Rightarrow> 'x \<Rightarrow> bytes list \<Rightarrow> bool" where
  "list_now p rep kvs key x xs =
     (\<exists>kvs' l r. layout p rep x kvs' \<and> list_rep (slots p kvs') key l r xs \<and> same_but_list key (slots p kvs) (slots p kvs'))"

definition hash_now :: "bytes \<Rightarrow> ('x \<Rightarrow> (bytes \<times> bytes) list \<Rightarrow> bool) \<Rightarrow> (bytes \<times> bytes) list \<Rightarrow> bytes \<Rightarrow> 'x \<Rightarrow> (bytes \<rightharpoonup> bytes) \<Rightarrow> bool" where
  "hash_now p rep kvs key x m =
     (\<exists>kvs'. layout p rep x kvs' \<and> hash_rep (slots p kvs') key m \<and> same_but_hash key (slots p kvs) (slots p kvs'))"

text \<open>C19: The list operations implement a double-ended queue.  On a store that holds the list \<open>xs\<close> under the key,
  \<open>RPush\<close> appends its values, \<open>LPush\<close> puts them in front one after the other, \<open>LPop\<close> and \<open>RPop\<close> return and
  remove the first and the last element, and nothing of the store outside the list changes.\<close>

theorem list_deque:
  assumes "retriever_mutator R rep left M fits" "layout p rep x kvs" "list_rep (slots p kvs) key l r xs"
  defines "t \<equiv> on_store R M p"
  shows "(vs \<noteq> [] \<and> [] \<notin> set vs \<and> index_ok (r + int (length vs)) \<and> fits x (push_writes p key False l r vs) \<longrightarrow>
      (\<exists>x'. RPush t x key vs = (None, x') \<and> list_now p rep kvs key x' (xs @ vs))) \<and>
    (vs \<noteq> [] \<and> [] \<notin> set vs \<and> index_ok (l - int (length vs)) \<and> fits x (push_writes p key True l r vs) \<longrightarrow>
      (\<exists>x'. LPush t x key vs = (None, x') \<and> list_now p rep kvs key x' (rev vs @ xs))) \<and>
    (xs \<noteq> [] \<and> fits x (pop_writes p key True l r) \<longrightarrow>
      (\<exists>x'. LPop t x key = ((None, Some (hd xs)), x') \<and> list_now p rep kvs key x' (tl xs))) \<and>
    (xs \<noteq> [] \<and> fits x (pop_writes p key False l r) \<longrightarrow>
      (\<exists>x'. RPop t x key = ((None, Some (last xs)), x') \<and> list_now p rep kvs key x' (butlast xs))) \<and>
    (xs = [] \<longrightarrow> LPop t x key = ((None, None), x) \<and> RPop t x key = ((None, None), x))"
proof (intro conjI)
  note rm = assms(1-3) and ok = list_repD(3,4) [OF assms(3)]
  show "vs \<noteq> [] \<and> [] \<notin> set vs \<and> index_ok (r + int (length vs)) \<and> fits x (push_writes p key False l r vs) \<longrightarrow>
      (\<exists>x'. RPush t x key vs = (None, x') \<and> list_now p rep kvs key x' (xs @ vs))"
    using retriever_mutator.push_rep [OF rm, of False vs] ok(1) unfolding RPush_def t_def list_now_def push_defs if_False by metis
  show "vs \<noteq> [] \<and> [] \<notin> set vs \<and> index_ok (l - int (length vs)) \<and> fits x (push_writes p key True l r vs) \<longrightarrow>
      (\<exists>x'. LPush t x key vs = (None, x') \<and> list_now p rep kvs key x' (rev vs @ xs))"
    using retriever_mutator.push_rep [OF rm, of True vs] ok(2) unfolding LPush_def t_def list_now_def push_defs if_True by metis
  show "xs \<noteq> [] \<and> fits x (pop_writes p key True l r) \<longrightarrow>
      (\<exists>x'. LPop t x key = ((None, Some (hd xs)), x') \<and> list_now p rep kvs key x' (tl xs))"
    using retriever_mutator.pop_rep [OF rm, of True] unfolding LPop_def t_def list_now_def pop_defs if_True by metis
  show "xs \<noteq> [] \<and> fits x (pop_writes p key False l r) \<longrightarrow>
      (\<exists>x'. RPop t x key = ((None, Some (last xs)), x') \<and> list_now p rep kvs key x' (butlast xs))"
    using retriever_mutator.pop_rep [OF rm, of False] unfolding RPop_def t_def list_now_def pop_defs if_False by metis
  show "xs = [] \<longrightarrow> LPop t x key = ((None, None), x) \<and> RPop t x key = ((None, None), x)"
    using retriever_mutator.pop_empty [OF rm(1,2)] rm(3) unfolding LPop_def RPop_def t_def by blast
qed

text \<open>The transaction of the examples, over a snapshot with nothing in it.\<close>

definition ex_txn :: "memDbBuffer unionStore" where
  "ex_txn = NewUnionStore 0x100000 (\<lambda>_ _. 0) \<lparr>mb_db = New 64, entrySizeLimit = TxnEntrySizeLimit, bufferSizeLimit = 0\<rparr>"

abbreviation ex_structure :: "(memDbBuffer unionStore, (bufferIter, memDbIter) UnionIter) TxStructure" where
  "ex_structure \<equiv> on_store (unionStore_retriever mockSnapshot) unionStore_mutator [109]"

lemma ex_txn_fits:
  "us_fits ex_txn ws \<longleftrightarrow> list_all (\<lambda>(k, v). length k < 2 ^ 16 \<and> int (length k) + int (length v) \<le> TxnEntrySizeLimit) ws \<and>
     weight ws \<le> 0x100000 \<and> length ws < 2 ^ 32 - 2"
  by (simp add: ex_txn_def us_fits_def NewUnionStore_def NewBufferStore_buf_def buf_fits_def DefaultTxnMembufCap_def lazy_Size_def buf_blocks_def list_all_iff)

lemma length_slot_key:
  "length (slot_key p (ListMetaSlot k)) = length p + length (EncodeBytes [] k) + 8"
  "length (slot_key p (ListSlot k i)) = length p + length (EncodeBytes [] k) + 16"
  "length (slot_key p (HashMetaSlot k)) = length p + length (EncodeBytes [] k) + 8"
  "length (slot_key p (HashSlot k f)) = length p + length (EncodeBytes [] k) + 8 + length (EncodeBytes [] f)"
  by (simp_all add: slot_key_def EncodeInt_def)

lemmas ex_fits = ex_txn_fits length_slot_key EncodeBytes_groups length_groups TxnEntrySizeLimit_def

lemma ex_txn_layout: "layout [109] (us_rep mock_rep) ex_txn []"
proof -
  have "db_rep (New 64) []" by (rule New_rep) simp_all
  then have "us_rep mock_rep ex_txn []"
    by (auto simp: ex_txn_def us_rep_def NewUnionStore_def NewBufferStore_buf_def buf_rep_def mock_rep_def intro!: exI [of _ "[]"])
  then show ?thesis by (simp add: layout_def)
qed

lemma ex_txn_empty: "list_rep (slots [109] []) key 0 0 []" "hash_rep (slots [109] []) key Map.empty"
  by (simp_all add: slots_def list_rep_def items_def index_ok_def hash_rep_def hash_count_def)

theorem list_deque_witness:
  "\<exists>x'. RPush ex_structure ex_txn [1] [[7], [8, 9]] = (None, x') \<and> list_now [109] (us_rep mock_rep) [] [1] x' [[7], [8, 9]]"
proof -
  have "us_fits ex_txn (push_writes [109] [1] False 0 0 [[7], [8, 9]])" 
    by (simp add: ex_fits)
  then show ?thesis using list_deque [OF ustore.retriever_mutator_axioms ex_txn_layout ex_txn_empty(1), of "[[7], [8, 9]]" "[1]"]
    by (auto simp: index_ok_def)
qed

text \<open>C21: The readers of a list agree with the list the store holds: \<open>LLen\<close> gives its length, \<open>LGetAll\<close> returns
  all of it from right to left, and \<open>LIndex\<close> gives the element at an index, counted from the right end when it
  is negative, or nothing when there is none.\<close>

theorem list_reads:
  assumes "retriever_mutator R rep left M fits" "layout p rep x kvs" "list_rep (slots p kvs) key l r xs" "24 * length xs \<le> 2 ^ 48"
    and "index_ok j" "index_ok (if 0 \<le> j then l + j else r + j)"
  defines "t \<equiv> on_store R M p" and "i \<equiv> if 0 \<le> j then j else int (length xs) + j"
  shows "LLen t x key = (None, of_nat (length xs)) \<and> LGetAll t x key = Some (Inr (rev xs)) \<and>
    LIndex t x key (of_int j) = Inr (if 0 \<le> i \<and> i < int (length xs) then Some (xs ! nat i) else None)"
  using retriever_mutator.len_rep [OF assms(1-3)] retriever_mutator.get_all_rep [OF assms(1-4)]
    retriever_mutator.index_rep [OF assms(1-3,5,6) refl]
  unfolding t_def i_def idx_def by simp

lemma ex_list:
  "\<exists>x kvs. layout [109] (us_rep mock_rep) x kvs \<and> list_rep (slots [109] kvs) [1] 0 2 [[7], [8, 9]]"
proof -
  have "us_fits ex_txn (push_writes [109] [1] False 0 0 [[7], [8, 9]])" by (simp add: ex_fits)
  then show ?thesis using ustore.push_rep [OF ex_txn_layout ex_txn_empty(1), where vs = "[[7], [8, 9]]" and front = False and key = "[1]"]
    by (auto simp: index_ok_def push_defs)
qed

theorem list_reads_witness:
  "\<exists>x. LGetAll ex_structure x [1] = Some (Inr [[8, 9], [7]]) \<and> LLen ex_structure x [1] = (None, 2) \<and> LIndex ex_structure x [1] (- 1) = Inr (Some [8, 9])"
proof -
  obtain x kvs where x: "layout [109] (us_rep mock_rep) x kvs" "list_rep (slots [109] kvs) [1] 0 2 [[7], [8, 9]]" using ex_list by blast
  from list_reads [OF ustore.retriever_mutator_axioms x, of "- 1"] show ?thesis by (auto simp: index_ok_def)
qed

text \<open>C18: The field count of a hash is the number of its fields after every operation that changes the hash:
  \<open>HSet\<close> and \<open>HInc\<close> put a field, \<open>HDel\<close> removes the fields it is given, present or not, and the store
  holds the changed hash with its count afterwards, everything outside the hash as before.\<close>

theorem hash_invariant:
  assumes "retriever_mutator R rep left M fits" "layout p rep x kvs" "hash_rep (slots p kvs) key m"
  defines "t \<equiv> on_store R M p"
  shows "(v \<noteq> [] \<and> card (dom m) + 1 < 2 ^ 63 \<and> fits x (hash_writes p key m f v) \<longrightarrow>
      (\<exists>x'. HSet t x key f v = (None, x') \<and> hash_now p rep kvs key x' (m(f \<mapsto> v)))) \<and>
    ((m f = Some (FormatInt n) \<or> m f = None \<and> n = 0) \<and> card (dom m) + 1 < 2 ^ 63 \<and> fits x (hash_writes p key m f (FormatInt (n + step))) \<longrightarrow>
      (\<exists>x'. HInc t x key f step = (None, n + step, x') \<and> hash_now p rep kvs key x' (m(f \<mapsto> FormatInt (n + step))))) \<and>
    (fits x (del_writes p key m fs @ [meta_write p key (m |` (- set fs))]) \<longrightarrow>
      (\<exists>x'. HDel t x key fs = (None, x') \<and> hash_now p rep kvs key x' (m |` (- set fs))))"
proof (intro conjI)
  note rm = assms(1-3)
  show "v \<noteq> [] \<and> card (dom m) + 1 < 2 ^ 63 \<and> fits x (hash_writes p key m f v) \<longrightarrow>
      (\<exists>x'. HSet t x key f v = (None, x') \<and> hash_now p rep kvs key x' (m(f \<mapsto> v)))"
    using retriever_mutator.set_hash_rep [OF rm, of v f] unfolding t_def hash_now_def by metis
  show "(m f = Some (FormatInt n) \<or> m f = None \<and> n = 0) \<and> card (dom m) + 1 < 2 ^ 63 \<and> fits x (hash_writes p key m f (FormatInt (n + step))) \<longrightarrow>
      (\<exists>x'. HInc t x key f step = (None, n + step, x') \<and> hash_now p rep kvs key x' (m(f \<mapsto> FormatInt (n + step))))"
    using retriever_mutator.inc_hash_rep [OF rm, of f n step] unfolding t_def hash_now_def by metis
  show "fits x (del_writes p key m fs @ [meta_write p key (m |` (- set fs))]) \<longrightarrow>
      (\<exists>x'. HDel t x key fs = (None, x') \<and> hash_now p rep kvs key x' (m |` (- set fs)))"
    using retriever_mutator.del_hash_rep [OF rm, of fs] unfolding t_def hash_now_def by metis
qed

theorem hash_invariant_witness:
  "\<exists>x'. HSet ex_structure ex_txn [1] [2] [3] = (None, x') \<and> hash_now [109] (us_rep mock_rep) [] [1] x' [[2] \<mapsto> [3]]"
proof -
  have "us_fits ex_txn (hash_writes [109] [1] Map.empty [2] [3])" by (simp add: ex_fits hash_writes_def)
  then show ?thesis using hash_invariant [OF ustore.retriever_mutator_axioms ex_txn_layout ex_txn_empty(2), of "[3]" "[1]" "[2]"] by simp
qed

text \<open>C20: The readers of a hash agree with the map the store holds.  \<open>HGet\<close> gives the value of a field and
  \<open>HLen\<close> the number of fields; the iterations \<open>HKeys\<close> and \<open>HGetAll\<close> end and give every field once, in the
  order of the field names; \<open>HGetLastN\<close> gives the last ones in descending order, one at least.\<close>

theorem hash_reads:
  assumes "retriever_mutator R rep left M fits" "layout p rep x kvs" "hash_rep (slots p kvs) key m" "make_ok 48 num"
  defines "t \<equiv> on_store R M p" and "fs \<equiv> sorted_list_of_set (dom m)"
  shows "HGet t x key f = Inr (m f) \<and> HLen t x key = (None, of_nat (card (dom m))) \<and> HKeys t x key = Some (None, fs) \<and>
    HGetAll t x key = Some (None, map (pair_of_field m) fs) \<and>
    HGetLastN t x key num = Some (None, map (pair_of_field m) (take (max 1 (nat num)) (rev fs)))"
  using retriever_mutator.get_hash_rep [OF assms(1-3)] retriever_mutator.len_hash_rep [OF assms(1-3)]
    retriever_mutator.get_all_hash_rep [OF assms(1-3)] retriever_mutator.get_last_rep [OF assms(1-4)]
  unfolding t_def fs_def by simp

lemma ex_hash:
  "\<exists>x kvs. layout [109] (us_rep mock_rep) x kvs \<and> hash_rep (slots [109] kvs) [1] [[2] \<mapsto> [3]]"
proof -
  have "us_fits ex_txn (hash_writes [109] [1] Map.empty [2] [3])" by (simp add: ex_fits hash_writes_def)
  then show ?thesis using ustore.set_hash_rep [OF ex_txn_layout ex_txn_empty(2), of "[3]" "[1]" "[2]"] by auto
qed

theorem hash_reads_witness:
  "\<exists>x. HGet ex_structure x [1] [2] = Inr (Some [3]) \<and> HLen ex_structure x [1] = (None, 1) \<and>
     HGetLastN ex_structure x [1] 0 = Some (None, [\<lparr>Field = [2], PairValue = [3]\<rparr>])"
proof -
  obtain x kvs where x: "layout [109] (us_rep mock_rep) x kvs" "hash_rep (slots [109] kvs) [1] [[2] \<mapsto> [3]]" using ex_hash by blast
  from hash_reads [OF ustore.retriever_mutator_axioms x, of 0 "[2]"] show ?thesis by (auto simp: make_ok_def pair_of_field_def)
qed

end
