(* ===== verification/Meta_Layout.thy ===== *)
theory Meta_Layout
  imports Meta Structure_Correct
begin

text \<open>
  The catalogue in the layout of package \<open>structure\<close>: its keys are different and short, and a \<open>Meta\<close> works on
  the structures under the prefix \<open>m\<close>.
\<close>

section \<open>Keys\<close>

lemma FormatInt_inject [simp]: "FormatInt i = FormatInt j \<longleftrightarrow> i = j"
  by (metis ParseInt_FormatInt prod.inject)

lemma id_key_inject [simp]: "id_key p i = id_key p j \<longleftrightarrow> i = j"
  by (simp add: id_key_def)

lemma dbKey_inject [simp]: "dbKey i = dbKey j \<longleftrightarrow> i = j"
  by (simp add: dbKey_def)

lemma mDBs_not_dbKey [simp]: "mDBs \<noteq> dbKey i" "dbKey i \<noteq> mDBs"
  by (simp_all add: mDBs_def dbKey_def id_key_def mDBPrefix_def str_def)

lemma tableKey_not_auto [simp]: "tableKey i \<noteq> autoTableIDKey j"
  by (simp add: tableKey_def autoTableIDKey_def id_key_def mTablePrefix_def mTableIDPrefix_def str_def)

lemma length_format_digits: "n < 10 ^ k \<Longrightarrow> 0 < k \<Longrightarrow> length (format_digits n) \<le> k"
proof (induction k arbitrary: n)
  case (Suc k)
  show ?case
  proof (cases "n < 10")
    case True
    then show ?thesis by (subst format_digits.simps) simp
  next
    case False
    have "n div 10 < 10 ^ k" using Suc.prems(1) by (simp add: less_mult_imp_div_less mult.commute)
    moreover have "0 < k" using False Suc.prems(1) by (cases k) auto
    ultimately show ?thesis using Suc.IH False by (subst format_digits.simps) simp
  qed
qed simp

lemma length_FormatInt: "length (FormatInt i) \<le> 20"
proof -
  have "sint i < 10 ^ 19" "- sint i < 10 ^ 19" using sint_lt [of i] sint_ge [of i] by simp_all
  then have "nat (sint i) < 10 ^ 19" "nat (- sint i) < 10 ^ 19" by (simp_all add: nat_less_iff)
  then have "length (format_digits (nat (sint i))) \<le> 19" "length (format_digits (nat (- sint i))) \<le> 19"
    using length_format_digits [of _ 19] by simp_all
  then show ?thesis by (auto simp: FormatInt_def)
qed

lemma tableKey_inject [simp]: "tableKey i = tableKey j \<longleftrightarrow> i = j"
  by (simp add: tableKey_def)

lemma auto_not_tableKey [simp]: "autoTableIDKey j \<noteq> tableKey i"
  by (rule tableKey_not_auto [symmetric])

lemma table_prefix [simp]: "HasPrefix (tableKey t) mTablePrefix" "\<not> HasPrefix (autoTableIDKey t) mTablePrefix"
  by (simp_all add: tableKey_def autoTableIDKey_def id_key_def mTablePrefix_def mTableIDPrefix_def str_def)

section \<open>Room for a few writes\<close>

text \<open>A transaction in which four writes of keys and values of \<open>n\<close> bytes together stay within the limits.\<close>

definition room :: "('x \<Rightarrow> (bytes \<times> bytes) list \<Rightarrow> bool) \<Rightarrow> 'x \<Rightarrow> int \<Rightarrow> bool" where
  "room fits x n = (\<forall>ws. length ws \<le> 4 \<and> weight ws \<le> n \<longrightarrow> fits x ws)"

lemma length_id_key: "length (id_key p i) \<le> length p + 21"
  using length_FormatInt [of i] by (simp add: id_key_def str_def)

lemma length_meta_keys: "length (dbKey d) \<le> 23" "length (autoTableIDKey t) \<le> 24" "length (tableKey t) \<le> 26" "length mMetaPrefix = 1"
  using length_id_key [of mDBPrefix d] length_id_key [of mTableIDPrefix t] length_id_key [of mTablePrefix t]
  by (simp_all add: dbKey_def autoTableIDKey_def tableKey_def mDBPrefix_def mTableIDPrefix_def mTablePrefix_def str_def mMetaPrefix_def)

lemma length_EncodeBytes_short: "length k \<le> 64 \<Longrightarrow> length (EncodeBytes [] k) \<le> 81"
  by (simp add: EncodeBytes_groups length_groups)

lemma hash_writes_small:
  assumes "length key \<le> 64" "length f \<le> 64"
  shows "length (hash_writes mMetaPrefix key m f v) \<le> 4 \<and> weight (hash_writes mMetaPrefix key m f v) \<le> 1024 + int (length v)"
  using length_EncodeBytes_short [OF assms(1)] length_EncodeBytes_short [OF assms(2)] length_meta_keys
  by (simp add: hash_writes_def length_slot_key)

lemma del_writes_small:
  assumes "length key \<le> 64" "length f \<le> 64" "length f' \<le> 64" "m f \<noteq> None"
  defines "m' \<equiv> m(f := None)"
  defines "ws \<equiv> del_writes mMetaPrefix key m [f] @ meta_write mMetaPrefix key m' #
     del_writes mMetaPrefix key m' [f'] @ [meta_write mMetaPrefix key (m'(f' := None))]"
  shows "length ws \<le> 4 \<and> weight ws \<le> 1024"
  using length_EncodeBytes_short [OF assms(1)] length_EncodeBytes_short [OF assms(2)] length_EncodeBytes_short [OF assms(3)] length_meta_keys
  by (simp add: ws_def meta_write_def length_slot_key hash_count_def)

lemma push_writes_small:
  assumes "length key \<le> 64"
  shows "length (push_writes mMetaPrefix key front l r [v]) \<le> 4 \<and> weight (push_writes mMetaPrefix key front l r [v]) \<le> 1024 + int (length v)"
  using length_EncodeBytes_short [OF assms(1)] length_meta_keys by (simp add: length_slot_key)

lemma pop_writes_small:
  assumes "length key \<le> 64"
  shows "length (pop_writes mMetaPrefix key front l r) \<le> 4 \<and> weight (pop_writes mMetaPrefix key front l r) \<le> 1024"
  using length_EncodeBytes_short [OF assms(1)] length_meta_keys by (simp add: length_slot_key pop_writes_def Let_def)

text \<open>The structure that a \<open>Meta\<close> of a transaction works on.\<close>

definition meta_on :: "('x, 'it) Retriever \<Rightarrow> 'x Mutator \<Rightarrow> ('x, 'it) Meta \<Rightarrow> bool" where
  "meta_on R M m = (txn m = on_store R M mMetaPrefix)"

lemma same_but_hash_rep:
  assumes "same_but_hash key g g'" "hash_rep g key' m" "key \<noteq> key'"
  shows "hash_rep g' key' m"
proof -
  have "g' (HashSlot key' f) = g (HashSlot key' f)" "g' (HashMetaSlot key') = g (HashMetaSlot key')" for f
    using assms(1,3) by (simp_all add: same_but_hash_def)
  then show ?thesis using assms(2) by (simp add: hash_rep_def)
qed

end
