(* ===== verification/Meta_Correct.thy ===== *)
theory Meta_Correct
  imports Meta_Layout
begin

text \<open>
  What the catalogue of package \<open>meta\<close> promises: the tables of a database are a map from table IDs, and a list of
  DDL jobs is a queue.  The values that are stored are JSON; the encoder and the decoder are related by what the
  decoder gives for the bytes of a value.
\<close>

section \<open>Tables\<close>

text \<open>
  The database \<open>d\<close> exists and its tables are those of \<open>T\<close>; the hash of the database has at most \<open>n\<close> fields,
  which are tables and auto ID counters.
\<close>

definition table_fields :: "('db, 'tbl, 'diff, 'args, 'job) Json \<Rightarrow> (bytes \<rightharpoonup> bytes) \<Rightarrow> (u64 \<rightharpoonup> 'tbl TableInfo) \<Rightarrow> bool" where
  "table_fields J h T \<longleftrightarrow>
     (\<forall>f \<in> dom h. (\<exists>t. f = tableKey t) \<or> (\<exists>t. f = autoTableIDKey t)) \<and>
     (\<forall>t. rel_option (\<lambda>b info. unmarshalTable J b = (None, info)) (h (tableKey t)) (T t))"

definition tables_rep ::
  "('db, 'tbl, 'diff, 'args, 'job) Json \<Rightarrow> (slot \<Rightarrow> bytes option) \<Rightarrow> u64 \<Rightarrow> nat \<Rightarrow> (u64 \<rightharpoonup> 'tbl TableInfo) \<Rightarrow> bool" where
  "tables_rep J g d n T \<longleftrightarrow>
     (\<exists>md h. hash_rep g mDBs md \<and> md (dbKey d) \<noteq> None \<and> hash_rep g (dbKey d) h \<and> card (dom h) \<le> n \<and> table_fields J h T)"

definition tables_now ::
  "('db, 'tbl, 'diff, 'args, 'job) Json \<Rightarrow> ('x \<Rightarrow> (bytes \<times> bytes) list \<Rightarrow> bool) \<Rightarrow> (bytes \<times> bytes) list \<Rightarrow> u64 \<Rightarrow> nat \<Rightarrow> 'x \<Rightarrow> (u64 \<rightharpoonup> 'tbl TableInfo) \<Rightarrow> bool" where
  "tables_now J rep kvs d n x T \<longleftrightarrow>
     (\<exists>kvs'. layout mMetaPrefix rep x kvs' \<and> tables_rep J (slots mMetaPrefix kvs') d n T \<and>
        same_but_hash (dbKey d) (slots mMetaPrefix kvs) (slots mMetaPrefix kvs'))"

lemma table_fields_set: "table_fields J h T \<Longrightarrow> unmarshalTable J b = (None, info) \<Longrightarrow> table_fields J (h(tableKey t \<mapsto> b)) (T(t \<mapsto> info))"
  by (simp add: table_fields_def)

lemma table_fields_delete: "table_fields J h T \<Longrightarrow> table_fields J (h(tableKey t := None)) (T(t := None))"
  by (simp add: table_fields_def)

lemma table_fields_auto: "table_fields J h T \<Longrightarrow> table_fields J (h(autoTableIDKey t := None)) T"
  by (simp add: table_fields_def)

lemma tables_none: "table_fields J h T \<Longrightarrow> h (tableKey t) = None \<longleftrightarrow> T t = None"
  unfolding table_fields_def by (metis option.rel_distinct(1,2) option.exhaust)

lemma pair_of_field_simps: "HashPair.Field (pair_of_field h f) = f" "PairValue (pair_of_field h f) = the (h f)"
  by (simp_all add: pair_of_field_def)

lemma list_tables_loop:
  assumes "table_fields J h T" "set fs \<subseteq> dom h"
  shows "\<exists>ts. map tableKey ts = filter (\<lambda>f. HasPrefix f mTablePrefix) fs \<and>
    ListTables_loop J (map (pair_of_field h) fs) acc = Inr (acc @ map (\<lambda>t. the (T t)) ts)"
  using assms(2)
proof (induction fs arbitrary: acc)
  case (Cons f fs)
  consider t where "f = tableKey t" | t where "f = autoTableIDKey t" using assms(1) Cons.prems unfolding table_fields_def by (metis insert_subset list.simps(15))
  then show ?case
  proof cases
    case (1 t)
    obtain b where b: "h (tableKey t) = Some b" using Cons.prems 1 by auto
    have "rel_option (\<lambda>b info. unmarshalTable J b = (None, info)) (h (tableKey t)) (T t)" using assms(1) by (simp add: table_fields_def)
    then obtain info where i: "T t = Some info" "unmarshalTable J b = (None, info)" unfolding b by (auto simp: option_rel_Some1)
    obtain ts where "map tableKey ts = filter (\<lambda>f. HasPrefix f mTablePrefix) fs"
      "ListTables_loop J (map (pair_of_field h) fs) (acc @ [info]) = Inr ((acc @ [info]) @ map (\<lambda>t. the (T t)) ts)"
      using Cons.IH [of "acc @ [info]"] Cons.prems by force
    then show ?thesis using 1 b i by (intro exI [of _ "t # ts"]) (simp add: pair_of_field_simps)
  next
    case (2 t)
    then show ?thesis using Cons by (simp add: pair_of_field_simps)
  qed
qed simp

context retriever_mutator
begin

lemma check_db:
  assumes "meta_on R M m" "layout mMetaPrefix rep x kvs" "hash_rep (slots mMetaPrefix kvs) mDBs md"
  shows "checkDBExists m x (dbKey d) = (if md (dbKey d) = None then Some ErrDBNotExists else None)"
  using assms(1) get_hash_rep [OF assms(2,3)] by (simp add: checkDBExists_def meta_on_def split: option.split)

lemma check_table:
  assumes "meta_on R M m" "layout mMetaPrefix rep x kvs" "hash_rep (slots mMetaPrefix kvs) (dbKey d) h"
  shows "checkTableExists m x (dbKey d) f = (if h f = None then Some ErrTableNotExists else None)"
    "checkTableNotExists m x (dbKey d) f = (if h f = None then None else Some ErrTableExists)"
  using assms(1) get_hash_rep [OF assms(2,3)] by (simp_all add: checkTableExists_def checkTableNotExists_def meta_on_def split: option.split)

lemma no_database:
  assumes "meta_on R M m" "layout mMetaPrefix rep x kvs" "hash_rep (slots mMetaPrefix kvs) mDBs md" "md (dbKey d) = None"
  shows "CreateTableOrView J m x d info = (Some ErrDBNotExists, x)" "UpdateTable J m x d info = (Some ErrDBNotExists, x)"
    "DropTableOrView m x d t del = (Some ErrDBNotExists, x)" "GetTable J m x d t = (Some ErrDBNotExists, None)"
    "ListTables J m x d = Some (Inl ErrDBNotExists)"
  using check_db [OF assms(1-3)] assms(4)
  by (simp_all add: CreateTableOrView_def UpdateTable_def DropTableOrView_def GetTable_def ListTables_def)

lemma set_table:
  assumes "layout mMetaPrefix rep x kvs" "tables_rep J (slots mMetaPrefix kvs) d n T" "n + 1 < 2 ^ 63"
    and "b \<noteq> []" "unmarshalTable J b = (None, info)" "room fits x (1024 + int (length b))"
  shows "\<exists>x'. HSet (on_store R M mMetaPrefix) x (dbKey d) (tableKey t) b = (None, x') \<and> tables_now J rep kvs d (n + 1) x' (T(t \<mapsto> info))"
proof -
  let ?g = "slots mMetaPrefix kvs"
  obtain md h where h: "hash_rep ?g mDBs md" "md (dbKey d) \<noteq> None" "hash_rep ?g (dbKey d) h" "card (dom h) \<le> n" "table_fields J h T"
    using assms(2) by (auto simp: tables_rep_def)
  have "fits x (hash_writes mMetaPrefix (dbKey d) h (tableKey t) b)"
    using assms(6) hash_writes_small [of "dbKey d" "tableKey t" h b] length_meta_keys(1) [of d] length_meta_keys(3) [of t] by (simp add: room_def)
  moreover have "card (dom h) + 1 < 2 ^ 63" using h(4) assms(3) by simp
  ultimately obtain x' kvs' where s: "HSet (on_store R M mMetaPrefix) x (dbKey d) (tableKey t) b = (None, x')" "layout mMetaPrefix rep x' kvs'"
    "hash_rep (slots mMetaPrefix kvs') (dbKey d) (h(tableKey t \<mapsto> b))" "same_but_hash (dbKey d) ?g (slots mMetaPrefix kvs')"
    using set_hash_rep [OF assms(1) h(3) assms(4)] by blast
  have "card (dom (h(tableKey t \<mapsto> b))) \<le> n + 1" using h(4) hash_repD(1) [OF h(3)] by (simp add: card_insert_if)
  moreover have "hash_rep (slots mMetaPrefix kvs') mDBs md" by (rule same_but_hash_rep [OF s(4) h(1)]) simp
  ultimately have "tables_rep J (slots mMetaPrefix kvs') d (n + 1) (T(t \<mapsto> info))"
    unfolding tables_rep_def using s(3) h(2) table_fields_set [OF h(5) assms(5), of t] by blast
  then show ?thesis using s unfolding tables_now_def by blast
qed

lemma drop_table:
  assumes "meta_on R M m" "layout mMetaPrefix rep x kvs" "tables_rep J (slots mMetaPrefix kvs) d n T" "T t \<noteq> None" "room fits x 1024"
  shows "\<exists>x'. DropTableOrView m x d t del = (None, x') \<and> tables_now J rep kvs d n x' (T(t := None))"
proof -
  let ?p = mMetaPrefix and ?S = "on_store R M mMetaPrefix" and ?g = "slots mMetaPrefix kvs" and ?t = "tableKey t" and ?a = "autoTableIDKey t"
  obtain md h where h: "hash_rep ?g mDBs md" "md (dbKey d) \<noteq> None" "hash_rep ?g (dbKey d) h" "card (dom h) \<le> n" "table_fields J h T"
    using assms(3) by (auto simp: tables_rep_def)
  have e: "h ?t \<noteq> None" "card (dom h) \<noteq> 0" using tables_none [OF h(5)] assms(4) hash_repD(1) [OF h(3)] by auto
  have r: "f |` (- set [k]) = f(k := None)" for f :: "bytes \<rightharpoonup> bytes" and k by (rule ext) (simp add: restrict_map_def)
  let ?ws = "del_writes ?p (dbKey d) (h(?t := None)) [?a] @ [meta_write ?p (dbKey d) (h(?t := None, ?a := None))]"
  have "fits x (del_writes ?p (dbKey d) h [?t] @ meta_write ?p (dbKey d) (h(?t := None)) # ?ws)"
    using assms(5) del_writes_small [of "dbKey d" ?t ?a h, OF _ _ _ e(1)] length_meta_keys(1) [of d] length_meta_keys(2) [of t] length_meta_keys(3) [of t]
    by (simp add: room_def)
  then obtain x1 kvs1 where s: "HDel ?S x (dbKey d) [?t] = (None, x1)" "layout ?p rep x1 kvs1"
    "hash_rep (slots ?p kvs1) (dbKey d) (h(?t := None))" "same_but_hash (dbKey d) ?g (slots ?p kvs1)" "fits x1 ?ws"
    using del_hash_more [OF assms(2) h(3) e(2), of "[?t]"] unfolding r by blast
  obtain x2 kvs2 where u: "HDel ?S x1 (dbKey d) [?a] = (None, x2)" "layout ?p rep x2 kvs2"
    "hash_rep (slots ?p kvs2) (dbKey d) (h(?t := None, ?a := None))" "same_but_hash (dbKey d) (slots ?p kvs1) (slots ?p kvs2)"
    using del_hash_rep [OF s(2,3), of "[?a]"] s(5) unfolding r by blast
  have "card (dom h - {?t}) \<le> card (dom h)" "card (dom h - {?t} - {?a}) \<le> card (dom h)"
    by (intro card_mono [OF hash_repD(1) [OF h(3)]]; blast)+
  then have c: "card (dom (h(?t := None))) \<le> n" "card (dom (h(?t := None, ?a := None))) \<le> n" using h(4) by auto
  have f: "table_fields J (h(?t := None)) (T(t := None))" by (rule table_fields_delete [OF h(5)])
  have g: "hash_rep (slots ?p kvs1) mDBs md" by (rule same_but_hash_rep [OF s(4) h(1)]) simp
  have "hash_rep (slots ?p kvs2) mDBs md" by (rule same_but_hash_rep [OF u(4) g]) simp
  then have "tables_rep J (slots ?p kvs2) d n (T(t := None))" "tables_rep J (slots ?p kvs1) d n (T(t := None))"
    unfolding tables_rep_def using s(3) u(3) h(2) c f table_fields_auto [OF f, of t] g by blast+
  moreover have "same_but_hash (dbKey d) ?g (slots ?p kvs2)" using s(4) u(4) by (simp add: same_but_hash_def)
  ultimately have n: "tables_now J rep kvs d n x2 (T(t := None))" "tables_now J rep kvs d n x1 (T(t := None))"
    unfolding tables_now_def using s(2,4) u(2) by blast+
  have "DropTableOrView m x d t del = (None, if del then x2 else x1)"
    using assms(1) check_db [OF assms(1,2) h(1)] check_table [OF assms(1,2) h(3)] h(2) e(1) s(1) u(1)
    by (simp add: DropTableOrView_def meta_on_def sterr_def)
  then show ?thesis using n by simp
qed

lemma list_tables:
  assumes "meta_on R M m" "layout mMetaPrefix rep x kvs" "tables_rep J (slots mMetaPrefix kvs) d n T"
  shows "\<exists>ts. sorted_wrt (\<lambda>t t'. tableKey t < tableKey t') ts \<and> set ts = dom T \<and> ListTables J m x d = Some (Inr (map (\<lambda>t. the (T t)) ts))"
proof -
  let ?g = "slots mMetaPrefix kvs"
  obtain md h where h: "hash_rep ?g mDBs md" "md (dbKey d) \<noteq> None" "hash_rep ?g (dbKey d) h" "table_fields J h T"
    using assms(3) by (auto simp: tables_rep_def)
  let ?fs = "sorted_list_of_set (dom h)"
  note fin = hash_repD(1) [OF h(3)]
  obtain ts where ts: "map tableKey ts = filter (\<lambda>f. HasPrefix f mTablePrefix) ?fs"
    "ListTables_loop J (map (pair_of_field h) ?fs) [] = Inr (map (\<lambda>t. the (T t)) ts)"
    using list_tables_loop [OF h(4), of ?fs "[]"] fin by auto
  have "sorted_wrt (<) (map tableKey ts)" unfolding ts(1) by (intro sorted_wrt_filter strict_sorted_list_of_set)
  moreover have "t \<in> set ts \<longleftrightarrow> t \<in> dom T" for t
  proof -
    have "t \<in> set ts \<longleftrightarrow> tableKey t \<in> set (map tableKey ts)" by auto
    also have "\<dots> \<longleftrightarrow> h (tableKey t) \<noteq> None" unfolding ts(1) using fin by auto
    finally show ?thesis using tables_none [OF h(4), of t] by auto
  qed
  moreover have "ListTables J m x d = Some (Inr (map (\<lambda>t. the (T t)) ts))"
    using assms(1) check_db [OF assms(1,2) h(1)] h(2) get_all_hash_rep [OF assms(2) h(3)] ts(2) by (simp add: ListTables_def meta_on_def)
  ultimately show ?thesis by (intro exI [of _ ts]) (auto simp: sorted_wrt_map)
qed

lemma get_table:
  assumes "meta_on R M m" "layout mMetaPrefix rep x kvs" "tables_rep J (slots mMetaPrefix kvs) d n T"
  shows "GetTable J m x d t = (None, T t)"
proof -
  let ?g = "slots mMetaPrefix kvs"
  obtain md h where h: "hash_rep ?g mDBs md" "md (dbKey d) \<noteq> None" "hash_rep ?g (dbKey d) h" "table_fields J h T"
    using assms(3) by (auto simp: tables_rep_def)
  have "rel_option (\<lambda>b info. unmarshalTable J b = (None, info)) (h (tableKey t)) (T t)" using h(4) by (simp add: table_fields_def)
  then show ?thesis using assms(1) check_db [OF assms(1,2) h(1)] h(2) get_hash_rep [OF assms(2) h(3), of "tableKey t"]
    by (cases rule: option.rel_cases) (auto simp: GetTable_def meta_on_def)
qed

end

text \<open>C16: The tables of a database behave as a map from table IDs to table descriptions.  \<open>CreateTableOrView\<close> adds a table
  that is not there and fails for one that is, \<open>UpdateTable\<close> replaces one that is there and fails otherwise,
  \<open>DropTableOrView\<close> removes one, with its auto ID counter or without, and fails for one that is not there,
  \<open>GetTable\<close> reads one and \<open>ListTables\<close> all of them; a call that fails changes nothing, and one that succeeds
  changes nothing but the hash of this database.\<close>

theorem table_catalogue:
  assumes "retriever_mutator R rep left M fits" "meta_on R M m" "layout mMetaPrefix rep x kvs"
    and "tables_rep J (slots mMetaPrefix kvs) d n T" "n + 1 < 2 ^ 63"
    and "marshalTable J info = Some b" "b \<noteq> []" "unmarshalTable J b = (None, info)" "room fits x (1024 + int (length b))"
  defines "i \<equiv> tbl_ID info"
  shows "(if T i = None then \<exists>x'. CreateTableOrView J m x d info = (None, x') \<and> tables_now J rep kvs d (n + 1) x' (T(i \<mapsto> info))
      else CreateTableOrView J m x d info = (Some ErrTableExists, x)) \<and>
    (if T i = None then UpdateTable J m x d info = (Some ErrTableNotExists, x)
      else \<exists>x'. UpdateTable J m x d info = (None, x') \<and> tables_now J rep kvs d (n + 1) x' (T(i \<mapsto> info))) \<and>
    (if T t = None then DropTableOrView m x d t del = (Some ErrTableNotExists, x)
      else \<exists>x'. DropTableOrView m x d t del = (None, x') \<and> tables_now J rep kvs d n x' (T(t := None))) \<and>
    GetTable J m x d t = (None, T t) \<and>
    (\<exists>ts. sorted_wrt (\<lambda>t t'. tableKey t < tableKey t') ts \<and> set ts = dom T \<and> ListTables J m x d = Some (Inr (map (\<lambda>t. the (T t)) ts)))"
proof -
  let ?g = "slots mMetaPrefix kvs"
  obtain md h where h: "hash_rep ?g mDBs md" "md (dbKey d) \<noteq> None" "hash_rep ?g (dbKey d) h" "table_fields J h T"
    using assms(4) by (auto simp: tables_rep_def)
  note c = retriever_mutator.check_db [OF assms(1-3) h(1)] retriever_mutator.check_table [OF assms(1-3) h(3)]
  note s = retriever_mutator.set_table [OF assms(1,3-5,7-9)]
  have "room fits x 1024" using assms(9) by (auto simp: room_def)
  note d = retriever_mutator.drop_table [OF assms(1-4) _ this]
  show ?thesis
  proof (intro conjI)
    show "if T i = None then \<exists>x'. CreateTableOrView J m x d info = (None, x') \<and> tables_now J rep kvs d (n + 1) x' (T(i \<mapsto> info))
      else CreateTableOrView J m x d info = (Some ErrTableExists, x)"
      using s [of i] c(1) [of d] c(2,3) [of "tableKey i"] h(2) tables_none [OF h(4), of i] assms(2,6)
      by (cases "T i = None") (auto simp: CreateTableOrView_def i_def meta_on_def sterr_def)
    show "if T i = None then UpdateTable J m x d info = (Some ErrTableNotExists, x)
      else \<exists>x'. UpdateTable J m x d info = (None, x') \<and> tables_now J rep kvs d (n + 1) x' (T(i \<mapsto> info))"
      using s [of i] c(1) [of d] c(2,3) [of "tableKey i"] h(2) tables_none [OF h(4), of i] assms(2,6)
      by (cases "T i = None") (auto simp: UpdateTable_def i_def meta_on_def sterr_def)
    show "if T t = None then DropTableOrView m x d t del = (Some ErrTableNotExists, x)
      else \<exists>x'. DropTableOrView m x d t del = (None, x') \<and> tables_now J rep kvs d n x' (T(t := None))"
      using d [of t del] c(1) [of d] c(2) [of "tableKey t"] h(2) tables_none [OF h(4), of t] by (cases "T t = None") (auto simp: DropTableOrView_def)
  qed (rule retriever_mutator.get_table [OF assms(1-4)] retriever_mutator.list_tables [OF assms(1-4)])+
qed

section \<open>The queue of DDL jobs\<close>

text \<open>The bytes of a job give the job back, whatever the priority of the job that is filled.\<close>

definition job_of :: "('db, 'tbl, 'diff, 'args, 'job) Json \<Rightarrow> bytes \<Rightarrow> ('args, 'job) Job \<Rightarrow> bool" where
  "job_of J b job \<longleftrightarrow> b \<noteq> [] \<and> (\<forall>pr. unmarshalJob J b ((zeroJob J)\<lparr>job_Priority := pr\<rparr>) = (None, job))"

definition queue_rep ::
  "('db, 'tbl, 'diff, 'args, 'job) Json \<Rightarrow> (slot \<Rightarrow> bytes option) \<Rightarrow> bytes \<Rightarrow> int \<Rightarrow> int \<Rightarrow> ('args, 'job) Job list \<Rightarrow> bool" where
  "queue_rep J g key l r jobs \<longleftrightarrow> (\<exists>bs. list_rep g key l r bs \<and> list_all2 (job_of J) bs jobs)"

definition queue_now ::
  "('db, 'tbl, 'diff, 'args, 'job) Json \<Rightarrow> ('x \<Rightarrow> (bytes \<times> bytes) list \<Rightarrow> bool) \<Rightarrow> (bytes \<times> bytes) list \<Rightarrow> bytes \<Rightarrow> 'x \<Rightarrow> ('args, 'job) Job list \<Rightarrow> bool" where
  "queue_now J rep kvs key x jobs \<longleftrightarrow>
     (\<exists>kvs' l r. layout mMetaPrefix rep x kvs' \<and> queue_rep J (slots mMetaPrefix kvs') key l r jobs \<and>
        same_but_list key (slots mMetaPrefix kvs) (slots mMetaPrefix kvs'))"

text \<open>\<open>GetDDLJobByIdx\<close> makes a priority that is none of the three the low one.\<close>

definition with_priority :: "('args, 'job) Job \<Rightarrow> ('args, 'job) Job" where
  "with_priority job = (if job_Priority job < PriorityNormal \<or> job_Priority job > PriorityHigh then job\<lparr>job_Priority := PriorityLow\<rparr> else job)"

lemma job_of_decode: "job_of J b job \<Longrightarrow> job_Decode J (zeroJob J) b = (None, job)"
  unfolding job_of_def job_Decode_def by (metis Job.surjective Job.update_convs(6))

lemma decode_all: "list_all2 (job_of J) bs jobs \<Longrightarrow> decode_jobs J bs acc = Inr (acc @ jobs)"
  by (induction bs jobs arbitrary: acc rule: list_all2_induct) (simp_all add: job_of_decode)

context retriever_mutator
begin

lemma enqueue_job:
  assumes "meta_on R M m" "layout mMetaPrefix rep x kvs" "queue_rep J (slots mMetaPrefix kvs) key l r jobs" "length key \<le> 64"
    and "job_Encode J job True = (Inr b, job')" "job_of J b j" "room fits x (1024 + int (length b))" "index_ok (r + 1)"
  shows "\<exists>x'. enQueueDDLJob J m x key job = (None, job', x') \<and> queue_now J rep kvs key x' (jobs @ [j])"
proof -
  obtain bs where bs: "list_rep (slots mMetaPrefix kvs) key l r bs" "list_all2 (job_of J) bs jobs" using assms(3) by (auto simp: queue_rep_def)
  have f: "fits x (push_writes mMetaPrefix key False l r [b])" using assms(7) push_writes_small [OF assms(4), of False l r b] by (simp only: room_def)
  have o: "index_ok (push_l False l [b])" "index_ok (push_r False r [b])" using assms(8) list_repD(3) [OF bs(1)] by (simp_all add: push_defs)
  have "[b] \<noteq> []" "\<forall>v \<in> set [b]. v \<noteq> []" using assms(6) by (simp_all add: job_of_def)
  from push_rep [OF assms(2) bs(1) o this f] obtain x' kvs' where p: "listPush (on_store R M mMetaPrefix) x key False [b] = (None, x')"
    "layout mMetaPrefix rep x' kvs'" "list_rep (slots mMetaPrefix kvs') key (push_l False l [b]) (push_r False r [b]) (bs @ [b])"
    "same_but_list key (slots mMetaPrefix kvs) (slots mMetaPrefix kvs')" by (auto simp: push_to_def)
  have "list_all2 (job_of J) (bs @ [b]) (jobs @ [j])" using bs(2) assms(6) by (simp add: list_all2_appendI)
  then have "queue_now J rep kvs key x' (jobs @ [j])" unfolding queue_now_def queue_rep_def using p(2-4) by blast
  then show ?thesis using p(1) assms(1,5) by (simp add: enQueueDDLJob_def meta_on_def RPush_def sterr_def)
qed

lemma dequeue_job:
  assumes "meta_on R M m" "layout mMetaPrefix rep x kvs" "queue_rep J (slots mMetaPrefix kvs) key l r (j # jobs)" "length key \<le> 64" "room fits x 1024"
  shows "\<exists>x'. deQueueDDLJob J m x key = ((None, Some j), x') \<and> queue_now J rep kvs key x' jobs"
proof -
  obtain b bs where bs: "list_rep (slots mMetaPrefix kvs) key l r (b # bs)" "job_of J b j" "list_all2 (job_of J) bs jobs"
    using assms(3) by (auto simp: queue_rep_def list_all2_Cons2)
  have "fits x (pop_writes mMetaPrefix key True l r)" using assms(5) pop_writes_small [OF assms(4), of True l r] by (simp only: room_def)
  from pop_rep [OF assms(2) bs(1) _ this] obtain x' kvs' l' r' where p: "listPop (on_store R M mMetaPrefix) x key True = ((None, Some b), x')"
    "layout mMetaPrefix rep x' kvs'" "list_rep (slots mMetaPrefix kvs') key l' r' bs" "same_but_list key (slots mMetaPrefix kvs) (slots mMetaPrefix kvs')"
    by (auto simp: pop_defs)
  have "queue_now J rep kvs key x' jobs" unfolding queue_now_def queue_rep_def using p(2-4) bs(3) by blast
  then show ?thesis using p(1) assms(1) job_of_decode [OF bs(2)] by (simp add: deQueueDDLJob_def meta_on_def LPop_def)
qed

lemma dequeue_empty:
  assumes "meta_on R M m" "layout mMetaPrefix rep x kvs" "queue_rep J (slots mMetaPrefix kvs) key l r []"
  shows "deQueueDDLJob J m x key = ((None, None), x)"
  using assms pop_empty [OF assms(2)] by (auto simp: queue_rep_def deQueueDDLJob_def meta_on_def LPop_def)

lemma read_jobs:
  assumes "meta_on R M m" "layout mMetaPrefix rep x kvs" "queue_rep J (slots mMetaPrefix kvs) key l r jobs" "24 * length jobs \<le> 2 ^ 48" "i \<le> length jobs"
  shows "LLen (txn m) x key = (None, of_nat (length jobs))"
    "map_option (map_sum id (\<lambda>bs. decode_jobs J bs [])) (LGetAll (txn m) x key) = Some (Inr (Inr (rev jobs)))"
    "getDDLJob J m x key (of_nat i) = (None, if i < length jobs then Some (with_priority (jobs ! i)) else None)"
proof -
  obtain bs where bs: "list_rep (slots mMetaPrefix kvs) key l r bs" "list_all2 (job_of J) bs jobs" using assms(3) by (auto simp: queue_rep_def)
  note len = list_all2_lengthD [OF bs(2)] and q = list_repD [OF bs(1)]
  show "LLen (txn m) x key = (None, of_nat (length jobs))" using len_rep [OF assms(2) bs(1)] len assms(1) by (simp add: meta_on_def)
  have "list_all2 (job_of J) (rev bs) (rev jobs)" using bs(2) by simp
  then show "map_option (map_sum id (\<lambda>bs. decode_jobs J bs [])) (LGetAll (txn m) x key) = Some (Inr (Inr (rev jobs)))"
    using get_all_rep [OF assms(2) bs(1)] assms(1,4) len decode_all [of J "rev bs" "rev jobs" "[]"] by (simp add: meta_on_def)
  have "index_ok (int i)" using assms(4,5) by (simp add: index_ok_def)
  moreover have "index_ok (l + int i)" using assms(5) len q(2) by (intro index_ok_between [OF q(3,4)]) simp_all
  ultimately have g: "LIndex (txn m) x key (of_nat i) = Inr (if i < length bs then Some (bs ! i) else None)"
    using index_rep [OF assms(2) bs(1), of "int i" "int i"] assms(1) by (simp add: meta_on_def idx_def)
  show "getDDLJob J m x key (of_nat i) = (None, if i < length jobs then Some (with_priority (jobs ! i)) else None)"
  proof (cases "i < length jobs")
    case True
    then have "job_of J (bs ! i) (jobs ! i)" using list_all2_nthD2 [OF bs(2)] by simp
    then show ?thesis using g True len by (simp add: getDDLJob_def job_of_def job_Decode_def with_priority_def Let_def)
  next
    case False
    then show ?thesis using g len by (simp add: getDDLJob_def)
  qed
qed

lemma update_job:
  assumes "meta_on R M m" "layout mMetaPrefix rep x kvs" "queue_rep J (slots mMetaPrefix kvs) key l r jobs" "length key \<le> 64" "24 * length jobs \<le> 2 ^ 48"
    and "job_Encode J job raw = (Inr b, job')" "job_of J b j" "room fits x (1024 + int (length b))" "i < length jobs"
  shows "\<exists>x'. updateDDLJob J m x (of_nat i) job key raw = (None, job', x') \<and> queue_now J rep kvs key x' (jobs[i := j])"
proof -
  obtain bs where bs: "list_rep (slots mMetaPrefix kvs) key l r bs" "list_all2 (job_of J) bs jobs" using assms(3) by (auto simp: queue_rep_def)
  note len = list_all2_lengthD [OF bs(2)] and q = list_repD [OF bs(1)]
  have o: "index_ok (int i)" "index_ok (if 0 \<le> int i then l + int i else r + int i)"
    using assms(5,9) len q(2) index_ok_between [OF q(3,4), of "l + int i"] by (simp_all add: index_ok_def)
  have "length [(slot_key mMetaPrefix (ListSlot key (idx (l + int i))), b)] \<le> 4 \<and>
      weight [(slot_key mMetaPrefix (ListSlot key (idx (l + int i))), b)] \<le> 1024 + int (length b)"
    using length_EncodeBytes_short [OF assms(4)] length_meta_keys(4) by (simp add: length_slot_key)
  then have "fits x [(slot_key mMetaPrefix (ListSlot key (idx (l + int i))), b)]" using assms(8) by (simp only: room_def)
  from set_index_rep(3) [OF assms(2) bs(1) o _ _ this] obtain x' kvs' where s: "LSet (on_store R M mMetaPrefix) x key (idx (int i)) b = (None, x')"
    "layout mMetaPrefix rep x' kvs'" "list_rep (slots mMetaPrefix kvs') key l r (bs[i := b])" "same_but_list key (slots mMetaPrefix kvs) (slots mMetaPrefix kvs')"
    using assms(7,9) len by (auto simp: job_of_def)
  have "list_all2 (job_of J) (bs[i := b]) (jobs[i := j])" using bs(2) assms(7) by (simp add: list_all2_update_cong)
  then have "queue_now J rep kvs key x' (jobs[i := j])" unfolding queue_now_def queue_rep_def using s(2-4) by blast
  then show ?thesis using s(1) assms(1,6) by (simp add: updateDDLJob_def meta_on_def sterr_def idx_def)
qed

end

section \<open>A catalogue for the examples\<close>

text \<open>The stores of the examples are in-memory snapshots of sorted lists of pairs.\<close>

definition storable_kvs :: "(bytes \<times> bytes) list \<Rightarrow> bool" where
  "storable_kvs kvs \<longleftrightarrow> sorted_wrt (<) (map fst kvs) \<and> list_all (\<lambda>(k, v). v \<noteq> [] \<and> length k < 2 ^ 16 \<and> length v < 2 ^ 32) kvs \<and> length kvs < 2 ^ 20"

definition ex_load :: "(bytes \<times> bytes) list \<Rightarrow> memDbBuffer option" where
  "ex_load kvs =
     (if storable_kvs kvs then
        map_option (\<lambda>db. \<lparr>mb_db = db, entrySizeLimit = TxnEntrySizeLimit, bufferSizeLimit = 0\<rparr>)
          (run_ops (map (\<lambda>(k, v). OpPut (\<lambda>_. 0) k v) kvs) (New 64))
      else None)"

lemma fold_puts:
  "fold spec_op (map (\<lambda>(k, v). OpPut r k v) kvs) f = f ++ map_of (rev kvs)"
  by (induction kvs arbitrary: f) (auto simp: map_add_def fun_eq_iff split: option.splits)

lemma ex_load_rep:
  assumes "storable_kvs kvs" shows "\<exists>snap. ex_load kvs = Some snap \<and> mock_rep snap kvs"
proof -
  let ?ops = "map (\<lambda>(k, v). OpPut (\<lambda>_. 0) k v) kvs"
  have ok: "\<forall>x \<in> set ?ops. op_ok x" "length (blocks (d_arena (New 64))) + length ?ops < 2 ^ 32 - 1"
    using assms by (auto simp: storable_kvs_def list_all_iff New_def newArenaLocator_def)
  have n: "db_rep (New 64) []" by (rule New_rep) simp_all
  obtain db kvs' where r: "run_ops ?ops (New 64) = Some db" "db_rep db kvs'" "map_of kvs' = fold spec_op ?ops Map.empty"
    using run_ops_rep [OF n ok(2,1)] by auto
  have s: "sorted_wrt (<) (map fst kvs)" using assms by (simp add: storable_kvs_def)
  then have "distinct (map fst kvs)" by (auto intro: before_distinct simp: sorted_before)
  then have "map_of (rev kvs) = map_of kvs" by (rule map_of_rev)
  then have "map_of kvs' = map_of kvs" using r(3) by (simp add: fold_puts)
  then have "kvs' = kvs" using sorted_map_unique [of False kvs' kvs] s rep_sorted [OF r(2)] by (simp add: sorted_before)
  then show ?thesis using assms r(1,2) by (auto simp: ex_load_def mock_rep_def storable_kvs_def list_all_iff)
qed

lemma weight_member: "(k, v) \<in> set ws \<Longrightarrow> int (length k) + int (length v) \<le> weight ws"
  by (induction ws) (use weight_nonneg in \<open>fastforce\<close>)+

text \<open>A catalogue with one database that has one table.\<close>

definition ex_slots :: "(slot \<times> bytes) list" where
  "ex_slots = [(HashMetaSlot (dbKey 1), PutUint64 1), (HashSlot (dbKey 1) (tableKey 2), [2]),
     (HashMetaSlot mDBs, PutUint64 1), (HashSlot mDBs (dbKey 1), [1])]"

definition ex_kvs :: "(bytes \<times> bytes) list" where
  "ex_kvs = map (\<lambda>(s, v). (slot_key mMetaPrefix s, v)) ex_slots"

lemma slots_map: "slots p (map (\<lambda>(s, v). (slot_key p s, v)) L) s = map_of L s"
  by (induction L) (auto simp: slots_def slot_key_inj)

lemma ex_kvs_storable: "storable_kvs ex_kvs"
proof -
  have "sorted_wrt (<) (map fst ex_kvs)" by code_simp
  moreover have "length (dbKey 1) \<le> 23" "length (tableKey 2) \<le> 26" "length mDBs = 3" "length mMetaPrefix = 1"
    using length_id_key [of mDBPrefix 1] length_id_key [of mTablePrefix 2]
    by (simp_all add: dbKey_def tableKey_def mDBPrefix_def mTablePrefix_def mDBs_def mMetaPrefix_def str_def)
  moreover have "length (dbKey 1) div 8 * 9 \<le> 30" "length (tableKey 2) div 8 * 9 \<le> 30" using calculation by linarith+
  ultimately show ?thesis by (simp add: storable_kvs_def ex_kvs_def ex_slots_def length_slot_key EncodeBytes_groups length_groups)
qed

lemma ex_kvs_slots: "slots mMetaPrefix ex_kvs = map_of ex_slots"
  by (rule ext) (simp add: ex_kvs_def slots_map)

lemma ex_kvs_hashes:
  "hash_rep (slots mMetaPrefix ex_kvs) mDBs [dbKey 1 \<mapsto> [1]]" "hash_rep (slots mMetaPrefix ex_kvs) (dbKey 1) [tableKey 2 \<mapsto> [2]]"
  by (auto simp: ex_kvs_slots hash_rep_def hash_count_def ex_slots_def)

text \<open>A transaction on a store has room for a few writes.\<close>

lemma ex_transaction_room:
  assumes "mock_rep snap kvs"
  defines "x \<equiv> NewUnionStore 0x100000 (\<lambda>_ _. 0) snap"
  shows "us_rep mock_rep x kvs" "room us_fits x 2048"
proof -
  show "us_rep mock_rep x kvs" unfolding x_def using assms(1) ex_buffer(2) by blast
  have "us_fits x ws" if "length ws \<le> 4" "weight ws \<le> 2048" for ws
    using that weight_member [of _ _ ws] unfolding x_def
    by (fastforce simp: us_fits_def NewUnionStore_def NewBufferStore_buf_def buf_fits_def DefaultTxnMembufCap_def lazy_Size_def buf_blocks_def TxnEntrySizeLimit_def)
  then show "room us_fits x 2048" by (simp add: room_def)
qed

lemma ex_kvs_layout: "us_rep mock_rep x ex_kvs \<Longrightarrow> layout mMetaPrefix (us_rep mock_rep) x ex_kvs"
  by (auto simp: layout_def ex_kvs_def ex_slots_def split: if_splits)

lemma ex_meta_store: "\<exists>x. layout mMetaPrefix (us_rep mock_rep) x ex_kvs \<and> room us_fits x 2048"
  using ex_load_rep [OF ex_kvs_storable] ex_transaction_room ex_kvs_layout by blast

text \<open>A codec that keeps the ID of a value, and the catalogue in a transaction of the union store.\<close>

definition ex_json :: "(unit, unit, unit, unit, unit) Json" where
  "ex_json =
     \<lparr>marshalDB = (\<lambda>d. Some [ucast (db_ID d)]), unmarshalDB = (\<lambda>b. (None, \<lparr>db_ID = ucast (hd b), db_Rest = ()\<rparr>)),
      marshalTable = (\<lambda>t. Some [ucast (tbl_ID t)]), unmarshalTable = (\<lambda>b. (None, \<lparr>tbl_ID = ucast (hd b), tbl_Rest = ()\<rparr>)),
      marshalDiff = (\<lambda>d. Some [ucast (Version d)]), unmarshalDiff = (\<lambda>b. (None, \<lparr>Version = ucast (hd b), diff_Rest = ()\<rparr>)),
      marshalArgs = (\<lambda>_. Some [1]), marshalJob = (\<lambda>job. Some [ucast (ID job)]),
      unmarshalJob = (\<lambda>b job. (None, job\<lparr>ID := ucast (hd b), job_Priority := 0\<rparr>)),
      zeroJob = \<lparr>ID = 0, TableID = 0, Args = (), RawArgs = [], ReorgMeta = None, job_Priority = 0, job_Rest = ()\<rparr>\<rparr>"

definition ex_meta :: "(memDbBuffer unionStore, (bufferIter, memDbIter) UnionIter) Meta" where
  "ex_meta = \<lparr>txn = on_store (unionStore_retriever mockSnapshot) unionStore_mutator mMetaPrefix, StartTS = 0, jobListKey = DefaultJobListKey\<rparr>"

theorem table_catalogue_witness:
  "\<exists>x x'. GetTable ex_json ex_meta x 1 2 = (None, Some \<lparr>tbl_ID = 2, tbl_Rest = ()\<rparr>) \<and>
     CreateTableOrView ex_json ex_meta x 1 \<lparr>tbl_ID = 3, tbl_Rest = ()\<rparr> = (None, x') \<and>
     tables_now ex_json (us_rep mock_rep) ex_kvs 1 2 x' [2 \<mapsto> \<lparr>tbl_ID = 2, tbl_Rest = ()\<rparr>, 3 \<mapsto> \<lparr>tbl_ID = 3, tbl_Rest = ()\<rparr>]"
proof -
  let ?T = "[2 \<mapsto> \<lparr>tbl_ID = 2, tbl_Rest = ()\<rparr>]" and ?i = "\<lparr>tbl_ID = 3, tbl_Rest = ()\<rparr>"
  obtain x where x: "layout mMetaPrefix (us_rep mock_rep) x ex_kvs" "room us_fits x 2048" using ex_meta_store by blast
  have "table_fields ex_json [tableKey 2 \<mapsto> [2]] ?T" by (simp add: table_fields_def ex_json_def)
  then have "tables_rep ex_json (slots mMetaPrefix ex_kvs) 1 1 ?T" unfolding tables_rep_def
    using ex_kvs_hashes by (intro exI [of _ "[dbKey 1 \<mapsto> [1]]"] exI [of _ "[tableKey 2 \<mapsto> [2]]"]) simp
  moreover have m: "meta_on (unionStore_retriever mockSnapshot) unionStore_mutator ex_meta" by (simp add: meta_on_def ex_meta_def)
  moreover have "marshalTable ex_json ?i = Some [3]" "[3 :: byte] \<noteq> []" "unmarshalTable ex_json [3] = (None, ?i)" by (simp_all add: ex_json_def)
  moreover have "room us_fits x (1024 + int (length [3 :: byte]))" using x(2) by (simp add: room_def)
  ultimately have "GetTable ex_json ex_meta x 1 2 = (None, ?T 2) \<and>
      (\<exists>x'. CreateTableOrView ex_json ex_meta x 1 ?i = (None, x') \<and> tables_now ex_json (us_rep mock_rep) ex_kvs 1 (1 + 1) x' (?T(3 \<mapsto> ?i)))"
    using table_catalogue [OF ustore.retriever_mutator_axioms m x(1), of ex_json 1 1 ?T ?i "[3]" 2] by simp
  then show ?thesis unfolding one_add_one by auto
qed

text \<open>C17: A list of DDL jobs is a queue.  \<open>EnQueueDDLJob\<close> appends a job, \<open>DeQueueDDLJob\<close> returns and removes the job
  that was enqueued first, or returns none from an empty queue; \<open>DDLJobQueueLen\<close> gives the number of jobs,
  \<open>GetDDLJobByIdx\<close> the job at a position, \<open>UpdateDDLJob\<close> replaces it, and \<open>GetAllDDLJobsInQueue\<close> gives all
  jobs, the last one first; the changes touch no more than the list.\<close>

theorem ddl_queue:
  assumes "retriever_mutator R rep left M fits" "meta_on R M m" "layout mMetaPrefix rep x kvs"
    and "queue_rep J (slots mMetaPrefix kvs) (jobListKey m) l r jobs" "length (jobListKey m) \<le> 64" "list_key m ks = jobListKey m"
    and "job_Encode J job True = (Inr b, job')" "job_of J b j" "room fits x (1024 + int (length b))"
    and "index_ok (r + 1)" "24 * length jobs \<le> 2 ^ 48" "i \<le> length jobs"
  defines "now \<equiv> queue_now J rep kvs (jobListKey m)"
  shows "(\<exists>x'. EnQueueDDLJob J m x job ks = (None, job', x') \<and> now x' (jobs @ [j])) \<and>
    (case jobs of
       [] \<Rightarrow> DeQueueDDLJob J m x = ((None, None), x)
     | j1 # jobs1 \<Rightarrow> \<exists>x'. DeQueueDDLJob J m x = ((None, Some j1), x') \<and> now x' jobs1) \<and>
    DDLJobQueueLen m x ks = (None, of_nat (length jobs)) \<and>
    GetDDLJobByIdx J m x (of_nat i) ks = (None, if i < length jobs then Some (with_priority (jobs ! i)) else None) \<and>
    (i < length jobs \<longrightarrow> (\<exists>x'. UpdateDDLJob J m x (of_nat i) job True ks = (None, job', x') \<and> now x' (jobs[i := j]))) \<and>
    GetAllDDLJobsInQueue J m x ks = Some (Inr (rev jobs))"
proof (intro conjI)
  note rm = assms(1-4) and reads = retriever_mutator.read_jobs [OF assms(1-4,11,12)]
  have r: "room fits x 1024" using assms(9) by (auto simp: room_def)
  show "\<exists>x'. EnQueueDDLJob J m x job ks = (None, job', x') \<and> now x' (jobs @ [j])"
    using retriever_mutator.enqueue_job [OF assms(1-5,7-10)] assms(6) by (simp add: EnQueueDDLJob_def now_def)
  show "case jobs of [] \<Rightarrow> DeQueueDDLJob J m x = ((None, None), x)
     | j1 # jobs1 \<Rightarrow> \<exists>x'. DeQueueDDLJob J m x = ((None, Some j1), x') \<and> now x' jobs1"
    using retriever_mutator.dequeue_empty [OF assms(1-3)] retriever_mutator.dequeue_job [OF assms(1-3) _ assms(5) r] assms(4)
    by (auto simp: DeQueueDDLJob_def now_def split: list.split)
  show "DDLJobQueueLen m x ks = (None, of_nat (length jobs))" using reads(1) assms(6) by (simp add: DDLJobQueueLen_def sterr_def)
  show "GetDDLJobByIdx J m x (of_nat i) ks = (None, if i < length jobs then Some (with_priority (jobs ! i)) else None)"
    using reads(3) assms(6) by (simp add: GetDDLJobByIdx_def)
  show "i < length jobs \<longrightarrow> (\<exists>x'. UpdateDDLJob J m x (of_nat i) job True ks = (None, job', x') \<and> now x' (jobs[i := j]))"
    using retriever_mutator.update_job [OF assms(1-5,11,7-9)] assms(6) by (simp add: UpdateDDLJob_def now_def)
  show "GetAllDDLJobsInQueue J m x ks = Some (Inr (rev jobs))"
    using reads(2) assms(6) by (auto simp: GetAllDDLJobsInQueue_def split: sum.splits option.splits)
qed

theorem ddl_queue_witness:
  "\<exists>x x'. EnQueueDDLJob ex_json ex_meta x ((zeroJob ex_json)\<lparr>ID := 7\<rparr>) [] = (None, (zeroJob ex_json)\<lparr>ID := 7, RawArgs := [1]\<rparr>, x') \<and>
     queue_now ex_json (us_rep mock_rep) ex_kvs DefaultJobListKey x' [(zeroJob ex_json)\<lparr>ID := 7\<rparr>]"
proof -
  let ?j = "(zeroJob ex_json)\<lparr>ID := 7\<rparr>"
  obtain x where x: "layout mMetaPrefix (us_rep mock_rep) x ex_kvs" "room us_fits x 2048" using ex_meta_store by blast
  have "queue_rep ex_json (slots mMetaPrefix ex_kvs) (jobListKey ex_meta) 0 0 []"
    by (auto simp: queue_rep_def ex_kvs_slots ex_slots_def list_rep_def items_def index_ok_def)
  moreover have m: "meta_on (unionStore_retriever mockSnapshot) unionStore_mutator ex_meta" by (simp add: meta_on_def ex_meta_def)
  moreover have "job_Encode ex_json ?j True = (Inr [7], ?j\<lparr>RawArgs := [1]\<rparr>)" "job_of ex_json [7] ?j"
    by (simp_all add: ex_json_def job_Encode_def job_of_def)
  moreover have "room us_fits x (1024 + int (length [7 :: byte]))" using x(2) by (simp add: room_def)
  moreover have "jobListKey ex_meta = DefaultJobListKey" "length DefaultJobListKey \<le> 64" "list_key ex_meta [] = jobListKey ex_meta"
    by (simp_all add: ex_meta_def list_key_def DefaultJobListKey_def mDDLJobListKey_def str_def)
  ultimately show ?thesis
    using ddl_queue [OF ustore.retriever_mutator_axioms m x(1), of ex_json 0 0 "[]" "[]" ?j "[7]" "?j\<lparr>RawArgs := [1]\<rparr>" ?j 0] by (auto simp: index_ok_def)
qed

end
