(* ===== verification/Kv_Txn.thy ===== *)
theory Kv_Txn
  imports Kv_Store
begin

text \<open>
  Running a function in a new transaction (\<open>kv/txn.go\<close>).  The storage is used through its interface; the
  function works on a transaction \<open>'x\<close> and on the variables \<open>'v\<close> of its caller.
\<close>

record ('st, 'x) Storage =
  st_Begin :: "'st \<Rightarrow> (kv_error + 'x) \<times> 'st"
  st_Commit :: "'x \<Rightarrow> 'st \<Rightarrow> kv_error option \<times> 'st"
  st_Rollback :: "'x \<Rightarrow> 'st \<Rightarrow> kv_error option \<times> 'st"

definition maxRetryCnt :: nat where "maxRetryCnt = 100"

text \<open>
  The errors of the function are \<open>'e\<close>: \<open>kverr\<close> makes one of an error of the storage and \<open>retry\<close> says which
  ones \<open>IsTxnRetryableError\<close> accepts.  \<open>BackOff\<close> only sleeps; the error of \<open>Rollback\<close> is logged.
\<close>

fun RunInNewTxn_loop ::
  "('st, 'x) Storage \<Rightarrow> (kv_error \<Rightarrow> 'e) \<Rightarrow> ('e \<Rightarrow> bool) \<Rightarrow> bool \<Rightarrow> ('v \<Rightarrow> 'x \<Rightarrow> 'e option \<times> 'v \<times> 'x) \<Rightarrow>
     nat \<Rightarrow> 'e option \<Rightarrow> 'v \<Rightarrow> 'st \<Rightarrow> 'e option \<times> 'v \<times> 'st" where
  "RunInNewTxn_loop S kverr retry retryable f 0 err v st = (err, v, st)"
| "RunInNewTxn_loop S kverr retry retryable f (Suc n) err v st =
     (case st_Begin S st of
        (Inl e, st) \<Rightarrow> (Some (kverr e), v, st)
      | (Inr x, st) \<Rightarrow>
          (case f v x of
             (Some e, v, x) \<Rightarrow>
               (let (_, st) = st_Rollback S x st in
                if retryable \<and> retry e then RunInNewTxn_loop S kverr retry retryable f n (Some e) v st
                else (Some e, v, st))
           | (None, v, x) \<Rightarrow>
               (case st_Commit S x st of
                  (None, st) \<Rightarrow> (None, v, st)
                | (Some e, st) \<Rightarrow>
                    if retryable \<and> retry (kverr e) then RunInNewTxn_loop S kverr retry retryable f n (Some (kverr e)) v st
                    else (Some (kverr e), v, st))))"

definition RunInNewTxn ::
  "('st, 'x) Storage \<Rightarrow> (kv_error \<Rightarrow> 'e) \<Rightarrow> ('e \<Rightarrow> bool) \<Rightarrow> bool \<Rightarrow> ('v \<Rightarrow> 'x \<Rightarrow> 'e option \<times> 'v \<times> 'x) \<Rightarrow>
     'v \<Rightarrow> 'st \<Rightarrow> 'e option \<times> 'v \<times> 'st" where
  "RunInNewTxn S kverr retry retryable f v st = RunInNewTxn_loop S kverr retry retryable f maxRetryCnt None v st"

section \<open>What a run does to the storage\<close>

text \<open>
  A property of the stored state that every attempt keeps holds after the run, and what an attempt that
  commits establishes holds when the run succeeds.
\<close>

lemma RunInNewTxn_rule:
  assumes "P st"
    and "\<And>st st' e. P st \<Longrightarrow> st_Begin S st = (Inl e, st') \<Longrightarrow> P st'"
    and "\<And>st st' x v e v' x' r st''. P st \<Longrightarrow> st_Begin S st = (Inr x, st') \<Longrightarrow> f v x = (Some e, v', x') \<Longrightarrow>
      st_Rollback S x' st' = (r, st'') \<Longrightarrow> P st''"
    and "\<And>st st' x v v' x' e st''. P st \<Longrightarrow> st_Begin S st = (Inr x, st') \<Longrightarrow> f v x = (None, v', x') \<Longrightarrow>
      st_Commit S x' st' = (Some e, st'') \<Longrightarrow> P st''"
    and "\<And>st st' x v v' x' st''. P st \<Longrightarrow> st_Begin S st = (Inr x, st') \<Longrightarrow> f v x = (None, v', x') \<Longrightarrow>
      st_Commit S x' st' = (None, st'') \<Longrightarrow> Q v' st''"
    and "RunInNewTxn S kverr retry retryable f v st = (err, v', st')"
  shows "if err = None then Q v' st' else P st'"
proof -
  have "if err = None then Q v' st' else P st'"
    if "RunInNewTxn_loop S kverr retry retryable f n e0 v st = (err, v', st')" "P st" "n = 0 \<longrightarrow> e0 \<noteq> None" for n e0 v st
    using that
  proof (induction n arbitrary: e0 v st)
    case (Suc n)
    note b = assms(2) [OF Suc.prems(2)] and r = assms(3) [OF Suc.prems(2)] and ce = assms(4) [OF Suc.prems(2)] and c = assms(5) [OF Suc.prems(2)]
    show ?case using Suc.prems(1) b r ce c Suc.IH
      by (auto split: prod.splits sum.splits option.splits if_splits)
  qed auto
  from this [of maxRetryCnt None v st] show ?thesis using assms(1,6) by (simp add: RunInNewTxn_def maxRetryCnt_def)
qed

end
