(* ===== verification/Autoid.thy ===== *)
theory Autoid
  imports Meta Kv_Txn
begin

text \<open>
  Package \<open>meta/autoid\<close> (\<open>meta/autoid/autoid.go\<close>): an allocator takes a segment of the auto-increment IDs of a
  table out of the counter that package \<open>meta\<close> keeps, in a transaction of its own, and hands out IDs from
  the segment until it is used up.  The IDs are signed or unsigned 64-bit integers.
\<close>

datatype autoid_error = MetaErr meta_error | TxnErr kv_error | errInvalidTableID | ErrAutoincReadFailed

text \<open>\<open>IsTxnRetryableError\<close> on the errors that reach \<open>RunInNewTxn\<close>.\<close>

fun retry_err :: "autoid_error \<Rightarrow> bool" where
  "retry_err (MetaErr (StructErr (KvErr e))) = IsTxnRetryableError (Some e)"
| "retry_err (TxnErr e) = IsTxnRetryableError (Some e)"
| "retry_err _ = False"

definition minStep :: u64 where "minStep = 30000"
definition maxStep :: u64 where "maxStep = 2000000"

record allocator =
  al_base :: u64
  al_end :: u64
  al_dbID :: u64
  isUnsigned :: bool
  al_step :: u64

definition NewAllocator :: "u64 \<Rightarrow> u64 \<Rightarrow> bool \<Rightarrow> allocator" where
  "NewAllocator step dbID unsig = \<lparr>al_base = 0, al_end = 0, al_dbID = dbID, isUnsigned = unsig, al_step = step\<rparr>"

text \<open>The minimum and the maximum of two integers, signed and unsigned, of package \<open>mathutil\<close>.\<close>

definition MinInt64' :: "u64 \<Rightarrow> u64 \<Rightarrow> u64" where "MinInt64' a b = (if sint a < sint b then a else b)"
definition MaxInt64' :: "u64 \<Rightarrow> u64 \<Rightarrow> u64" where "MaxInt64' a b = (if sint a > sint b then a else b)"
definition MinUint64' :: "u64 \<Rightarrow> u64 \<Rightarrow> u64" where "MinUint64' a b = (if a < b then a else b)"
definition MaxUint64' :: "u64 \<Rightarrow> u64 \<Rightarrow> u64" where "MaxUint64' a b = (if a > b then a else b)"

text \<open>
  The step of the next segment: \<open>res\<close> is the integer \<open>int64(float64(curStep) * consumeRate)\<close>, which depends on
  the time since the last allocation.
\<close>

definition NextStep :: "u64 \<Rightarrow> u64" where
  "NextStep res = (if sint res < sint minStep then minStep else if sint res > sint maxStep then maxStep else res)"

definition next_step :: "u64 \<Rightarrow> u64 \<Rightarrow> u64" where
  "next_step res n1 = (let nextStep = NextStep res in if sint nextStep \<le> sint n1 then MinInt64' (n1 * 2) maxStep else nextStep)"

section \<open>The functions that run in a transaction\<close>

definition alloc4Signed_txn ::
  "('x, 'it) Transaction \<Rightarrow> allocator \<Rightarrow> u64 \<Rightarrow> u64 \<Rightarrow> u64 \<times> u64 \<Rightarrow> 'x \<Rightarrow> autoid_error option \<times> (u64 \<times> u64) \<times> 'x" where
  "alloc4Signed_txn T al tableID n1 v x =
     (let (m, x) = NewMeta T x [] in
      case GetAutoTableID m x (al_dbID al) tableID of
        (Some err, newBase) \<Rightarrow> (Some (MetaErr err), (newBase, snd v), x)
      | (None, newBase) \<Rightarrow>
          (let tmpStep = MinInt64' (MaxInt64 - newBase) (al_step al) in
           if sint tmpStep < sint n1 then (Some ErrAutoincReadFailed, (newBase, snd v), x)
           else case GenAutoTableID m x (al_dbID al) tableID tmpStep of
             ((err, newEnd), x) \<Rightarrow> (map_option MetaErr err, (newBase, newEnd), x)))"

definition alloc4Unsigned_txn ::
  "('x, 'it) Transaction \<Rightarrow> allocator \<Rightarrow> u64 \<Rightarrow> u64 \<Rightarrow> u64 \<times> u64 \<Rightarrow> 'x \<Rightarrow> autoid_error option \<times> (u64 \<times> u64) \<times> 'x" where
  "alloc4Unsigned_txn T al tableID n1 v x =
     (let (m, x) = NewMeta T x [] in
      case GetAutoTableID m x (al_dbID al) tableID of
        (Some err, newBase) \<Rightarrow> (Some (MetaErr err), (newBase, snd v), x)
      | (None, newBase) \<Rightarrow>
          (let tmpStep = MinUint64' (MaxUint64 - newBase) (al_step al) in
           if sint tmpStep < sint n1 then (Some ErrAutoincReadFailed, (newBase, snd v), x)
           else case GenAutoTableID m x (al_dbID al) tableID tmpStep of
             ((err, newEnd), x) \<Rightarrow> (map_option MetaErr err, (newBase, newEnd), x)))"

definition rebase4Signed_txn ::
  "('x, 'it) Transaction \<Rightarrow> allocator \<Rightarrow> u64 \<Rightarrow> u64 \<Rightarrow> bool \<Rightarrow> u64 \<times> u64 \<Rightarrow> 'x \<Rightarrow> autoid_error option \<times> (u64 \<times> u64) \<times> 'x" where
  "rebase4Signed_txn T al tableID requiredBase allocIDs v x =
     (let (m, x) = NewMeta T x [] in
      case GetAutoTableID m x (al_dbID al) tableID of
        (Some err, _) \<Rightarrow> (Some (MetaErr err), v, x)
      | (None, currentEnd) \<Rightarrow>
          if \<not> allocIDs \<and> sint currentEnd \<ge> sint requiredBase then (None, (currentEnd, currentEnd), x)
          else
            (let newBase = (if allocIDs then MaxInt64' currentEnd requiredBase else requiredBase);
                 newEnd = (if allocIDs then MinInt64' (MaxInt64 - al_step al) newBase + al_step al else requiredBase)
             in case GenAutoTableID m x (al_dbID al) tableID (newEnd - currentEnd) of
               ((err, _), x) \<Rightarrow> (map_option MetaErr err, (newBase, newEnd), x)))"

definition rebase4Unsigned_txn ::
  "('x, 'it) Transaction \<Rightarrow> allocator \<Rightarrow> u64 \<Rightarrow> u64 \<Rightarrow> bool \<Rightarrow> u64 \<times> u64 \<Rightarrow> 'x \<Rightarrow> autoid_error option \<times> (u64 \<times> u64) \<times> 'x" where
  "rebase4Unsigned_txn T al tableID requiredBase allocIDs v x =
     (let (m, x) = NewMeta T x [] in
      case GetAutoTableID m x (al_dbID al) tableID of
        (Some err, _) \<Rightarrow> (Some (MetaErr err), v, x)
      | (None, uCurrentEnd) \<Rightarrow>
          if \<not> allocIDs \<and> uCurrentEnd \<ge> requiredBase then (None, (uCurrentEnd, uCurrentEnd), x)
          else
            (let newBase = (if allocIDs then MaxUint64' uCurrentEnd requiredBase else requiredBase);
                 newEnd = (if allocIDs then MinUint64' (MaxUint64 - al_step al) newBase + al_step al else requiredBase)
             in case GenAutoTableID m x (al_dbID al) tableID (newEnd - uCurrentEnd) of
               ((err, _), x) \<Rightarrow> (map_option MetaErr err, (newBase, newEnd), x)))"

section \<open>The allocator\<close>

definition NextGlobalAutoID ::
  "('st, 'x) Storage \<Rightarrow> ('x, 'it) Transaction \<Rightarrow> allocator \<Rightarrow> u64 \<Rightarrow> 'st \<Rightarrow> (autoid_error option \<times> u64) \<times> 'st" where
  "NextGlobalAutoID S T al tableID st =
     (case RunInNewTxn S TxnErr retry_err True
             (\<lambda>_ x. let (m, x) = NewMeta T x []; (err, autoID) = GetAutoTableID m x (al_dbID al) tableID in (map_option MetaErr err, autoID, x)) 0 st of
        (err, autoID, st) \<Rightarrow> ((err, autoID + 1), st))"

definition alloc4Signed ::
  "('st, 'x) Storage \<Rightarrow> ('x, 'it) Transaction \<Rightarrow> allocator \<Rightarrow> u64 \<Rightarrow> u64 \<Rightarrow> u64 \<Rightarrow> 'st \<Rightarrow> (autoid_error option \<times> u64 \<times> u64) \<times> allocator \<times> 'st" where
  "alloc4Signed S T al tableID n res st =
     (if sint (MaxInt64 - al_base al) \<le> sint n then ((Some ErrAutoincReadFailed, 0, 0), al, st)
      else if sint (al_base al + n) > sint (al_end al) then
        (let al = al\<lparr>al_step := next_step res n\<rparr> in
         case RunInNewTxn S TxnErr retry_err True (alloc4Signed_txn T al tableID n) (0, 0) st of
           (Some err, _, st) \<Rightarrow> ((Some err, 0, 0), al, st)
         | (None, (newBase, newEnd), st) \<Rightarrow>
             if newBase = MaxInt64 then ((Some ErrAutoincReadFailed, 0, 0), al, st)
             else ((None, newBase, newBase + n), al\<lparr>al_base := newBase + n, al_end := newEnd\<rparr>, st))
      else ((None, al_base al, al_base al + n), al\<lparr>al_base := al_base al + n\<rparr>, st))"

definition alloc4Unsigned ::
  "('st, 'x) Storage \<Rightarrow> ('x, 'it) Transaction \<Rightarrow> allocator \<Rightarrow> u64 \<Rightarrow> u64 \<Rightarrow> u64 \<Rightarrow> 'st \<Rightarrow> (autoid_error option \<times> u64 \<times> u64) \<times> allocator \<times> 'st" where
  "alloc4Unsigned S T al tableID n res st =
     (if MaxUint64 - al_base al \<le> n then ((Some ErrAutoincReadFailed, 0, 0), al, st)
      else if al_base al + n > al_end al then
        (let al = al\<lparr>al_step := next_step res n\<rparr> in
         case RunInNewTxn S TxnErr retry_err True (alloc4Unsigned_txn T al tableID n) (0, 0) st of
           (Some err, _, st) \<Rightarrow> ((Some err, 0, 0), al, st)
         | (None, (newBase, newEnd), st) \<Rightarrow>
             if newBase = MaxUint64 then ((Some ErrAutoincReadFailed, 0, 0), al, st)
             else ((None, newBase, newBase + n), al\<lparr>al_base := newBase + n, al_end := newEnd\<rparr>, st))
      else ((None, al_base al, al_base al + n), al\<lparr>al_base := al_base al + n\<rparr>, st))"

definition Alloc ::
  "('st, 'x) Storage \<Rightarrow> ('x, 'it) Transaction \<Rightarrow> allocator \<Rightarrow> u64 \<Rightarrow> u64 \<Rightarrow> u64 \<Rightarrow> 'st \<Rightarrow> (autoid_error option \<times> u64 \<times> u64) \<times> allocator \<times> 'st" where
  "Alloc S T al tableID n res st =
     (if tableID = 0 then ((Some errInvalidTableID, 0, 0), al, st)
      else if n = 0 then ((None, 0, 0), al, st)
      else if isUnsigned al then alloc4Unsigned S T al tableID n res st
      else alloc4Signed S T al tableID n res st)"

definition rebase4Signed ::
  "('st, 'x) Storage \<Rightarrow> ('x, 'it) Transaction \<Rightarrow> allocator \<Rightarrow> u64 \<Rightarrow> u64 \<Rightarrow> bool \<Rightarrow> 'st \<Rightarrow> autoid_error option \<times> allocator \<times> 'st" where
  "rebase4Signed S T al tableID requiredBase allocIDs st =
     (if sint requiredBase \<le> sint (al_base al) then (None, al, st)
      else if sint requiredBase \<le> sint (al_end al) then (None, al\<lparr>al_base := requiredBase\<rparr>, st)
      else case RunInNewTxn S TxnErr retry_err True (rebase4Signed_txn T al tableID requiredBase allocIDs) (0, 0) st of
        (Some err, _, st) \<Rightarrow> (Some err, al, st)
      | (None, (newBase, newEnd), st) \<Rightarrow> (None, al\<lparr>al_base := newBase, al_end := newEnd\<rparr>, st))"

definition rebase4Unsigned ::
  "('st, 'x) Storage \<Rightarrow> ('x, 'it) Transaction \<Rightarrow> allocator \<Rightarrow> u64 \<Rightarrow> u64 \<Rightarrow> bool \<Rightarrow> 'st \<Rightarrow> autoid_error option \<times> allocator \<times> 'st" where
  "rebase4Unsigned S T al tableID requiredBase allocIDs st =
     (if requiredBase \<le> al_base al then (None, al, st)
      else if requiredBase \<le> al_end al then (None, al\<lparr>al_base := requiredBase\<rparr>, st)
      else case RunInNewTxn S TxnErr retry_err True (rebase4Unsigned_txn T al tableID requiredBase allocIDs) (0, 0) st of
        (Some err, _, st) \<Rightarrow> (Some err, al, st)
      | (None, (newBase, newEnd), st) \<Rightarrow> (None, al\<lparr>al_base := newBase, al_end := newEnd\<rparr>, st))"

definition Rebase ::
  "('st, 'x) Storage \<Rightarrow> ('x, 'it) Transaction \<Rightarrow> allocator \<Rightarrow> u64 \<Rightarrow> u64 \<Rightarrow> bool \<Rightarrow> 'st \<Rightarrow> autoid_error option \<times> allocator \<times> 'st" where
  "Rebase S T al tableID requiredBase allocIDs st =
     (if tableID = 0 then (Some errInvalidTableID, al, st)
      else if isUnsigned al then rebase4Unsigned S T al tableID requiredBase allocIDs st
      else rebase4Signed S T al tableID requiredBase allocIDs st)"

end
