(* ===== verification/Autoid_Counter.thy ===== *)
theory Autoid_Counter
  imports Meta_Correct Autoid
begin

text \<open>
  The auto ID counter of a table under the allocators of \<open>meta/autoid\<close>: what the counter is in the catalogue, the
  signed and the unsigned allocator as one with a reading of the integers, and that a transaction of an
  allocator takes a segment above the counter and moves the counter to the end of it.
\<close>

section \<open>The counter of a table\<close>

text \<open>Under the layout of the catalogue, the auto ID counter of a table of a database stands at \<open>c\<close>.\<close>

definition auto_rep :: "(slot \<Rightarrow> bytes option) \<Rightarrow> u64 \<Rightarrow> u64 \<Rightarrow> u64 \<Rightarrow> bool" where
  "auto_rep g dbID tableID c =
     (\<exists>md m. hash_rep g mDBs md \<and> hash_rep g (dbKey dbID) m \<and>
        (m (autoTableIDKey tableID) = Some (FormatInt c) \<or> m (autoTableIDKey tableID) = None \<and> c = 0 \<and> card (dom m) + 1 < 2 ^ 63))"

lemma auto_writes_fit:
  assumes "room fits x 2048"
  shows "fits x (hash_writes mMetaPrefix (dbKey d) m (autoTableIDKey t) (FormatInt n))"
  using assms hash_writes_small [of "dbKey d" "autoTableIDKey t" m "FormatInt n"] length_meta_keys(1) [of d] length_meta_keys(2) [of t] length_FormatInt [of n]
  by (simp add: room_def)

context retriever_mutator
begin

lemma GetAutoTableID_rep:
  assumes "meta_on R M m" "layout mMetaPrefix rep x kvs" "auto_rep (slots mMetaPrefix kvs) d t c"
  shows "GetAutoTableID m x d t = (None, c)"
proof -
  obtain h where h: "hash_rep (slots mMetaPrefix kvs) (dbKey d) h" "h (autoTableIDKey t) = Some (FormatInt c) \<or> h (autoTableIDKey t) = None \<and> c = 0"
    using assms(3) by (auto simp: auto_rep_def)
  show ?thesis using h(2) assms(1) get_hash_rep [OF assms(2) h(1), of "autoTableIDKey t"]
    by (auto simp: GetAutoTableID_def meta_on_def HGetInt64_def sterr_def ParseInt_FormatInt)
qed

lemma GenAutoTableID_rep:
  assumes "meta_on R M m" "layout mMetaPrefix rep x kvs" "auto_rep (slots mMetaPrefix kvs) d t c" "room fits x 2048"
    and "GenAutoTableID m x d t step = ((None, n), x')"
  shows "n = c + step \<and> (\<exists>kvs'. layout mMetaPrefix rep x' kvs' \<and> auto_rep (slots mMetaPrefix kvs') d t (c + step))"
proof -
  let ?p = mMetaPrefix and ?f = "autoTableIDKey t"
  obtain md h where h: "hash_rep (slots ?p kvs) mDBs md" "hash_rep (slots ?p kvs) (dbKey d) h"
    "h ?f = Some (FormatInt c) \<or> h ?f = None \<and> c = 0 \<and> card (dom h) + 1 < 2 ^ 63"
    using assms(3) by (auto simp: auto_rep_def)
  have w: "fits x (hash_writes ?p (dbKey d) h ?f (FormatInt (c + step)))"
    by (rule auto_writes_fit [OF assms(4)])
  have "h ?f = Some (FormatInt c) \<or> h ?f = None \<and> c = 0" "h ?f = None \<Longrightarrow> card (dom h) + 1 < 2 ^ 63" using h(3) by auto
  from inc_hash_rep [OF assms(2) h(2) this w] obtain x2 kvs2 where
    s: "HInc (on_store R M ?p) x (dbKey d) ?f step = (None, c + step, x2)" "layout ?p rep x2 kvs2"
      "hash_rep (slots ?p kvs2) (dbKey d) (h(?f \<mapsto> FormatInt (c + step)))" "same_but_hash (dbKey d) (slots ?p kvs) (slots ?p kvs2)" by blast
  have "hash_rep (slots ?p kvs2) mDBs md" by (rule same_but_hash_rep [OF s(4) h(1)]) simp
  then have "auto_rep (slots ?p kvs2) d t (c + step)" using s(3) unfolding auto_rep_def by (metis fun_upd_same)
  moreover have "n = c + step" "x' = x2" using assms(1,5) s(1)
    by (auto simp: GenAutoTableID_def meta_on_def split: option.splits)
  ultimately show ?thesis using s(2) by blast
qed

end

section \<open>Signed and unsigned IDs\<close>

text \<open>IDs are read as signed or as unsigned integers, up to the largest one.\<close>

definition rd :: "bool \<Rightarrow> u64 \<Rightarrow> int" where
  "rd u w = (if u then uint w else sint w)"

definition maxw :: "bool \<Rightarrow> u64" where
  "maxw u = (if u then MaxUint64 else MaxInt64)"

definition rdmin :: "bool \<Rightarrow> u64 \<Rightarrow> u64 \<Rightarrow> u64" where
  "rdmin u a b = (if rd u a < rd u b then a else b)"

definition rdmax :: "bool \<Rightarrow> u64 \<Rightarrow> u64 \<Rightarrow> u64" where
  "rdmax u a b = (if rd u a > rd u b then a else b)"

lemma rd_maxw: "rd u (maxw u) = (if u then 2 ^ 64 - 1 else 2 ^ 63 - 1)"
  by (simp add: rd_def maxw_def unsigned_minus_1_eq_mask mask_eq_exp_minus_1)

lemma rd_le: "rd u a \<le> rd u (maxw u)"
  unfolding rd_maxw using uint_lt2p [of a] sint_lt [of a] by (simp add: rd_def)

lemma rd_of_int: "0 \<le> k \<Longrightarrow> k \<le> rd u (maxw u) \<Longrightarrow> rd u (of_int k) = k"
  unfolding rd_maxw by (simp add: rd_def unsigned_of_int signed_of_int signed_take_bit_int_eq_self take_bit_int_eq_self split: if_splits)

lemma of_int_rd: "of_int (rd u a) = a"
  by (simp add: rd_def)

lemma rd_inject: "rd u a = rd u b \<longleftrightarrow> a = b"
  by (metis of_int_rd)

lemma rd_add: "0 \<le> rd u a + rd u b \<Longrightarrow> rd u a + rd u b \<le> rd u (maxw u) \<Longrightarrow> rd u (a + b) = rd u a + rd u b"
  using rd_of_int [of "rd u a + rd u b" u] by (simp add: of_int_rd)

lemma rd_diff: "0 \<le> rd u a - rd u b \<Longrightarrow> rd u a - rd u b \<le> rd u (maxw u) \<Longrightarrow> rd u (a - b) = rd u a - rd u b"
  using rd_of_int [of "rd u a - rd u b" u] by (simp add: of_int_rd)

text \<open>A number of IDs that an allocator is asked for, or a step, reads the same either way.\<close>

definition count_ok :: "u64 \<Rightarrow> bool" where
  "count_ok n = (0 < sint n \<and> sint n < 2 ^ 62)"

lemma rd_count:
  assumes "count_ok n" shows "rd u n = sint n" "0 < rd u n" "rd u n < 2 ^ 62"
proof -
  have "uint n = sint n" using assms sint_nonneg_unat [of n] by (simp add: count_ok_def)
  then show "rd u n = sint n" "0 < rd u n" "rd u n < 2 ^ 62" using assms by (simp_all add: rd_def count_ok_def)
qed

lemma rd_small: "0 \<le> rd u w \<Longrightarrow> rd u w < 2 ^ 62 \<Longrightarrow> rd u w = sint w"
  by (auto simp: rd_def sint_if split: if_splits)

section \<open>Both allocators as one\<close>

definition alloc_txn ::
  "bool \<Rightarrow> ('x, 'it) Transaction \<Rightarrow> allocator \<Rightarrow> u64 \<Rightarrow> u64 \<Rightarrow> u64 \<times> u64 \<Rightarrow> 'x \<Rightarrow> autoid_error option \<times> (u64 \<times> u64) \<times> 'x" where
  "alloc_txn u T al tableID n1 v x =
     (let (m, x) = NewMeta T x [] in
      case GetAutoTableID m x (al_dbID al) tableID of
        (Some err, newBase) \<Rightarrow> (Some (MetaErr err), (newBase, snd v), x)
      | (None, newBase) \<Rightarrow>
          (let tmpStep = rdmin u (maxw u - newBase) (al_step al) in
           if sint tmpStep < sint n1 then (Some ErrAutoincReadFailed, (newBase, snd v), x)
           else case GenAutoTableID m x (al_dbID al) tableID tmpStep of
             ((err, newEnd), x) \<Rightarrow> (map_option MetaErr err, (newBase, newEnd), x)))"

definition rebase_txn ::
  "bool \<Rightarrow> ('x, 'it) Transaction \<Rightarrow> allocator \<Rightarrow> u64 \<Rightarrow> u64 \<Rightarrow> bool \<Rightarrow> u64 \<times> u64 \<Rightarrow> 'x \<Rightarrow> autoid_error option \<times> (u64 \<times> u64) \<times> 'x" where
  "rebase_txn u T al tableID requiredBase allocIDs v x =
     (let (m, x) = NewMeta T x [] in
      case GetAutoTableID m x (al_dbID al) tableID of
        (Some err, _) \<Rightarrow> (Some (MetaErr err), v, x)
      | (None, currentEnd) \<Rightarrow>
          if \<not> allocIDs \<and> rd u requiredBase \<le> rd u currentEnd then (None, (currentEnd, currentEnd), x)
          else
            (let newBase = (if allocIDs then rdmax u currentEnd requiredBase else requiredBase);
                 newEnd = (if allocIDs then rdmin u (maxw u - al_step al) newBase + al_step al else requiredBase)
             in case GenAutoTableID m x (al_dbID al) tableID (newEnd - currentEnd) of
               ((err, _), x) \<Rightarrow> (map_option MetaErr err, (newBase, newEnd), x)))"

definition alloc_gen ::
  "bool \<Rightarrow> ('st, 'x) Storage \<Rightarrow> ('x, 'it) Transaction \<Rightarrow> allocator \<Rightarrow> u64 \<Rightarrow> u64 \<Rightarrow> u64 \<Rightarrow> 'st \<Rightarrow> (autoid_error option \<times> u64 \<times> u64) \<times> allocator \<times> 'st" where
  "alloc_gen u S T al tableID n res st =
     (if rd u (maxw u - al_base al) \<le> rd u n then ((Some ErrAutoincReadFailed, 0, 0), al, st)
      else if rd u (al_base al + n) > rd u (al_end al) then
        (let al = al\<lparr>al_step := next_step res n\<rparr> in
         case RunInNewTxn S TxnErr retry_err True (alloc_txn u T al tableID n) (0, 0) st of
           (Some err, _, st) \<Rightarrow> ((Some err, 0, 0), al, st)
         | (None, (newBase, newEnd), st) \<Rightarrow>
             if newBase = maxw u then ((Some ErrAutoincReadFailed, 0, 0), al, st)
             else ((None, newBase, newBase + n), al\<lparr>al_base := newBase + n, al_end := newEnd\<rparr>, st))
      else ((None, al_base al, al_base al + n), al\<lparr>al_base := al_base al + n\<rparr>, st))"

definition rebase_gen ::
  "bool \<Rightarrow> ('st, 'x) Storage \<Rightarrow> ('x, 'it) Transaction \<Rightarrow> allocator \<Rightarrow> u64 \<Rightarrow> u64 \<Rightarrow> bool \<Rightarrow> 'st \<Rightarrow> autoid_error option \<times> allocator \<times> 'st" where
  "rebase_gen u S T al tableID requiredBase allocIDs st =
     (if rd u requiredBase \<le> rd u (al_base al) then (None, al, st)
      else if rd u requiredBase \<le> rd u (al_end al) then (None, al\<lparr>al_base := requiredBase\<rparr>, st)
      else case RunInNewTxn S TxnErr retry_err True (rebase_txn u T al tableID requiredBase allocIDs) (0, 0) st of
        (Some err, _, st) \<Rightarrow> (Some err, al, st)
      | (None, (newBase, newEnd), st) \<Rightarrow> (None, al\<lparr>al_base := newBase, al_end := newEnd\<rparr>, st))"

lemma gen_simps:
  "MinInt64' = rdmin False" "MinUint64' = rdmin True" "MaxInt64' = rdmax False" "MaxUint64' = rdmax True"
  by (auto simp: MinInt64'_def MinUint64'_def MaxInt64'_def MaxUint64'_def rdmin_def rdmax_def rd_def word_less_def intro!: ext)

lemma txn_eqs:
  "alloc4Signed_txn = alloc_txn False" "alloc4Unsigned_txn = alloc_txn True"
  "rebase4Signed_txn = rebase_txn False" "rebase4Unsigned_txn = rebase_txn True"
  unfolding alloc4Signed_txn_def [abs_def] alloc4Unsigned_txn_def [abs_def] rebase4Signed_txn_def [abs_def] rebase4Unsigned_txn_def [abs_def]
    alloc_txn_def [abs_def] rebase_txn_def [abs_def] gen_simps rd_def word_le_def maxw_def if_True if_False
  by (rule refl)+

lemma gen_eqs:
  "alloc4Signed S T al tableID n res st = alloc_gen False S T al tableID n res st"
  "alloc4Unsigned S T al tableID n res st = alloc_gen True S T al tableID n res st"
  "rebase4Signed S T al tableID req allocIDs st = rebase_gen False S T al tableID req allocIDs st"
  "rebase4Unsigned S T al tableID req allocIDs st = rebase_gen True S T al tableID req allocIDs st"
  unfolding alloc4Signed_def alloc4Unsigned_def rebase4Signed_def rebase4Unsigned_def alloc_gen_def rebase_gen_def
    txn_eqs rd_def maxw_def if_True if_False word_le_def word_less_def
  by (rule refl)+

lemma Alloc_gen:
  "Alloc S T al tableID n res st =
     (if tableID = 0 then ((Some errInvalidTableID, 0, 0), al, st)
      else if n = 0 then ((None, 0, 0), al, st) else alloc_gen (isUnsigned al) S T al tableID n res st)"
  by (simp add: Alloc_def gen_eqs)

lemma Rebase_gen:
  "Rebase S T al tableID req allocIDs st =
     (if tableID = 0 then (Some errInvalidTableID, al, st) else rebase_gen (isUnsigned al) S T al tableID req allocIDs st)"
  by (simp add: Rebase_def gen_eqs)

section \<open>A segment is taken above the counter\<close>

text \<open>
  What the allocators rely on of the storage: a transaction begins on what is committed and takes a few short
  writes, a commit that succeeds makes what the transaction sees the committed state, one that fails
  either does so or leaves the committed state, and nothing else changes it.
\<close>

definition storage_ok ::
  "('st, 'x) Storage \<Rightarrow> ('x, 'it) Transaction \<Rightarrow> ('x \<Rightarrow> (bytes \<times> bytes) list \<Rightarrow> bool) \<Rightarrow> ('x \<Rightarrow> 'it \<Rightarrow> (bytes \<times> bytes) list \<Rightarrow> bool) \<Rightarrow>
     ('x \<Rightarrow> (bytes \<times> bytes) list \<Rightarrow> bool) \<Rightarrow> ('st \<Rightarrow> (bytes \<times> bytes) list) \<Rightarrow> bool" where
  "storage_ok S T rep left fits committed \<longleftrightarrow>
     retriever_mutator (tx_retriever T) rep left (tx_mutator T) fits \<and>
     (\<forall>x kvs opt val. opt \<noteq> PresumeKeyNotExistsError \<and> rep x kvs \<longrightarrow> rep (tx_SetOption T x opt val) kvs) \<and>
     (\<forall>x opt val ws. fits (tx_SetOption T x opt val) ws \<longleftrightarrow> fits x ws) \<and>
     (\<forall>st b st'. st_Begin S st = (b, st') \<longrightarrow> committed st' = committed st \<and> (\<forall>x. b = Inr x \<longrightarrow> rep x (committed st) \<and> room fits x 2048)) \<and>
     (\<forall>st x kvs st'. st_Commit S x st = (None, st') \<and> rep x kvs \<longrightarrow> committed st' = kvs) \<and>
     (\<forall>st x kvs e st'. st_Commit S x st = (Some e, st') \<and> rep x kvs \<longrightarrow> committed st' = committed st \<or> committed st' = kvs) \<and>
     (\<forall>st x r st'. st_Rollback S x st = (r, st') \<longrightarrow> committed st' = committed st)"

text \<open>The stored catalogue, with the counter of the table at \<open>c\<close>.\<close>

definition catalogue :: "u64 \<Rightarrow> u64 \<Rightarrow> u64 \<Rightarrow> (bytes \<times> bytes) list \<Rightarrow> bool" where
  "catalogue d t c kvs \<longleftrightarrow>
     (\<forall>k \<in> dom (map_of kvs). HasPrefix k mMetaPrefix \<longrightarrow> (\<exists>s. k = slot_key mMetaPrefix s)) \<and> auto_rep (slots mMetaPrefix kvs) d t c"

lemma catalogue_layout: "rep x kvs \<Longrightarrow> catalogue d t c kvs \<Longrightarrow> layout mMetaPrefix rep x kvs"
  by (simp add: catalogue_def layout_def)

lemma catalogue_auto: "layout mMetaPrefix rep x kvs \<Longrightarrow> auto_rep (slots mMetaPrefix kvs) d t c \<Longrightarrow> rep x kvs \<and> catalogue d t c kvs"
  by (simp add: catalogue_def layout_def)

lemma NewMeta_ok:
  assumes "storage_ok S T rep left fits committed" "rep x kvs" "room fits x 2048" "NewMeta T x [] = (m, x')"
  shows "meta_on (tx_retriever T) (tx_mutator T) m \<and> rep x' kvs \<and> room fits x' 2048"
proof -
  have "Priority \<noteq> PresumeKeyNotExistsError" "SyncLog \<noteq> PresumeKeyNotExistsError"
    by (simp_all add: Priority_def SyncLog_def PresumeKeyNotExistsError_def)
  then show ?thesis using assms by (auto simp: storage_ok_def NewMeta_def Let_def meta_on_def on_store_def room_def)
qed

text \<open>A function run in a transaction takes a segment of \<open>k\<close> IDs at least.\<close>

definition takes ::
  "bool \<Rightarrow> ('x \<Rightarrow> (bytes \<times> bytes) list \<Rightarrow> bool) \<Rightarrow> ('x \<Rightarrow> (bytes \<times> bytes) list \<Rightarrow> bool) \<Rightarrow> u64 \<Rightarrow> u64 \<Rightarrow> int \<Rightarrow>
     (u64 \<times> u64 \<Rightarrow> 'x \<Rightarrow> 'e option \<times> (u64 \<times> u64) \<times> 'x) \<Rightarrow> bool" where
  "takes u rep fits d t k f \<longleftrightarrow>
     (\<forall>x kvs c v lo hi x'. rep x kvs \<longrightarrow> room fits x 2048 \<longrightarrow> catalogue d t c kvs \<longrightarrow> 0 \<le> rd u c \<longrightarrow> f v x = (None, (lo, hi), x') \<longrightarrow>
        rd u c \<le> rd u lo \<and> rd u lo + k \<le> rd u hi \<and> (\<exists>kvs'. rep x' kvs' \<and> catalogue d t hi kvs'))"

lemma run_takes:
  assumes "storage_ok S T rep left fits committed" "takes u rep fits d t k f" "0 \<le> k"
    and "catalogue d t c (committed st)" "0 \<le> rd u c" "RunInNewTxn S kverr retry b f v st = (err, (lo, hi), st')"
  shows "if err = None then rd u c \<le> rd u lo \<and> rd u lo + k \<le> rd u hi \<and> catalogue d t hi (committed st')
    else \<exists>c'. rd u c \<le> rd u c' \<and> catalogue d t c' (committed st')"
proof -
  let ?P = "\<lambda>st. \<exists>c'. rd u c \<le> rd u c' \<and> catalogue d t c' (committed st)"
  let ?Q = "\<lambda>(lo, hi) st. rd u c \<le> rd u lo \<and> rd u lo + k \<le> rd u hi \<and> catalogue d t hi (committed st)"
  note ok = assms(1) [unfolded storage_ok_def]
  have b: "committed st' = committed st" if "st_Begin S st = (b, st')" for st b st' using ok that by blast
  have bx: "rep x (committed st) \<and> room fits x 2048" if "st_Begin S st = (Inr x, st')" for st x st' using ok that by blast
  have f: "\<exists>kvs'. rep x' kvs' \<and> catalogue d t hi kvs' \<and> rd u c \<le> rd u lo \<and> rd u lo + k \<le> rd u hi"
    if "?P st" "st_Begin S st = (Inr x, st')" "g v x = (None, (lo, hi), x')" "g = f" for st x st' v lo hi x' g
    using that bx [OF that(2)] assms(2,5) unfolding takes_def by (smt (verit, best))
  have "if err = None then ?Q (lo, hi) st' else ?P st'"
  proof (rule RunInNewTxn_rule [where P = ?P and Q = ?Q, OF _ _ _ _ _ assms(6)])
    show "?P st" using assms(4) by blast
    show "?P st'" if "?P st" "st_Begin S st = (Inl e, st')" for st st' e using that b by metis
    show "?P st''" if "?P st" "st_Begin S st = (Inr x, st')" "f v x = (Some e, v', x')" "st_Rollback S x' st' = (r, st'')" for st st' x v e v' x' r st''
      using that(1,2,4) b ok by metis
    show "?P st''" if "?P st" "st_Begin S st = (Inr x, st')" "f v x = (None, v', x')" "st_Commit S x' st' = (Some e, st'')" for st st' x v v' x' e st''
    proof -
      note h = that
      obtain lo hi where v': "v' = (lo, hi)" by (cases v')
      obtain kvs' where k: "rep x' kvs'" "catalogue d t hi kvs'" "rd u c \<le> rd u lo" "rd u lo + k \<le> rd u hi"
        using f [OF h(1,2) h(3) [unfolded v'] refl] by blast
      have "committed st'' = committed st \<or> committed st'' = kvs'" using ok h(4) k(1) b [OF h(2)] by metis
      then show ?thesis using h(1) k(2-4) assms(3) by (smt (verit, best))
    qed
    show "?Q v' st''" if "?P st" "st_Begin S st = (Inr x, st')" "f v x = (None, v', x')" "st_Commit S x' st' = (None, st'')" for st st' x v v' x' st''
    proof -
      note h = that
      obtain lo hi where v': "v' = (lo, hi)" by (cases v')
      obtain kvs' where k: "rep x' kvs'" "catalogue d t hi kvs'" "rd u c \<le> rd u lo" "rd u lo + k \<le> rd u hi"
        using f [OF h(1,2) h(3) [unfolded v'] refl] by blast
      have "committed st'' = kvs'" using ok h(4) k(1) by metis
      then show ?thesis using k(2-4) v' by simp
    qed
  qed
  then show ?thesis by (cases err) simp_all
qed

lemma alloc_takes:
  assumes "storage_ok S T rep left fits committed" "count_ok (al_step al)" "count_ok n"
  shows "takes u rep fits (al_dbID al) t (sint n) (alloc_txn u T al t n)"
  unfolding takes_def
proof (intro allI impI)
  fix x kvs c v lo hi x'
  assume a: "rep x kvs" "room fits x 2048" "catalogue (al_dbID al) t c kvs" "0 \<le> rd u c" "alloc_txn u T al t n v x = (None, (lo, hi), x')"
  have rm: "retriever_mutator (tx_retriever T) rep left (tx_mutator T) fits" using assms(1) by (simp add: storage_ok_def)
  obtain m x1 where m: "NewMeta T x [] = (m, x1)" by fastforce
  have m': "meta_on (tx_retriever T) (tx_mutator T) m" "rep x1 kvs" "room fits x1 2048" using NewMeta_ok [OF assms(1) a(1,2) m] by auto
  have l: "layout mMetaPrefix rep x1 kvs" "auto_rep (slots mMetaPrefix kvs) (al_dbID al) t c"
    using catalogue_layout [of rep x1 kvs, OF m'(2) a(3)] a(3) by (auto simp: catalogue_def)
  let ?s = "rdmin u (maxw u - c) (al_step al)"
  have g: "GetAutoTableID m x1 (al_dbID al) t = (None, c)" by (rule retriever_mutator.GetAutoTableID_rep [OF rm m'(1) l])
  have s: "lo = c" "\<not> sint ?s < sint n" "GenAutoTableID m x1 (al_dbID al) t ?s = ((None, hi), x')"
    using a(5) by (auto simp: alloc_txn_def m g Let_def split: if_splits prod.splits)
  from retriever_mutator.GenAutoTableID_rep [OF rm m'(1) l m'(3) s(3)] obtain kvs' where
    k: "hi = c + ?s" "layout mMetaPrefix rep x' kvs'" "auto_rep (slots mMetaPrefix kvs') (al_dbID al) t hi" by auto
  have d: "rd u (maxw u - c) = rd u (maxw u) - rd u c" using rd_diff [of u "maxw u" c] rd_le [of u c] a(4) by simp
  have b: "rd u ?s \<le> rd u (maxw u) - rd u c" "rd u ?s \<le> rd u (al_step al)" "0 \<le> rd u ?s"
    using d rd_le [of u c] rd_count(2) [OF assms(2), of u] by (auto simp: rdmin_def)
  have "rd u ?s = sint ?s" using b(2,3) rd_count(3) [OF assms(2), of u] by (intro rd_small) simp_all
  then have "rd u c + sint n \<le> rd u hi" unfolding k(1) using rd_add [of u c ?s] a(4) b s(2) by simp
  then show "rd u c \<le> rd u lo \<and> rd u lo + sint n \<le> rd u hi \<and> (\<exists>kvs'. rep x' kvs' \<and> catalogue (al_dbID al) t hi kvs')"
    using s(1) catalogue_auto [of rep x' kvs', OF k(2,3)] by blast
qed

lemma rebase_takes:
  assumes "storage_ok S T rep left fits committed" "count_ok (al_step al)"
  shows "takes u rep fits (al_dbID al) t 0 (rebase_txn u T al t req b)"
  unfolding takes_def
proof (intro allI impI)
  fix x kvs c v lo hi x'
  assume a: "rep x kvs" "room fits x 2048" "catalogue (al_dbID al) t c kvs" "0 \<le> rd u c" "rebase_txn u T al t req b v x = (None, (lo, hi), x')"
  have rm: "retriever_mutator (tx_retriever T) rep left (tx_mutator T) fits" using assms(1) by (simp add: storage_ok_def)
  obtain m x1 where m: "NewMeta T x [] = (m, x1)" by fastforce
  have m': "meta_on (tx_retriever T) (tx_mutator T) m" "rep x1 kvs" "room fits x1 2048" using NewMeta_ok [OF assms(1) a(1,2) m] by auto
  have l: "layout mMetaPrefix rep x1 kvs" "auto_rep (slots mMetaPrefix kvs) (al_dbID al) t c"
    using catalogue_layout [of rep x1 kvs, OF m'(2) a(3)] a(3) by (auto simp: catalogue_def)
  have g: "GetAutoTableID m x1 (al_dbID al) t = (None, c)" by (rule retriever_mutator.GetAutoTableID_rep [OF rm m'(1) l])
  show "rd u c \<le> rd u lo \<and> rd u lo + 0 \<le> rd u hi \<and> (\<exists>kvs'. rep x' kvs' \<and> catalogue (al_dbID al) t hi kvs')"
  proof (cases "\<not> b \<and> rd u req \<le> rd u c")
    case True
    then show ?thesis using a(5) m'(2) a(3) by (auto simp: rebase_txn_def m g)
  next
    case False
    let ?lo = "if b then rdmax u c req else req"
    let ?hi = "if b then rdmin u (maxw u - al_step al) ?lo + al_step al else req"
    have s: "lo = ?lo" "hi = ?hi" "\<exists>n. GenAutoTableID m x1 (al_dbID al) t (?hi - c) = ((None, n), x')"
      using a(5) False by (auto simp: rebase_txn_def m g Let_def split: if_splits prod.splits)
    then obtain kvs' where k: "layout mMetaPrefix rep x' kvs'" "auto_rep (slots mMetaPrefix kvs') (al_dbID al) t (c + (?hi - c))"
      using retriever_mutator.GenAutoTableID_rep [OF rm m'(1) l m'(3)] by blast
    have c: "rd u c \<le> rd u ?lo" using False by (auto simp: rdmax_def)
    have "0 < rd u (al_step al)" "rd u (al_step al) \<le> rd u (maxw u)" by (rule rd_count(2) [OF assms(2)], rule rd_le)
    then have d: "rd u (maxw u - al_step al) = rd u (maxw u) - rd u (al_step al)" using rd_diff [of u "maxw u" "al_step al"] by simp
    have "rd u ?lo \<le> rd u ?hi"
    proof (cases b)
      case True
      have "rd u (rdmin u (maxw u - al_step al) ?lo + al_step al) = rd u (rdmin u (maxw u - al_step al) ?lo) + rd u (al_step al)"
        using d c a(4) rd_count [OF assms(2), of u] rd_le [of u ?lo] rd_le [of u "al_step al"] by (intro rd_add) (auto simp: rdmin_def)
      then show ?thesis using True d rd_le [of u ?lo] rd_count(2) [OF assms(2), of u] by (auto simp: rdmin_def)
    qed simp
    then have lh: "rd u c \<le> rd u lo" "rd u lo \<le> rd u hi" using c unfolding s(1,2) by blast+
    have "c + (?hi - c) = hi" unfolding s(2) by (simp only: add_diff_eq add_diff_cancel_left')
    then have "rep x' kvs'" "catalogue (al_dbID al) t hi kvs'" using catalogue_auto [of rep x' kvs', OF k] by (simp_all only:)
    then show ?thesis using lh by auto
  qed
qed

end
