(* ===== verification/Autoid_Correct.thy ===== *)
theory Autoid_Correct
  imports Autoid_Counter
begin

text \<open>
  What the allocators of \<open>meta/autoid\<close> promise: whatever the order in which any number of allocators of a table
  work on a storage, no ID is handed out twice, and exactly when an allocation that finds the table succeeds.
\<close>

section \<open>No ID is handed out twice\<close>

text \<open>The IDs above the first and up to the second number of a pair; pairs with no common ID.\<close>

definition apart :: "int \<times> int \<Rightarrow> int \<times> int \<Rightarrow> bool" where
  "apart r s \<longleftrightarrow> {fst r <.. snd r} \<inter> {fst s <.. snd s} = {}"

lemma apart_sym: "apart r s \<longleftrightarrow> apart s r"
  by (auto simp: apart_def)

lemma apart_sub: "apart (a, b) s \<Longrightarrow> a \<le> a' \<Longrightarrow> b' \<le> b \<Longrightarrow> apart (a', b') s"
  by (fastforce simp: apart_def)

lemma apart_above: "b \<le> a' \<Longrightarrow> apart (a, b) (a', b')"
  by (auto simp: apart_def)

definition seg :: "bool \<Rightarrow> allocator \<Rightarrow> int \<times> int" where
  "seg u al = (rd u (al_base al), rd u (al_end al))"

text \<open>An allocator of the table, with a segment at or below the counter \<open>c\<close>.\<close>

definition al_ok :: "bool \<Rightarrow> u64 \<Rightarrow> int \<Rightarrow> allocator \<Rightarrow> bool" where
  "al_ok u d c al \<longleftrightarrow>
     isUnsigned al = u \<and> al_dbID al = d \<and> count_ok (al_step al) \<and>
     0 \<le> rd u (al_base al) \<and> rd u (al_base al) \<le> rd u (al_end al) \<and> rd u (al_end al) \<le> c"

lemma al_ok_mono: "al_ok u d c al \<Longrightarrow> c \<le> c' \<Longrightarrow> al_ok u d c' al"
  by (auto simp: al_ok_def)

lemma next_step_ok:
  assumes "count_ok n" shows "count_ok (next_step res n)"
proof -
  have "sint (n * 2) = 2 * sint n"
    using rd_add [of False n n] rd_maxw [of False] assms by (simp add: rd_def count_ok_def mult_2_right)
  then show ?thesis using assms by (simp add: next_step_def NextStep_def MinInt64'_def count_ok_def minStep_def maxStep_def Let_def)
qed

text \<open>
  An outcome of \<open>Alloc\<close>: the counter has not gone down, and a range that is returned is the start of the rest of the
  allocator's segment or lies above the counter.
\<close>

definition alloc_out ::
  "bool \<Rightarrow> u64 \<Rightarrow> u64 \<Rightarrow> u64 \<Rightarrow> ('st \<Rightarrow> (bytes \<times> bytes) list) \<Rightarrow> allocator \<Rightarrow> autoid_error option \<Rightarrow> u64 \<Rightarrow> u64 \<Rightarrow> allocator \<Rightarrow> 'st \<Rightarrow> bool" where
  "alloc_out u d t c committed al err mn mx al' st' \<longleftrightarrow>
     (\<exists>c'. rd u c \<le> rd u c' \<and> catalogue d t c' (committed st') \<and> al_ok u d (rd u c') al' \<and>
      (if err = None
       then rd u mn < rd u mx \<and> rd u mx = rd u (al_base al') \<and>
         (rd u (al_base al) = rd u mn \<and> rd u (al_end al') = rd u (al_end al) \<or> rd u c \<le> rd u mn)
       else seg u al' = seg u al))"

lemma alloc_segment:
  assumes "storage_ok S T rep left fits committed" "catalogue d t c (committed st)" "al_ok u d (rd u c) al" "count_ok n"
    and "RunInNewTxn S TxnErr retry_err True (alloc_txn u T (al\<lparr>al_step := next_step res n\<rparr>) t n) (0, 0) st = (err1, (lo, hi), st1)"
    and "(case err1 of
        Some err \<Rightarrow> ((Some err, 0, 0), al\<lparr>al_step := next_step res n\<rparr>, st1)
      | None \<Rightarrow> if lo = maxw u then ((Some ErrAutoincReadFailed, 0, 0), al\<lparr>al_step := next_step res n\<rparr>, st1)
          else ((None, lo, lo + n), al\<lparr>al_step := next_step res n, al_base := lo + n, al_end := hi\<rparr>, st1)) = ((err, mn, mx), al', st')"
  shows "alloc_out u d t c committed al err mn mx al' st'"
proof -
  define al1 where "al1 = al\<lparr>al_step := next_step res n\<rparr>"
  note n = rd_count [OF assms(4), of u]
  have s: "count_ok (al_step al1)" "al_dbID al1 = d" using next_step_ok [OF assms(4)] assms(3) by (simp_all add: al1_def al_ok_def)
  have k: "0 \<le> sint n" "0 \<le> rd u c" using n assms(3) by (auto simp: al_ok_def)
  note run = run_takes [OF assms(1) alloc_takes [OF assms(1) s(1) assms(4), of u t, unfolded s(2)] k(1) assms(2) k(2) assms(5) [folded al1_def]]
  have keep: "seg u al1 = seg u al" "al_ok u d (rd u c) al1" using assms(3) s by (auto simp: seg_def al1_def al_ok_def)
  show ?thesis
  proof (cases err1)
    case (Some e)
    then have "err = Some e" "al' = al1" "st' = st1" using assms(6) by (auto simp: al1_def)
    moreover obtain c' where "rd u c \<le> rd u c'" "catalogue d t c' (committed st1)" using run Some by auto
    ultimately show ?thesis using keep al_ok_mono [OF keep(2)] by (auto simp: alloc_out_def)
  next
    case None
    then have q: "rd u c \<le> rd u lo" "rd u lo + sint n \<le> rd u hi" "catalogue d t hi (committed st1)" using run by auto
    have m: "rd u (lo + n) = rd u lo + sint n" using rd_add [of u lo n] q k n rd_le [of u hi] by simp
    show ?thesis
    proof (cases "lo = maxw u")
      case True
      then have "err \<noteq> None" "al' = al1" "st' = st1" using None assms(6) by (auto simp: al1_def)
      moreover have "rd u c \<le> rd u hi" using q k(1) by simp
      ultimately show ?thesis using keep al_ok_mono [OF keep(2)] q(3) by (auto simp: alloc_out_def)
    next
      case False
      then have e: "err = None" "mn = lo" "mx = lo + n" "al' = al1\<lparr>al_base := lo + n, al_end := hi\<rparr>" "st' = st1"
        using None assms(6) by (auto simp: al1_def)
      have "al_ok u d (rd u hi) al'" using keep(2) q k m unfolding e(4) by (auto simp: al_ok_def)
      then show ?thesis using q m n e k unfolding alloc_out_def by (intro exI [of _ hi]) auto
    qed
  qed
qed

lemma alloc_gen_spec:
  assumes "storage_ok S T rep left fits committed" "catalogue d t c (committed st)" "al_ok u d (rd u c) al" "count_ok n"
    and "alloc_gen u S T al t n res st = ((err, mn, mx), al', st')"
  shows "alloc_out u d t c committed al err mn mx al' st'"
proof -
  have al: "0 \<le> rd u (al_base al)" "rd u (al_base al) \<le> rd u (al_end al)" "rd u (al_end al) \<le> rd u c" using assms(3) by (auto simp: al_ok_def)
  note n = rd_count [OF assms(4), of u]
  show ?thesis
  proof (cases "rd u (maxw u - al_base al) \<le> rd u n")
    case True
    then show ?thesis using assms by (auto simp: alloc_gen_def alloc_out_def)
  next
    case room: False
    have "rd u (maxw u - al_base al) = rd u (maxw u) - rd u (al_base al)" using rd_diff [of u "maxw u" "al_base al"] al(1) rd_le [of u "al_base al"] by simp
    then have b: "rd u (al_base al + n) = rd u (al_base al) + sint n" using rd_add [of u "al_base al" n] room al(1) n by simp
    show ?thesis
    proof (cases "rd u (al_base al + n) > rd u (al_end al)")
      case False
      then have "mn = al_base al" "mx = al_base al + n" "al' = al\<lparr>al_base := al_base al + n\<rparr>" "err = None" "st' = st"
        using assms(5) room by (auto simp: alloc_gen_def)
      then show ?thesis using assms(2,3) b False n al by (auto simp: al_ok_def alloc_out_def)
    next
      case True
      obtain err1 lo hi st1 where r: "RunInNewTxn S TxnErr retry_err True (alloc_txn u T (al\<lparr>al_step := next_step res n\<rparr>) t n) (0, 0) st = (err1, (lo, hi), st1)"
        by (metis prod_cases3 surj_pair)
      show ?thesis by (rule alloc_segment [OF assms(1-4) r])
        (use assms(5) room True r in \<open>cases err1; auto simp: alloc_gen_def Let_def split: if_splits\<close>)
    qed
  qed
qed

lemma rebase_gen_spec:
  assumes "storage_ok S T rep left fits committed" "catalogue d t c (committed st)" "al_ok u d (rd u c) al"
    and "rebase_gen u S T al t req b st = (err, al', st')"
  shows "\<exists>c'. rd u c \<le> rd u c' \<and> catalogue d t c' (committed st') \<and> al_ok u d (rd u c') al' \<and>
    (rd u (al_base al) \<le> rd u (al_base al') \<and> rd u (al_end al') = rd u (al_end al) \<or> rd u c \<le> rd u (al_base al'))"
proof -
  have al: "al_dbID al = d" "count_ok (al_step al)" "0 \<le> rd u c" "0 \<le> rd u (al_base al)" using assms(3) by (auto simp: al_ok_def)
  show ?thesis
  proof (cases "rd u req \<le> rd u (al_end al)")
    case True
    then have "al' = al \<or> rd u (al_base al) < rd u req \<and> al' = al\<lparr>al_base := req\<rparr>" "st' = st"
      using assms(4) by (auto simp: rebase_gen_def split: if_splits)
    then show ?thesis using assms(2,3) True by (auto simp: al_ok_def intro!: exI [of _ c])
  next
    case False
    obtain err1 lo hi st1 where r: "RunInNewTxn S TxnErr retry_err True (rebase_txn u T al t req b) (0, 0) st = (err1, (lo, hi), st1)"
      by (metis prod_cases3 surj_pair)
    note run = run_takes [OF assms(1) rebase_takes [OF assms(1) al(2), of u t req b, unfolded al(1)] order_refl assms(2) al(3) r]
    have "\<not> rd u req \<le> rd u (al_base al)" using False assms(3) by (auto simp: al_ok_def)
    then have g: "rebase_gen u S T al t req b st =
        (case err1 of Some err \<Rightarrow> (Some err, al, st1) | None \<Rightarrow> (None, al\<lparr>al_base := lo, al_end := hi\<rparr>, st1))"
      using False r by (simp add: rebase_gen_def split: option.splits)
    show ?thesis
    proof (cases err1)
      case (Some e)
      then obtain c' where "rd u c \<le> rd u c'" "catalogue d t c' (committed st1)" using run by auto
      then show ?thesis using g Some assms(4) al_ok_mono [OF assms(3)] by auto
    next
      case None
      then have q: "rd u c \<le> rd u lo" "rd u lo + 0 \<le> rd u hi" "catalogue d t hi (committed st1)" using run by auto
      have e: "al' = al\<lparr>al_base := lo, al_end := hi\<rparr>" "st' = st1" using g None assms(4) by auto
      have "al_ok u d (rd u hi) al'" using assms(3) q al unfolding e(1) by (auto simp: al_ok_def)
      then show ?thesis using q e by (intro exI [of _ hi]) auto
    qed
  qed
qed

text \<open>
  Any number of allocators of one table, the storage they share, and the ranges handed out so far.
\<close>

record 'st cluster =
  allocators :: "nat \<Rightarrow> allocator"
  storage :: 'st
  given :: "(u64 \<times> u64) list"

inductive cluster_step :: "('st, 'x) Storage \<Rightarrow> ('x, 'it) Transaction \<Rightarrow> u64 \<Rightarrow> 'st cluster \<Rightarrow> 'st cluster \<Rightarrow> bool"
  for S T tableID where
  alloc: "Alloc S T (allocators s i) tableID n res (storage s) = ((None, mn, mx), al', st') \<Longrightarrow> count_ok n \<Longrightarrow>
    cluster_step S T tableID s (s\<lparr>allocators := (allocators s)(i := al'), storage := st', given := (mn, mx) # given s\<rparr>)"
| fail: "Alloc S T (allocators s i) tableID n res (storage s) = ((Some err, mn, mx), al', st') \<Longrightarrow> count_ok n \<Longrightarrow>
    cluster_step S T tableID s (s\<lparr>allocators := (allocators s)(i := al'), storage := st'\<rparr>)"
| rebase: "Rebase S T (allocators s i) tableID req b (storage s) = (err, al', st') \<Longrightarrow>
    cluster_step S T tableID s (s\<lparr>allocators := (allocators s)(i := al'), storage := st'\<rparr>)"

definition cluster_inv :: "bool \<Rightarrow> u64 \<Rightarrow> u64 \<Rightarrow> ('st \<Rightarrow> (bytes \<times> bytes) list) \<Rightarrow> u64 \<Rightarrow> 'st cluster \<Rightarrow> bool" where
  "cluster_inv u d t committed c s \<longleftrightarrow>
     catalogue d t c (committed (storage s)) \<and> (\<forall>i. al_ok u d (rd u c) (allocators s i)) \<and>
     (\<forall>i j. i \<noteq> j \<longrightarrow> apart (seg u (allocators s i)) (seg u (allocators s j))) \<and>
     (\<forall>r \<in> set (given s). rd u (fst r) < rd u (snd r) \<and> rd u (snd r) \<le> rd u c \<and>
        (\<forall>i. apart (map_prod (rd u) (rd u) r) (seg u (allocators s i)))) \<and>
     sorted_wrt (\<lambda>r s. apart (map_prod (rd u) (rd u) r) (map_prod (rd u) (rd u) s)) (given s)"

text \<open>A segment is a rest of the one before, or it starts at the counter or above.\<close>

definition renews :: "bool \<Rightarrow> int \<Rightarrow> allocator \<Rightarrow> allocator \<Rightarrow> bool" where
  "renews u c al al' \<longleftrightarrow> rd u (al_base al) \<le> rd u (al_base al') \<and> rd u (al_end al') = rd u (al_end al) \<or> c \<le> rd u (al_base al')"

lemma renews_apart:
  assumes "renews u c al al'" "apart r (seg u al)" "snd r \<le> c" shows "apart r (seg u al')"
proof (cases "c \<le> rd u (al_base al')")
  case True
  then show ?thesis using assms(3) by (cases r) (simp add: seg_def apart_above)
next
  case False
  then have "rd u (al_base al) \<le> rd u (al_base al')" "rd u (al_end al') \<le> rd u (al_end al)" using assms(1) by (auto simp: renews_def)
  then show ?thesis using assms(2) apart_sub [of "rd u (al_base al)" "rd u (al_end al)" r] unfolding seg_def by (simp add: apart_sym [of r])
qed

lemma inv_renews:
  assumes "cluster_inv u d t committed c s" "rd u c \<le> rd u c'" "catalogue d t c' (committed st')" "al_ok u d (rd u c') al'"
    and "renews u (rd u c) (allocators s i) al'"
  shows "cluster_inv u d t committed c' (s\<lparr>allocators := (allocators s)(i := al'), storage := st'\<rparr>)"
proof -
  note inv = assms(1) [unfolded cluster_inv_def]
  have ok: "al_ok u d (rd u c) (allocators s j)" for j using inv by blast
  then have below: "snd (seg u (allocators s j)) \<le> rd u c" for j by (simp add: al_ok_def seg_def)
  have others: "apart (seg u (allocators s j)) (seg u al')" if "j \<noteq> i" for j
    using inv that renews_apart [OF assms(5) _ below] by blast
  have handed: "apart (map_prod (rd u) (rd u) r) (seg u al')" if "r \<in> set (given s)" for r
    using inv that by (intro renews_apart [OF assms(5)]) (auto simp: map_prod_def split: prod.splits)
  have "al_ok u d (rd u c') (((allocators s)(i := al')) j)" for j using al_ok_mono [OF ok assms(2)] assms(4) by simp
  moreover have "apart (seg u (((allocators s)(i := al')) j)) (seg u (((allocators s)(i := al')) k))" if "j \<noteq> k" for j k
    using that others inv apart_sym by (metis fun_upd_apply)
  moreover have "rd u (fst r) < rd u (snd r) \<and> rd u (snd r) \<le> rd u c' \<and> (\<forall>j. apart (map_prod (rd u) (rd u) r) (seg u (((allocators s)(i := al')) j)))"
    if "r \<in> set (given s)" for r
    using inv that handed [OF that] assms(2) by fastforce
  ultimately show ?thesis using assms(3) inv by (simp add: cluster_inv_def)
qed

lemma inv_give:
  assumes "cluster_inv u d t committed c' s" "rd u mn < rd u mx" "rd u mx \<le> rd u c'"
    and "\<And>i. apart (rd u mn, rd u mx) (seg u (allocators s i))" "\<And>r. r \<in> set (given s) \<Longrightarrow> apart (rd u mn, rd u mx) (map_prod (rd u) (rd u) r)"
  shows "cluster_inv u d t committed c' (s\<lparr>given := (mn, mx) # given s\<rparr>)"
  using assms by (simp add: cluster_inv_def)

lemma rebase_inv:
  assumes "storage_ok S T rep left fits committed" "cluster_inv u d t committed c s" "t \<noteq> 0"
    and "Rebase S T (allocators s i) t req b (storage s) = (err, al', st')"
  shows "\<exists>c'. cluster_inv u d t committed c' (s\<lparr>allocators := (allocators s)(i := al'), storage := st'\<rparr>)"
proof -
  have ok: "al_ok u d (rd u c) (allocators s i)" "isUnsigned (allocators s i) = u" "catalogue d t c (committed (storage s))"
    using assms(2) by (auto simp: cluster_inv_def al_ok_def)
  have "rebase_gen u S T (allocators s i) t req b (storage s) = (err, al', st')" using assms(3,4) ok(2) by (simp add: Rebase_gen)
  from rebase_gen_spec [OF assms(1) ok(3,1) this]
  obtain c' where "rd u c \<le> rd u c'" "catalogue d t c' (committed st')" "al_ok u d (rd u c') al'" "renews u (rd u c) (allocators s i) al'"
    unfolding renews_def by blast
  from inv_renews [OF assms(2) this] show ?thesis by blast
qed

lemma alloc_inv:
  assumes "storage_ok S T rep left fits committed" "cluster_inv u d t committed c s" "t \<noteq> 0" "count_ok n"
    and "Alloc S T (allocators s i) t n res (storage s) = ((err, mn, mx), al', st')"
  shows "\<exists>c'. cluster_inv u d t committed c' (s\<lparr>allocators := (allocators s)(i := al'), storage := st'\<rparr>) \<and>
    (err = None \<longrightarrow> cluster_inv u d t committed c' (s\<lparr>allocators := (allocators s)(i := al'), storage := st', given := (mn, mx) # given s\<rparr>))"
proof -
  note inv = assms(2) [unfolded cluster_inv_def]
  let ?al = "allocators s i"
  have ok: "al_ok u d (rd u c) ?al" "isUnsigned ?al = u" "catalogue d t c (committed (storage s))" using inv by (auto simp: al_ok_def)
  have "n \<noteq> 0" using assms(4) by (auto simp: count_ok_def)
  then have g: "alloc_gen u S T ?al t n res (storage s) = ((err, mn, mx), al', st')" using assms(3,5) ok(2) by (simp add: Alloc_gen)
  obtain c' where c: "rd u c \<le> rd u c'" "catalogue d t c' (committed st')" "al_ok u d (rd u c') al'"
    "if err = None
     then rd u mn < rd u mx \<and> rd u mx = rd u (al_base al') \<and>
       (rd u (al_base ?al) = rd u mn \<and> rd u (al_end al') = rd u (al_end ?al) \<or> rd u c \<le> rd u mn)
     else seg u al' = seg u ?al"
    using alloc_gen_spec [OF assms(1) ok(3,1) assms(4) g] unfolding alloc_out_def by blast
  have "renews u (rd u c) ?al al'" using c(4) by (auto simp: renews_def seg_def split: if_splits)
  note kept = inv_renews [OF assms(2) c(1-3) this]
  let ?s = "s\<lparr>allocators := (allocators s)(i := al'), storage := st'\<rparr>"
  have "cluster_inv u d t committed c' (?s\<lparr>given := (mn, mx) # given ?s\<rparr>)" if "err = None"
  proof (rule inv_give [OF kept])
    have e: "rd u mn < rd u mx" "rd u mx = rd u (al_base al')"
      "rd u (al_base ?al) = rd u mn \<and> rd u (al_end al') = rd u (al_end ?al) \<or> rd u c \<le> rd u mn" using c(4) that by simp_all
    have l: "rd u mx \<le> rd u (al_end al')" "rd u (al_end al') \<le> rd u c'" using c(3) e(2) by (auto simp: al_ok_def)
    have new: "apart (rd u mn, rd u mx) r" if "apart (seg u ?al) r" "snd r \<le> rd u c" for r
      using e(3)
    proof
      assume "rd u c \<le> rd u mn"
      then show ?thesis using that(2) apart_above [of "snd r" "rd u mn" "fst r"] apart_sym by (metis order_trans prod.collapse)
    next
      assume "rd u (al_base ?al) = rd u mn \<and> rd u (al_end al') = rd u (al_end ?al)"
      then show ?thesis using that(1) l(1) unfolding seg_def by (intro apart_sub [OF that(1) [unfolded seg_def]]) simp_all
    qed
    show "rd u mn < rd u mx" "rd u mx \<le> rd u c'" using e(1) l by simp_all
    show "apart (rd u mn, rd u mx) (seg u (allocators ?s j))" for j
    proof (cases "j = i")
      case True
      then show ?thesis using e(2) by (simp add: seg_def apart_above)
    next
      case False
      have "al_ok u d (rd u c) (allocators s j)" using inv by blast
      then show ?thesis using False inv new [of "seg u (allocators s j)"] by (simp add: al_ok_def seg_def)
    qed
    show "apart (rd u mn, rd u mx) (map_prod (rd u) (rd u) r)" if "r \<in> set (given ?s)" for r
      using inv that by (intro new) (auto simp: apart_sym [of "seg u ?al"] map_prod_def split: prod.splits)
  qed
  then show ?thesis using kept by auto
qed

lemma step_inv:
  assumes "storage_ok S T rep left fits committed" "cluster_inv u d t committed c s" "cluster_step S T t s s'" "t \<noteq> 0"
  shows "\<exists>c'. cluster_inv u d t committed c' s'"
  using assms(3)
proof cases
  case (alloc i n res mn mx al' st')
  then show ?thesis using alloc_inv [OF assms(1,2,4)] by blast
next
  case (fail i n res err mn mx al' st')
  then show ?thesis using alloc_inv [OF assms(1,2,4)] by blast
next
  case (rebase i req b err al' st')
  then show ?thesis using rebase_inv [OF assms(1,2,4)] by blast
qed

text \<open>C15: However many allocators of a table work on one storage, signed or unsigned, in whatever order they
  allocate, fewer than \<open>2^62\<close> IDs a call, and rebase, and whichever of their transactions fail or are retried, no ID is
  handed out twice: the ranges returned by successful calls of \<open>Alloc\<close> have no ID in common.\<close>

theorem ids_unique:
  assumes "storage_ok S T rep left fits committed" "catalogue d t c (committed (storage s))" "0 \<le> rd u c" "t \<noteq> 0"
    and "count_ok step" "\<forall>i. allocators s i = NewAllocator step d u" "given s = []" "(cluster_step S T t)\<^sup>*\<^sup>* s s'"
  shows "sorted_wrt (\<lambda>r r'. {rd u (fst r) <.. rd u (snd r)} \<inter> {rd u (fst r') <.. rd u (snd r')} = {}) (given s')"
proof -
  have "rd u 0 = 0" by (simp add: rd_def)
  then have i: "cluster_inv u d t committed c s"
    using assms(2,3,5-7) by (simp add: cluster_inv_def al_ok_def NewAllocator_def seg_def apart_def)
  from assms(8) have "\<exists>c'. cluster_inv u d t committed c' s'"
  proof (induction rule: rtranclp_induct)
    case base
    show ?case using i by blast
  next
    case (step s1 s2)
    then show ?case using step_inv [OF assms(1) _ _ assms(4)] by blast
  qed
  then show ?thesis by (auto simp: cluster_inv_def apart_def map_prod_def split_beta)
qed

section \<open>When an allocation succeeds\<close>

text \<open>The database and the table are in the catalogue.\<close>

definition in_catalogue :: "u64 \<Rightarrow> u64 \<Rightarrow> (bytes \<times> bytes) list \<Rightarrow> bool" where
  "in_catalogue d t kvs \<longleftrightarrow>
     slots mMetaPrefix kvs (HashSlot mDBs (dbKey d)) \<noteq> None \<and> slots mMetaPrefix kvs (HashSlot (dbKey d) (tableKey t)) \<noteq> None"

context retriever_mutator
begin

lemma GenAutoTableID_ok:
  assumes "meta_on R M m" "layout mMetaPrefix rep x kvs" "auto_rep (slots mMetaPrefix kvs) d t c" "room fits x 2048" "in_catalogue d t kvs"
  shows "\<exists>x'. GenAutoTableID m x d t step = ((None, c + step), x')"
proof -
  let ?p = mMetaPrefix and ?f = "autoTableIDKey t"
  obtain md h where h: "hash_rep (slots ?p kvs) mDBs md" "hash_rep (slots ?p kvs) (dbKey d) h"
    "h ?f = Some (FormatInt c) \<or> h ?f = None \<and> c = 0 \<and> card (dom h) + 1 < 2 ^ 63"
    using assms(3) by (auto simp: auto_rep_def)
  have w: "fits x (hash_writes ?p (dbKey d) h ?f (FormatInt (c + step)))"
    by (rule auto_writes_fit [OF assms(4)])
  have "h ?f = Some (FormatInt c) \<or> h ?f = None \<and> c = 0" "h ?f = None \<Longrightarrow> card (dom h) + 1 < 2 ^ 63" using h(3) by auto
  from inc_hash_rep [OF assms(2) h(2) this w] obtain x2 where s: "HInc (on_store R M ?p) x (dbKey d) ?f step = (None, c + step, x2)" by blast
  have "md (dbKey d) \<noteq> None" "h (tableKey t) \<noteq> None" using assms(5) hash_repD(3) [OF h(1)] hash_repD(3) [OF h(2)] by (auto simp: in_catalogue_def)
  then show ?thesis using assms(1) s get_hash_rep [OF assms(2) h(1), of "dbKey d"] get_hash_rep [OF assms(2) h(2), of "tableKey t"]
    by (auto simp: GenAutoTableID_def meta_on_def checkDBExists_def checkTableExists_def)
qed

end

text \<open>The step covers what is asked for exactly up to the largest step.\<close>

lemma next_step_covers:
  assumes "count_ok n" shows "sint n \<le> sint (next_step res n) \<longleftrightarrow> sint n \<le> 2000000"
proof -
  have "sint (n * 2) = 2 * sint n"
    using rd_add [of False n n] rd_maxw [of False] assms by (simp add: rd_def count_ok_def mult_2_right)
  then show ?thesis by (cases "sint (NextStep res) \<le> sint n") (use assms in \<open>simp_all add: next_step_def NextStep_def MinInt64'_def count_ok_def minStep_def maxStep_def split: if_splits\<close>)
qed

text \<open>
  The transaction of an allocator that finds the table takes a segment of the step, cut at the largest ID, and refuses when
  that is less than what is asked for.
\<close>

lemma alloc_txn_outcome:
  assumes "storage_ok S T rep left fits committed" "rep x kvs" "room fits x 2048" "catalogue d t c kvs" "in_catalogue d t kvs"
    and "0 \<le> rd u c" "count_ok n" "al_dbID al = d" "al_step al = next_step res n"
  defines "s \<equiv> rdmin u (maxw u - c) (next_step res n)"
  shows "if sint n \<le> 2000000 \<and> rd u c + sint n \<le> rd u (maxw u)
    then \<exists>x' kvs'. alloc_txn u T al t n v x = (None, (c, c + s), x') \<and> rep x' kvs' \<and> catalogue d t (c + s) kvs'
    else \<exists>x'. alloc_txn u T al t n v x = (Some ErrAutoincReadFailed, (c, snd v), x')"
proof -
  have rm: "retriever_mutator (tx_retriever T) rep left (tx_mutator T) fits" using assms(1) by (simp add: storage_ok_def)
  obtain m x1 where m: "NewMeta T x [] = (m, x1)" by fastforce
  have m': "meta_on (tx_retriever T) (tx_mutator T) m" "rep x1 kvs" "room fits x1 2048" using NewMeta_ok [OF assms(1-3) m] by auto
  have l: "layout mMetaPrefix rep x1 kvs" "auto_rep (slots mMetaPrefix kvs) d t c"
    using catalogue_layout [of rep x1 kvs, OF m'(2) assms(4)] assms(4) by (auto simp: catalogue_def)
  have g: "GetAutoTableID m x1 d t = (None, c)" by (rule retriever_mutator.GetAutoTableID_rep [OF rm m'(1) l])
  obtain x2 where x2: "GenAutoTableID m x1 d t s = ((None, c + s), x2)"
    using retriever_mutator.GenAutoTableID_ok [OF rm m'(1) l m'(3) assms(5)] by blast
  obtain kvs2 where k: "rep x2 kvs2" "catalogue d t (c + s) kvs2"
    using retriever_mutator.GenAutoTableID_rep [OF rm m'(1) l m'(3) x2] catalogue_auto [of rep x2] by blast
  have d: "rd u (maxw u - c) = rd u (maxw u) - rd u c" using rd_diff [of u "maxw u" c] rd_le [of u c] assms(6) by simp
  note ns = rd_count [OF next_step_ok [OF assms(7), of res], of u]
  have "rd u s = sint s" using d rd_le [of u c] ns by (intro rd_small) (auto simp: s_def rdmin_def)
  moreover have "rd u s = min (rd u (maxw u) - rd u c) (sint (next_step res n))" using d ns(1) by (simp add: s_def rdmin_def)
  ultimately have "sint s < sint n \<longleftrightarrow> \<not> (sint n \<le> 2000000 \<and> rd u c + sint n \<le> rd u (maxw u))"
    using next_step_covers [OF assms(7), of res] by auto
  then show ?thesis using g x2 k assms(8,9) by (auto simp: alloc_txn_def m Let_def s_def)
qed

text \<open>A fresh allocator has no segment and runs the transaction.\<close>

lemma fresh_outcome:
  fixes res step :: u64
  assumes "storage_ok S T rep left fits committed" "catalogue d t c (committed st)" "in_catalogue d t (committed st)" "t \<noteq> 0"
    and "0 \<le> rd u c" "count_ok n" "st_Begin S st = (Inr x, st1)" "\<forall>x kvs st. rep x kvs \<longrightarrow> fst (st_Commit S x st) = None"
  defines "s \<equiv> rdmin u (maxw u - c) (next_step res n)" and "al \<equiv> (NewAllocator step d u)\<lparr>al_step := next_step res n\<rparr>"
  shows "\<exists>st'. if sint n \<le> 2000000 \<and> rd u c + sint n \<le> rd u (maxw u)
    then Alloc S T (NewAllocator step d u) t n res st = ((None, c, c + n), al\<lparr>al_base := c + n, al_end := c + s\<rparr>, st') \<and>
      rd u (c + n) = rd u c + sint n \<and> catalogue d t (c + s) (committed st')
    else Alloc S T (NewAllocator step d u) t n res st = ((Some ErrAutoincReadFailed, 0, 0), al, st') \<and> committed st' = committed st"
proof -
  note n = rd_count [OF assms(6), of u] and ok = assms(1) [unfolded storage_ok_def]
  have x: "rep x (committed st)" "room fits x 2048" "committed st1 = committed st" using ok assms(7) by blast+
  have al: "al_dbID al = d" "al_step al = next_step res n" by (simp_all add: al_def NewAllocator_def)
  note t = alloc_txn_outcome [OF assms(1) x(1,2) assms(2,3,5,6) al, of "(0, 0)", folded s_def]
  have z: "rd u 0 = 0" "rd u (maxw u) > 2 ^ 62" by (simp_all add: rd_maxw) (simp add: rd_def)
  then have "n \<noteq> 0" using n(2) by auto
  have a: "Alloc S T (NewAllocator step d u) t n res st =
      (case RunInNewTxn S TxnErr retry_err True (alloc_txn u T al t n) (0, 0) st of
         (Some err, _, st) \<Rightarrow> ((Some err, 0, 0), al, st)
       | (None, (newBase, newEnd), st) \<Rightarrow>
           if newBase = maxw u then ((Some ErrAutoincReadFailed, 0, 0), al, st)
           else ((None, newBase, newBase + n), al\<lparr>al_base := newBase + n, al_end := newEnd\<rparr>, st))"
    using assms(4) n z \<open>n \<noteq> 0\<close> by (simp add: Alloc_gen alloc_gen_def NewAllocator_def al_def Let_def split: option.split prod.split)
  show ?thesis
  proof (cases "sint n \<le> 2000000 \<and> rd u c + sint n \<le> rd u (maxw u)")
    case True
    then obtain x' kvs' where f: "alloc_txn u T al t n (0, 0) x = (None, (c, c + s), x')" "rep x' kvs'" "catalogue d t (c + s) kvs'" using t by auto
    obtain st' where st': "st_Commit S x' st1 = (None, st')" using assms(8) f(2) by (metis prod.collapse)
    have r: "RunInNewTxn S TxnErr retry_err True (alloc_txn u T al t n) (0, 0) st = (None, (c, c + s), st')"
      unfolding RunInNewTxn_def maxRetryCnt_def using assms(7) f(1) st' by (simp add: numeral_eq_Suc)
    have "committed st' = kvs'" using ok st' f(2) by blast
    moreover have "c \<noteq> maxw u" using True n(1,2) by auto
    moreover have "rd u (c + n) = rd u c + sint n" using rd_add [of u c n] True n assms(5) by simp
    ultimately show ?thesis using True f(3) by (auto simp: a r)
  next
    case False
    then obtain x' where f: "alloc_txn u T al t n (0, 0) x = (Some ErrAutoincReadFailed, (c, 0), x')" using t by auto
    obtain e st' where st': "st_Rollback S x' st1 = (e, st')" by fastforce
    have r: "RunInNewTxn S TxnErr retry_err True (alloc_txn u T al t n) (0, 0) st = (Some ErrAutoincReadFailed, (c, 0), st')"
      unfolding RunInNewTxn_def maxRetryCnt_def using assms(7) f st' by (simp add: numeral_eq_Suc)
    have "committed st' = committed st" using ok st' x(3) by metis
    then show ?thesis using False by (auto simp: a r)
  qed
qed

section \<open>A storage that runs one transaction at a time\<close>

text \<open>
  The storage of the examples holds a sorted list of pairs; a transaction is a union store over an in-memory
  snapshot of it, and a commit stores what the union store iterates over.
\<close>

definition ex_storage :: "((bytes \<times> bytes) list, memDbBuffer unionStore) Storage" where
  "ex_storage =
     \<lparr>st_Begin = (\<lambda>kvs. (case ex_load kvs of None \<Rightarrow> Inl (ErrOther 0) | Some snap \<Rightarrow> Inr (NewUnionStore 0x100000 (\<lambda>_ _. 0) snap), kvs)),
      st_Commit = (\<lambda>x kvs. case r_Iter (unionStore_retriever mockSnapshot) x None None of
           Inl e \<Rightarrow> (Some e, kvs)
         | Inr it \<Rightarrow> (case WalkMemBuffer_loop (r_iterator (unionStore_retriever mockSnapshot) x) collect it [] of
             Some (None, kvs') \<Rightarrow> (None, kvs')
           | _ \<Rightarrow> (Some (ErrOther 0), kvs))),
      st_Rollback = (\<lambda>x kvs. (None, kvs))\<rparr>"

definition ex_transaction :: "(memDbBuffer unionStore, (bufferIter, memDbIter) UnionIter) Transaction" where
  "ex_transaction = \<lparr>tx_retriever = unionStore_retriever mockSnapshot, tx_mutator = unionStore_mutator, tx_SetOption = SetOption, tx_StartTS = (\<lambda>_. 0)\<rparr>"

lemma ex_commit:
  assumes "us_rep mock_rep x kvs" shows "st_Commit ex_storage x st = (None, kvs)"
proof -
  let ?U = "unionStore_retriever mockSnapshot"
  obtain it where it: "r_Iter ?U x None None = Inr it" "us_left (\<lambda>m. mem_left (mb_db m)) x it (in_range None None kvs)"
    using ustore.iter_rep [OF assms] by blast
  have "in_range None None kvs = kvs" by (simp add: in_range_def)
  then show ?thesis using it kv_iterator.walk_left [OF ustore.iterator it(2), of collect "[]"] by (simp add: ex_storage_def each_entry_collect)
qed

lemma ex_storage_ok:
  "storage_ok ex_storage ex_transaction (us_rep mock_rep) (us_left (\<lambda>m. mem_left (mb_db m))) us_fits id"
  unfolding storage_ok_def
proof (intro conjI)
  show "retriever_mutator (tx_retriever ex_transaction) (us_rep mock_rep) (us_left (\<lambda>m. mem_left (mb_db m))) (tx_mutator ex_transaction) us_fits"
    using ustore.retriever_mutator_axioms by (simp add: ex_transaction_def)
  show "\<forall>x kvs opt val. opt \<noteq> PresumeKeyNotExistsError \<and> us_rep mock_rep x kvs \<longrightarrow> us_rep mock_rep (tx_SetOption ex_transaction x opt val) kvs"
    by (auto simp: ex_transaction_def SetOption_def us_rep_def)
  show "\<forall>x opt val ws. us_fits (tx_SetOption ex_transaction x opt val) ws \<longleftrightarrow> us_fits x ws"
    by (simp add: ex_transaction_def SetOption_def us_fits_def)
  have b: "us_rep mock_rep x kvs \<and> room us_fits x 2048" if "st_Begin ex_storage kvs = (Inr x, st')" for kvs x st'
  proof -
    note h = that
    obtain snap where l: "ex_load kvs = Some snap" "x = NewUnionStore 0x100000 (\<lambda>_ _. 0) snap" using h by (auto simp: ex_storage_def split: option.splits)
    then have "storable_kvs kvs" by (auto simp: ex_load_def split: if_splits)
    then have "mock_rep snap kvs" using ex_load_rep l(1) by fastforce
    then show ?thesis unfolding l(2) using ex_transaction_room by blast
  qed
  show "\<forall>st c st'. st_Begin ex_storage st = (c, st') \<longrightarrow> id st' = id st \<and> (\<forall>x. c = Inr x \<longrightarrow> us_rep mock_rep x (id st) \<and> room us_fits x 2048)"
    using b by (auto simp: ex_storage_def)
  note c = ex_commit
  show "\<forall>st x kvs st'. st_Commit ex_storage x st = (None, st') \<and> us_rep mock_rep x kvs \<longrightarrow> id st' = kvs" using c by fastforce
  show "\<forall>st x kvs e st'. st_Commit ex_storage x st = (Some e, st') \<and> us_rep mock_rep x kvs \<longrightarrow> id st' = id st \<or> id st' = kvs" using c by fastforce
  show "\<forall>st x r st'. st_Rollback ex_storage x st = (r, st') \<longrightarrow> id st' = id st" by (simp add: ex_storage_def)
qed

lemma ex_catalogue: "catalogue 1 2 0 ex_kvs" "in_catalogue 1 2 ex_kvs"
proof -
  have "auto_rep (slots mMetaPrefix ex_kvs) 1 2 0" unfolding auto_rep_def
    using ex_kvs_hashes by (intro exI [of "\<lambda>md. \<exists>m. hash_rep _ mDBs md \<and> _ m" "[dbKey 1 \<mapsto> [1]]"] exI [of _ "[tableKey 2 \<mapsto> [2]]"]) auto
  then show "catalogue 1 2 0 ex_kvs" by (auto simp: catalogue_def ex_kvs_def ex_slots_def split: if_splits)
  show "in_catalogue 1 2 ex_kvs" unfolding in_catalogue_def ex_kvs_slots by (simp add: ex_slots_def)
qed

lemma ex_begin: "\<exists>x. st_Begin ex_storage ex_kvs = (Inr x, ex_kvs)"
  using ex_load_rep [OF ex_kvs_storable] by (auto simp: ex_storage_def)

text \<open>C22: On a storage whose transactions begin and commit, a fresh allocator of a table of the catalogue, signed
  or unsigned, is asked for \<open>n\<close> IDs, \<open>0 < n < 2^62\<close>.  Exactly when \<open>n\<close> is at most the largest step, 2000000, and \<open>n\<close> IDs are left
  above the table's counter \<open>c\<close>, it succeeds: it hands out the \<open>n\<close> IDs that follow \<open>c\<close> and the stored counter moves to the end of its
  segment.  In every other case it fails with \<open>ErrAutoincReadFailed\<close>, keeps its empty segment and leaves the stored state; so
  more than 2000000 IDs are never handed out at once, however many are left.\<close>

theorem Alloc_takes_next:
  assumes "storage_ok S T rep left fits committed" "catalogue d t c (committed st)" "in_catalogue d t (committed st)" "t \<noteq> 0"
    and "0 \<le> rd u c" "count_ok n" "st_Begin S st = (Inr x, st1)" "\<forall>x kvs st. rep x kvs \<longrightarrow> fst (st_Commit S x st) = None"
  shows "let s = rdmin u (maxw u - c) (next_step res n); al = (NewAllocator step d u)\<lparr>al_step := next_step res n\<rparr> in
    \<exists>st'. if sint n \<le> 2000000 \<and> rd u c + sint n \<le> rd u (maxw u)
      then Alloc S T (NewAllocator step d u) t n res st = ((None, c, c + n), al\<lparr>al_base := c + n, al_end := c + s\<rparr>, st') \<and>
        rd u (c + n) = rd u c + sint n \<and> catalogue d t (c + s) (committed st')
      else Alloc S T (NewAllocator step d u) t n res st = ((Some ErrAutoincReadFailed, 0, 0), al, st') \<and> committed st' = committed st"
  unfolding Let_def by (rule fresh_outcome [OF assms])

theorem Alloc_takes_next_witness:
  "(\<exists>st'. Alloc ex_storage ex_transaction (NewAllocator 30000 1 False) 2 5 1000 ex_kvs =
      ((None, 0, 5), (NewAllocator 30000 1 False)\<lparr>al_base := 5, al_end := 30000\<rparr>, st') \<and> catalogue 1 2 30000 st') \<and>
   (\<exists>st'. Alloc ex_storage ex_transaction (NewAllocator 30000 1 False) 2 1000000 1000 ex_kvs =
      ((None, 0, 1000000), (NewAllocator 2000000 1 False)\<lparr>al_base := 1000000, al_end := 2000000\<rparr>, st') \<and> catalogue 1 2 2000000 st') \<and>
   (\<exists>st'. Alloc ex_storage ex_transaction (NewAllocator 30000 1 True) 2 2000001 1000 ex_kvs =
      ((Some ErrAutoincReadFailed, 0, 0), NewAllocator 2000000 1 True, st') \<and> st' = ex_kvs)"
proof -
  obtain x where x: "st_Begin ex_storage ex_kvs = (Inr x, ex_kvs)" using ex_begin by blast
  have c: "\<forall>x kvs st. us_rep mock_rep x kvs \<longrightarrow> fst (st_Commit ex_storage x st) = None" using ex_commit by simp
  have k: "catalogue 1 2 0 (id ex_kvs)" "in_catalogue 1 2 (id ex_kvs)" "(2 :: u64) \<noteq> 0" "0 \<le> rd u 0" for u
    using ex_catalogue by (simp_all add: rd_def)
  have n: "count_ok 5" "count_ok 1000000" "count_ok 2000001" by (simp_all add: count_ok_def)
  note defs = Let_def rd_def rdmin_def maxw_def next_step_def NextStep_def MinInt64'_def minStep_def maxStep_def NewAllocator_def
  show ?thesis
    using Alloc_takes_next [OF ex_storage_ok k n(1) x c, of False 1000 30000] Alloc_takes_next [OF ex_storage_ok k n(2) x c, of False 1000 30000]
      Alloc_takes_next [OF ex_storage_ok k n(3) x c, of True 1000 30000]
    by (intro conjI; simp add: defs)
qed

theorem ids_unique_witness:
  "\<exists>s'. (cluster_step ex_storage ex_transaction 2)\<^sup>*\<^sup>*
      \<lparr>allocators = \<lambda>_. NewAllocator 30000 1 True, storage = ex_kvs, given = []\<rparr> s' \<and> given s' = [(5, 8), (0, 5)] \<and>
    sorted_wrt (\<lambda>r r'. {rd True (fst r) <.. rd True (snd r)} \<inter> {rd True (fst r') <.. rd True (snd r')} = {}) (given s')"
proof -
  let ?S = ex_storage and ?T = ex_transaction and ?al = "NewAllocator 30000 1 True"
  define al1 where "al1 = ?al\<lparr>al_base := 5, al_end := 30000\<rparr>"
  define s where "s = \<lparr>allocators = \<lambda>_. ?al, storage = ex_kvs, given = []\<rparr>"
  obtain x where x: "st_Begin ?S ex_kvs = (Inr x, ex_kvs)" using ex_begin by blast
  have "\<forall>x kvs st. us_rep mock_rep x kvs \<longrightarrow> fst (st_Commit ?S x st) = None" using ex_commit by simp
  from fresh_outcome [OF ex_storage_ok _ _ _ _ _ x this, of 1 2 0 True 5 30000 1000]
  obtain st where a: "Alloc ?S ?T (allocators s 0) 2 5 1000 (storage s) = ((None, 0, 5), al1, st)"
    using ex_catalogue by (auto simp: rd_def rdmin_def maxw_def count_ok_def next_step_def NextStep_def MinInt64'_def minStep_def maxStep_def Let_def
        NewAllocator_def unsigned_minus_1_eq_mask mask_eq_exp_minus_1 al1_def s_def)
  define s1 where "s1 = s\<lparr>allocators := (allocators s)(0 := al1), storage := st, given := (0, 5) # given s\<rparr>"
  have c: "count_ok 5" "count_ok 3" by (simp_all add: count_ok_def)
  have 1: "cluster_step ?S ?T 2 s s1" unfolding s1_def by (rule cluster_step.alloc [OF a c(1)])
  have b: "Alloc ?S ?T (allocators s1 0) 2 3 1000 (storage s1) = ((None, 5, 8), al1\<lparr>al_base := 8\<rparr>, st)"
    by (simp add: Alloc_gen alloc_gen_def NewAllocator_def rd_def maxw_def unsigned_minus_1_eq_mask mask_eq_exp_minus_1 al1_def s1_def)
  define s2 where "s2 = s1\<lparr>allocators := (allocators s1)(0 := al1\<lparr>al_base := 8\<rparr>), storage := st, given := (5, 8) # given s1\<rparr>"
  have 2: "cluster_step ?S ?T 2 s1 s2" unfolding s2_def by (rule cluster_step.alloc [OF b c(2)])
  have r: "(cluster_step ?S ?T 2)\<^sup>*\<^sup>* s s2" by (rule rtranclp.rtrancl_into_rtrancl [OF r_into_rtranclp [of "cluster_step ?S ?T 2", OF 1] 2])
  have s: "catalogue 1 2 0 (id (storage s))" "0 \<le> rd True 0" "(2 :: u64) \<noteq> 0" "count_ok 30000" "\<forall>i. allocators s i = NewAllocator 30000 1 True" "given s = []"
    using ex_catalogue by (simp_all add: s_def rd_def count_ok_def)
  have "given s2 = [(5, 8), (0, 5)]" by (simp add: s2_def s1_def s_def)
  then show ?thesis using r ids_unique [OF ex_storage_ok s r] unfolding s_def by blast
qed

end
