(* ===== verification/Overflow.thy ===== *)
theory Overflow
  imports Prelude "HOL-Library.Signed_Division"
begin

text \<open>
  The arithmetic of \<open>types/overflow.go\<close> on 64-bit integers: each function returns the exact result or the overflow
  error, \<open>SubInt64\<close> with one exception.  A duration is an \<open>int64\<close>; a division by zero panics.
\<close>

section \<open>Operations\<close>

datatype arith_error = types_ErrOverflow | DivideByZero

definition AddUint64 :: "u64 \<Rightarrow> u64 \<Rightarrow> arith_error + u64" where
  "AddUint64 a b = (if MaxUint64 - a < b then Inl types_ErrOverflow else Inr (a + b))"

definition AddInt64 :: "u64 \<Rightarrow> u64 \<Rightarrow> arith_error + u64" where
  "AddInt64 a b =
     (if sint a > 0 \<and> sint b > 0 \<and> sint (MaxInt64 - a) < sint b \<or> sint a < 0 \<and> sint b < 0 \<and> sint (MinInt64 - a) > sint b
      then Inl types_ErrOverflow else Inr (a + b))"

definition AddDuration :: "u64 \<Rightarrow> u64 \<Rightarrow> arith_error + u64" where
  "AddDuration a b =
     (if sint a > 0 \<and> sint b > 0 \<and> sint (MaxInt64 - a) < sint b \<or> sint a < 0 \<and> sint b < 0 \<and> sint (MinInt64 - a) > sint b
      then Inl types_ErrOverflow else Inr (a + b))"

definition AddInteger :: "u64 \<Rightarrow> u64 \<Rightarrow> arith_error + u64" where
  "AddInteger a b = (if sint b \<ge> 0 then AddUint64 a b else if - b > a then Inl types_ErrOverflow else Inr (a - (- b)))"

definition SubUint64 :: "u64 \<Rightarrow> u64 \<Rightarrow> arith_error + u64" where
  "SubUint64 a b = (if a < b then Inl types_ErrOverflow else Inr (a - b))"

definition SubInt64 :: "u64 \<Rightarrow> u64 \<Rightarrow> arith_error + u64" where
  "SubInt64 a b =
     (if sint a > 0 \<and> sint b < 0 \<and> sint (MaxInt64 - a) < sint (- b) \<or> sint a < 0 \<and> sint b > 0 \<and> sint (MinInt64 - a) > sint (- b) \<or>
        a = 0 \<and> b = MinInt64
      then Inl types_ErrOverflow else Inr (a - b))"

definition SubUintWithInt :: "u64 \<Rightarrow> u64 \<Rightarrow> arith_error + u64" where
  "SubUintWithInt a b = (if sint b < 0 then AddUint64 a (- b) else SubUint64 a b)"

definition SubIntWithUint :: "u64 \<Rightarrow> u64 \<Rightarrow> arith_error + u64" where
  "SubIntWithUint a b = (if sint a < 0 \<or> a < b then Inl types_ErrOverflow else Inr (a - b))"

definition MulUint64 :: "u64 \<Rightarrow> u64 \<Rightarrow> arith_error + u64" where
  "MulUint64 a b = (if b > 0 \<and> a > MaxUint64 div b then Inl types_ErrOverflow else Inr (a * b))"

definition MulInt64 :: "u64 \<Rightarrow> u64 \<Rightarrow> arith_error + u64" where
  "MulInt64 a b =
     (if a = 0 \<or> b = 0 then Inr 0
      else
        let (r, negative) =
              (if sint a > 0 \<and> sint b > 0 then (MulUint64 a b, False)
               else if sint a < 0 \<and> sint b < 0 then (MulUint64 (- a) (- b), False)
               else if sint a < 0 \<and> sint b > 0 then (MulUint64 (- a) b, True)
               else (MulUint64 a (- b), True))
        in case r of
             Inl err \<Rightarrow> Inl err
           | Inr res \<Rightarrow>
               if negative then (if res > MaxInt64 + 1 then Inl types_ErrOverflow else Inr (- res))
               else (if res > MaxInt64 then Inl types_ErrOverflow else Inr res))"

definition MulInteger :: "u64 \<Rightarrow> u64 \<Rightarrow> arith_error + u64" where
  "MulInteger a b = (if a = 0 \<or> b = 0 then Inr 0 else if sint b < 0 then Inl types_ErrOverflow else MulUint64 a b)"

definition DivInt64 :: "u64 \<Rightarrow> u64 \<Rightarrow> arith_error + u64" where
  "DivInt64 a b =
     (if a = MinInt64 \<and> b = - 1 then Inl types_ErrOverflow
      else if b = 0 then Inl DivideByZero else Inr (word_of_int (sint a sdiv sint b)))"

definition DivUintWithInt :: "u64 \<Rightarrow> u64 \<Rightarrow> arith_error + u64" where
  "DivUintWithInt a b =
     (if sint b < 0 then (if a \<noteq> 0 \<and> - b \<le> a then Inl types_ErrOverflow else Inr 0)
      else if b = 0 then Inl DivideByZero else Inr (a div b))"

definition DivIntWithUint :: "u64 \<Rightarrow> u64 \<Rightarrow> arith_error + u64" where
  "DivIntWithUint a b =
     (if sint a < 0 then (if - a \<ge> b then Inl types_ErrOverflow else Inr 0)
      else if b = 0 then Inl DivideByZero else Inr (a div b))"

section \<open>The exact results\<close>

definition exact_uint :: "int \<Rightarrow> arith_error + u64" where
  "exact_uint z = (if 0 \<le> z \<and> z < 2 ^ 64 then Inr (word_of_int z) else Inl types_ErrOverflow)"

definition exact_int :: "int \<Rightarrow> arith_error + u64" where
  "exact_int z = (if - (2 ^ 63) \<le> z \<and> z < 2 ^ 63 then Inr (word_of_int z) else Inl types_ErrOverflow)"

named_theorems reads \<open>how the integers of machine words are read\<close>

lemma uint_range: "0 \<le> uint (a :: u64)" "uint a < 2 ^ 64"
  using uint_lt2p [of a] by simp_all

lemma sint_range: "- (2 ^ 63) \<le> sint (a :: u64)" "sint a < 2 ^ 63"
  using sint_ge [of a] sint_lt [of a] by simp_all

lemma mod_once:
  fixes z m :: int
  assumes "- m \<le> z" "z < 2 * m"
  shows "z mod m = (if z < 0 then z + m else if z < m then z else z - m)"
proof -
  have "(z + m) mod m = z mod m" "(z - m) mod m = z mod m" by simp_all
  then show ?thesis using assms mod_pos_pos_trivial [of "z + m" m] mod_pos_pos_trivial [of z m] mod_pos_pos_trivial [of "z - m" m] by auto
qed

lemma sint_read [reads]: "sint (a :: u64) = (if uint a < 2 ^ 63 then uint a else uint a - 2 ^ 64)"
proof -
  have "sint a = signed_take_bit 63 (uint a)" by (simp add: sint_uint)
  also have "\<dots> = (uint a + 2 ^ 63) mod 2 ^ 64 - 2 ^ 63" by (simp add: signed_take_bit_eq_take_bit_shift take_bit_eq_mod)
  finally show ?thesis using uint_range [of a] mod_once [of "2 ^ 64" "uint a + 2 ^ 63"] by (auto split: if_splits)
qed

lemma uint_neg [reads]: "uint (- (a :: u64)) = (if uint a = 0 then 0 else 2 ^ 64 - uint a)"
  using uint_range [of a] by (auto simp: uint_word_ariths zmod_zminus1_eq_if unat_eq_zero uint_0_iff)

lemma uint_plus [reads]: "uint (a + b :: u64) = (if uint a + uint b < 2 ^ 64 then uint a + uint b else uint a + uint b - 2 ^ 64)"
  using uint_range [of a] uint_range [of b] by (simp add: uint_plus_if')

lemma uint_minus [reads]: "uint (a - b :: u64) = (if uint b \<le> uint a then uint a - uint b else uint a - uint b + 2 ^ 64)"
  using uint_range [of a] uint_range [of b] by (simp add: uint_sub_if')

lemma uint_max [reads]: "uint MaxUint64 = 2 ^ 64 - 1" 
  by (simp add: unsigned_minus_1_eq_mask mask_eq_exp_minus_1)

lemma word_of_int_eq: "- (2 ^ 64) < z \<Longrightarrow> z < 2 ^ 64 \<Longrightarrow> word_of_int z = (a :: u64) \<longleftrightarrow> uint a = (if 0 \<le> z then z else z + 2 ^ 64)"
proof -
  assume z: "- (2 ^ 64) < z" "z < 2 ^ 64"
  have "word_of_int z = a \<longleftrightarrow> uint (word_of_int z :: u64) = uint a" by (simp add: word_uint_eq_iff)
  also have "uint (word_of_int z :: u64) = z mod 2 ^ 64" by (simp add: unsigned_of_int take_bit_eq_mod)
  also have "z mod 2 ^ 64 = (if 0 \<le> z then z else z + 2 ^ 64)"
    using z by (simp add: mod_once)
  finally show ?thesis by auto
qed

lemma word_less_uint [reads]: "(a :: u64) < b \<longleftrightarrow> uint a < uint b" "(a :: u64) \<le> b \<longleftrightarrow> uint a \<le> uint b"
  by (simp_all add: word_less_def word_le_def)

lemma uint_pos [reads]: "0 < uint (a :: u64) \<longleftrightarrow> uint a \<noteq> 0"
  using uint_range(1) [of a] by linarith

lemma by_reads:
  assumes "\<And>x y. uint (a :: u64) = x \<Longrightarrow> uint (b :: u64) = y \<Longrightarrow> 0 \<le> x \<Longrightarrow> x < 2 ^ 64 \<Longrightarrow> 0 \<le> y \<Longrightarrow> y < 2 ^ 64 \<Longrightarrow> P" shows P
  using assms uint_range by blast

lemma AddUint64_exact: "AddUint64 a b = exact_uint (uint a + uint b)"
  by (rule by_reads [of a b]) (auto simp: AddUint64_def exact_uint_def reads word_of_int_eq word_uint_eq_iff split: if_splits)

lemma AddInt64_exact: "AddInt64 a b = exact_int (sint a + sint b)"
  by (rule by_reads [of a b]) (auto simp: AddInt64_def exact_int_def reads word_of_int_eq word_uint_eq_iff split: if_splits)

lemma AddDuration_exact: "AddDuration a b = exact_int (sint a + sint b)"
  using AddInt64_exact by (simp add: AddDuration_def AddInt64_def)

lemma AddInteger_exact: "AddInteger a b = exact_uint (uint a + sint b)"
  by (rule by_reads [of a b]) (auto simp: AddInteger_def AddUint64_def exact_uint_def reads word_of_int_eq word_uint_eq_iff split: if_splits)

lemma SubUint64_exact: "SubUint64 a b = exact_uint (uint a - uint b)"
  by (rule by_reads [of a b]) (auto simp: SubUint64_def exact_uint_def reads word_of_int_eq word_uint_eq_iff split: if_splits)

lemma SubInt64_exact: "\<not> (sint a > 0 \<and> b = MinInt64) \<Longrightarrow> SubInt64 a b = exact_int (sint a - sint b)"
  by (rule by_reads [of a b]) (auto simp: SubInt64_def exact_int_def reads word_of_int_eq word_uint_eq_iff split: if_splits)

lemma SubInt64_min: "sint a > 0 \<Longrightarrow> SubInt64 a MinInt64 = Inr (a - MinInt64)"
  by (rule by_reads [of a a]) (auto simp: SubInt64_def reads split: if_splits)

lemma SubUintWithInt_exact: "SubUintWithInt a b = exact_uint (uint a - sint b)"
  by (rule by_reads [of a b]) (auto simp: SubUintWithInt_def SubUint64_def AddUint64_def exact_uint_def reads word_of_int_eq word_uint_eq_iff split: if_splits)

lemma SubIntWithUint_exact: "SubIntWithUint a b = exact_uint (sint a - uint b)"
  by (rule by_reads [of a b]) (auto simp: SubIntWithUint_def exact_uint_def reads word_of_int_eq word_uint_eq_iff split: if_splits)

lemma le_div_iff: "0 < m \<Longrightarrow> n \<le> k div m \<longleftrightarrow> n * m \<le> (k :: int)"
proof
  assume "0 < m" "n \<le> k div m"
  then have "n * m \<le> k div m * m" by (intro mult_right_mono) simp_all
  also have "\<dots> \<le> k" using pos_mod_sign [OF \<open>0 < m\<close>, of k] minus_mod_eq_div_mult [of k m] by linarith
  finally show "n * m \<le> k" .
next
  assume "0 < m" "n * m \<le> k"
  then show "n \<le> k div m" using zdiv_mono1 [of "n * m" k m] by simp
qed

lemma MulUint64_exact: "MulUint64 a b = exact_uint (uint a * uint b)"
proof (cases "uint b = 0")
  case True
  then have "b = 0" by (simp add: word_uint_eq_iff)
  then show ?thesis by (simp add: MulUint64_def exact_uint_def)
next
  case False
  have p: "0 < uint b" using False by (simp add: reads)
  have "uint (MaxUint64 div b) = (2 ^ 64 - 1) div uint b" by (simp add: uint_div reads)
  then have "MaxUint64 div b < a \<longleftrightarrow> (2 ^ 64 - 1) div uint b < uint a" by (simp add: reads)
  also have "\<dots> \<longleftrightarrow> 2 ^ 64 - 1 < uint a * uint b" using le_div_iff [OF p, of "uint a" "2 ^ 64 - 1"] by linarith
  finally have "MaxUint64 div b < a \<longleftrightarrow> \<not> uint a * uint b < 2 ^ 64" by linarith
  moreover have "0 \<le> uint a * uint b" using uint_range(1) [of a] uint_range(1) [of b] by simp
  moreover have "word_of_int (uint a * uint b) = a * b" by simp
  ultimately show ?thesis using p by (simp add: MulUint64_def exact_uint_def word_less_def)
qed

lemma MulInteger_exact: "MulInteger a b = exact_uint (uint a * sint b)"
proof (cases "uint a = 0 \<or> uint b = 0")
  case True
  then have "a = 0 \<or> b = 0" by (simp add: word_uint_eq_iff)
  then show ?thesis by (auto simp: MulInteger_def exact_uint_def)
next
  case False
  then have a: "0 < uint a" "a \<noteq> 0" "b \<noteq> 0" by (auto simp: reads word_uint_eq_iff)
  show ?thesis
  proof (cases "sint b < 0")
    case True
    then have "uint a * sint b < 0" using a(1) by (simp add: mult_pos_neg)
    then show ?thesis using True a by (simp add: MulInteger_def exact_uint_def)
  next
    case b: False
    then have "sint b = uint b" using uint_range(2) [of b] by (auto simp: reads split: if_splits)
    then show ?thesis using a b by (simp add: MulInteger_def MulUint64_exact)
  qed
qed

lemma sint_eq: "sint (a :: u64) = 0 \<longleftrightarrow> a = 0" "sint a = - 1 \<longleftrightarrow> a = - 1" "sint a = - (2 ^ 63) \<longleftrightarrow> a = MinInt64" 
  by (rule by_reads [of a a]; auto simp: reads word_uint_eq_iff split: if_splits)+

definition magnitude :: "u64 \<Rightarrow> u64" where
  "magnitude a = (if sint a < 0 then - a else a)"

lemma uint_magnitude: "uint (magnitude a) = \<bar>sint a\<bar>"
  by (rule by_reads [of a a]) (auto simp: magnitude_def reads split: if_splits)

lemma MulInt64_exact: "MulInt64 a b = exact_int (sint a * sint b)"
proof (cases "a = 0 \<or> b = 0")
  case True
  then show ?thesis by (auto simp: MulInt64_def exact_int_def)
next
  case False
  define k where "k = \<bar>sint a\<bar> * \<bar>sint b\<bar>"
  let ?neg = "(sint a < 0) \<noteq> (sint b < 0)"
  have n: "sint a \<noteq> 0" "sint b \<noteq> 0" using False by (simp_all add: sint_eq)
  then have m: "MulInt64 a b = (case MulUint64 (magnitude a) (magnitude b) of
      Inl err \<Rightarrow> Inl err
    | Inr res \<Rightarrow> if ?neg then (if res > MaxInt64 + 1 then Inl types_ErrOverflow else Inr (- res)) else (if res > MaxInt64 then Inl types_ErrOverflow else Inr res))"
    using False by (cases "sint a < 0"; cases "sint b < 0") (simp_all add: MulInt64_def magnitude_def Let_def not_less split: sum.split)
  have z: "sint a * sint b = (if ?neg then - k else k)" "0 \<le> k" using n by (auto simp: k_def abs_if not_less mult_less_0_iff)
  have u: "MulUint64 (magnitude a) (magnitude b) = exact_uint k" by (simp add: MulUint64_exact uint_magnitude k_def)
  show ?thesis
  proof (cases "k < 2 ^ 64")
    case True
    then have r: "uint (word_of_int k :: u64) = k" using z(2) by (simp add: unsigned_of_int take_bit_int_eq_self)
    have w: "word_of_int (- k) = - (word_of_int k :: u64)" by simp
    show ?thesis unfolding m u z(1) exact_uint_def exact_int_def using True z(2) r w by (simp add: reads)
  next
    case False
    then show ?thesis unfolding m u z(1) exact_uint_def exact_int_def by simp
  qed
qed

lemma DivInt64_exact: "b \<noteq> 0 \<Longrightarrow> DivInt64 a b = exact_int (sint a sdiv sint b)"
proof (cases "a = MinInt64 \<and> b = - 1")
  case True
  then show ?thesis by (simp add: DivInt64_def exact_int_def)
next
  case False
  assume b: "b \<noteq> 0"
  let ?z = "sint a sdiv sint b"
  have z: "- \<bar>sint a\<bar> \<le> ?z" "?z \<le> \<bar>sint a\<bar>" using sdiv_int_range [of "sint a" "sint b"] by simp_all
  have "?z \<noteq> 2 ^ 63"
  proof
    assume e: "?z = 2 ^ 63"
    then have "sint a = - (2 ^ 63)" using z sint_range [of a] by linarith
    moreover then have "sint b = - 1" using e int_sdiv_negated_is_minus1 [of "sint a" "sint b"] by simp
    ultimately show False using False sint_eq(2) [of b] sint_eq(3) [of a] by blast
  qed
  then have "- (2 ^ 63) \<le> ?z" "?z < 2 ^ 63" using z sint_range [of a] by linarith+
  then show ?thesis using False b by (auto simp: DivInt64_def exact_int_def)
qed

lemma uint_of_pos: "\<not> sint (a :: u64) < 0 \<Longrightarrow> sint a = uint a" "sint a < 0 \<Longrightarrow> uint (- a) = - sint a"
  by (rule by_reads [of a a]; auto simp: reads split: if_splits)+

lemma div_exact: "b \<noteq> 0 \<Longrightarrow> exact_uint (uint a div uint b) = Inr (a div b)"
proof -
  have "0 \<le> uint a div uint b" using uint_range(1) [of a] uint_range(1) [of b] by (rule pos_imp_zdiv_nonneg_iff [THEN iffD2, rotated] | simp add: div_int_pos_iff)+
  moreover have "uint a div uint b < 2 ^ 64" using uint_range(2) [of "a div b"] by (simp add: uint_div)
  ultimately show ?thesis by (simp add: exact_uint_def word_div_def)
qed

lemma sdiv_pos: "0 \<le> k \<Longrightarrow> 0 \<le> l \<Longrightarrow> k sdiv l = k div (l :: int)"
  by (cases "k = 0"; cases "l = 0") (simp_all add: signed_divide_int_def)

lemma exact_neg: "0 \<le> z \<Longrightarrow> exact_uint (- z) = (if z = 0 then Inr 0 else Inl types_ErrOverflow)"
  by (simp add: exact_uint_def)

lemma uint_div_zero: "0 < uint (b :: u64) \<Longrightarrow> uint (a :: u64) div uint b = 0 \<longleftrightarrow> uint a < uint b"
  using uint_range(1) [of a] zdiv_eq_0_iff [of "uint a" "uint b"] by linarith

lemma DivUintWithInt_exact: "b \<noteq> 0 \<Longrightarrow> DivUintWithInt a b = exact_uint (uint a sdiv sint b)"
proof (cases "sint b < 0")
  case True
  have "uint a sdiv sint b = - (uint a sdiv uint (- b))" using uint_of_pos(2) [OF True] by (simp add: sdiv_minus_eq)
  then have "uint a sdiv sint b = - (uint a div uint (- b))" by (simp add: sdiv_pos)
  moreover have "0 < uint (- b)" using uint_of_pos(2) [OF True] True by simp
  ultimately show ?thesis using True uint_div_zero [of "- b" a] 
    by (auto simp: DivUintWithInt_def exact_neg word_le_def div_int_pos_iff)
next
  case False
  assume "b \<noteq> 0"
  then show ?thesis using False uint_of_pos(1) [OF False] by (simp add: DivUintWithInt_def sdiv_pos div_exact)
qed

lemma DivIntWithUint_exact: "b \<noteq> 0 \<Longrightarrow> DivIntWithUint a b = exact_uint (sint a sdiv uint b)"
proof (cases "sint a < 0")
  case True
  assume "b \<noteq> 0"
  then have p: "0 < uint b" by (simp add: reads word_uint_eq_iff)
  have "sint a sdiv uint b = - (uint (- a) sdiv uint b)" using uint_of_pos(2) [OF True] by (simp add: minus_sdiv_eq)
  then have "sint a sdiv uint b = - (uint (- a) div uint b)" by (simp add: sdiv_pos)
  then show ?thesis using True p uint_div_zero [OF p, of "- a"] by (auto simp: DivIntWithUint_def exact_neg word_le_def div_int_pos_iff)
next
  case False
  assume "b \<noteq> 0"
  then show ?thesis using False uint_of_pos(1) [OF False] by (simp add: DivIntWithUint_def sdiv_pos div_exact)
qed

text \<open>C26: The arithmetic of the types returns the exact result when it fits the type of the result and the overflow
  error otherwise, for all 64-bit operands and every combination of signedness, divisors other than zero
  included.  The exception is \<open>SubInt64\<close> with the least integer subtracted from a positive one: the result
  does not fit, and the wrapped around difference is returned without an error.\<close>

theorem checked_arithmetic:
  "AddUint64 a b = exact_uint (uint a + uint b) \<and> AddInt64 a b = exact_int (sint a + sint b) \<and>
   AddDuration a b = exact_int (sint a + sint b) \<and> AddInteger a b = exact_uint (uint a + sint b) \<and>
   SubUint64 a b = exact_uint (uint a - uint b) \<and>
   SubInt64 a b = (if sint a > 0 \<and> b = MinInt64 then Inr (a - b) else exact_int (sint a - sint b)) \<and>
   SubUintWithInt a b = exact_uint (uint a - sint b) \<and> SubIntWithUint a b = exact_uint (sint a - uint b) \<and>
   MulUint64 a b = exact_uint (uint a * uint b) \<and> MulInt64 a b = exact_int (sint a * sint b) \<and>
   MulInteger a b = exact_uint (uint a * sint b) \<and>
   (if b = 0 then DivInt64 a b = Inl DivideByZero \<and> DivUintWithInt a b = Inl DivideByZero
    else DivInt64 a b = exact_int (sint a sdiv sint b) \<and> DivUintWithInt a b = exact_uint (uint a sdiv sint b) \<and>
      DivIntWithUint a b = exact_uint (sint a sdiv uint b))"
  using AddUint64_exact AddInt64_exact AddDuration_exact AddInteger_exact SubUint64_exact SubInt64_exact SubInt64_min
    SubUintWithInt_exact SubIntWithUint_exact MulUint64_exact MulInt64_exact MulInteger_exact
    DivInt64_exact DivUintWithInt_exact DivIntWithUint_exact
  by (simp add: DivInt64_def DivUintWithInt_def)

end
