(* ===== verification/Like_Match.thy ===== *)
theory Like_Match
  imports Prelude
begin

text \<open>
  Patterns of the LIKE operator (\<open>util/stringutil/string_util.go\<close>): the compilation of a pattern into characters and
  kinds, and the matching loop with its one point to go back to.  The loop ends on every input and decides
  the pattern; the compilation keeps the meaning of a pattern unless an underscore follows a percent sign.
\<close>

section \<open>Operations\<close>

definition patMatch :: byte where "patMatch = 1"
definition patOne :: byte where "patOne = 2"
definition patAny :: byte where "patAny = 3"

lemmas pat_defs = patMatch_def patOne_def patAny_def

text \<open>The bytes \<open>_\<close> and \<open>%\<close>.\<close>

abbreviation underscore :: byte where "underscore \<equiv> 0x5F"
abbreviation percent :: byte where "percent \<equiv> 0x25"

text \<open>The arrays of the result are as long as the pattern, which is never exceeded; they are cut to what is filled.\<close>

function CompilePattern_loop :: "bytes \<Rightarrow> byte \<Rightarrow> nat \<Rightarrow> bool \<Rightarrow> bytes \<times> bytes \<Rightarrow> bytes \<times> bytes" where
  "CompilePattern_loop pattern escape i lastAny (patChars, patTypes) =
     (if i < length pattern then
        (let c = pattern ! i in
         if c = escape then
           (if i < length pattern - 1 then
              (let d = pattern ! (i + 1) in
               if d = escape \<or> d = underscore \<or> d = percent
               then CompilePattern_loop pattern escape (i + 2) False (patChars @ [d], patTypes @ [patMatch])
               else CompilePattern_loop pattern escape (i + 1) False (patChars @ [escape], patTypes @ [patMatch]))
            else CompilePattern_loop pattern escape (i + 1) False (patChars @ [c], patTypes @ [patMatch]))
         else if c = underscore then
           (if lastAny then CompilePattern_loop pattern escape (i + 1) lastAny (patChars, patTypes)
            else CompilePattern_loop pattern escape (i + 1) lastAny (patChars @ [c], patTypes @ [patOne]))
         else if c = percent then
           (if lastAny then CompilePattern_loop pattern escape (i + 1) lastAny (patChars, patTypes)
            else CompilePattern_loop pattern escape (i + 1) True (patChars @ [c], patTypes @ [patAny]))
         else CompilePattern_loop pattern escape (i + 1) False (patChars @ [c], patTypes @ [patMatch]))
      else (patChars, patTypes))"
  by pat_completeness auto
termination
  by (relation "measure (\<lambda>(pattern, _, i, _). length pattern - i)") auto

definition CompilePattern :: "bytes \<Rightarrow> byte \<Rightarrow> bytes \<times> bytes" where
  "CompilePattern pattern escape = CompilePattern_loop pattern escape 0 False ([], [])"

definition matchByteCI :: "byte \<Rightarrow> byte \<Rightarrow> bool" where
  "matchByteCI a b = (a = b)"

text \<open>\<open>None\<close> is a loop that does not end, \<open>Some None\<close> the panic of an index out of range.\<close>

partial_function (option) DoMatch_loop :: "bytes \<Rightarrow> bytes \<Rightarrow> bytes \<Rightarrow> nat \<Rightarrow> nat \<Rightarrow> nat \<Rightarrow> nat \<Rightarrow> bool option option" where
  "DoMatch_loop s patChars patTypes sIdx pIdx nextSIdx nextPIdx =
     (if pIdx < length patChars \<or> sIdx < length s then
        (if pIdx < length patChars \<and> length patTypes \<le> pIdx then Some None
         else if pIdx < length patChars \<and> patTypes ! pIdx = patMatch \<and> sIdx < length s \<and> matchByteCI (s ! sIdx) (patChars ! pIdx)
         then DoMatch_loop s patChars patTypes (sIdx + 1) (pIdx + 1) nextSIdx nextPIdx
         else if pIdx < length patChars \<and> patTypes ! pIdx = patOne \<and> sIdx < length s
         then DoMatch_loop s patChars patTypes (sIdx + 1) (pIdx + 1) nextSIdx nextPIdx
         else if pIdx < length patChars \<and> patTypes ! pIdx = patAny
         then DoMatch_loop s patChars patTypes sIdx (pIdx + 1) (sIdx + 1) pIdx
         else if 0 < nextSIdx \<and> nextSIdx \<le> length s
         then DoMatch_loop s patChars patTypes nextSIdx nextPIdx nextSIdx nextPIdx
         else Some (Some False))
      else Some (Some True))"

definition DoMatch :: "bytes \<Rightarrow> bytes \<Rightarrow> bytes \<Rightarrow> bool option option" where
  "DoMatch s patChars patTypes = DoMatch_loop s patChars patTypes 0 0 0 0"

definition IsExactMatch :: "bytes \<Rightarrow> bool" where
  "IsExactMatch patTypes = list_all (\<lambda>pt. pt = patMatch) patTypes"

section \<open>The loop decides the pattern\<close>

text \<open>What a list of characters with their kinds matches.\<close>

fun matches :: "(byte \<times> byte) list \<Rightarrow> bytes \<Rightarrow> bool" where
  "matches [] s \<longleftrightarrow> s = []"
| "matches ((c, k) # p) [] \<longleftrightarrow> k = patAny \<and> matches p []"
| "matches ((c, k) # p) (x # s) \<longleftrightarrow>
     k = patMatch \<and> x = c \<and> matches p s \<or> k = patOne \<and> matches p s \<or> k = patAny \<and> (matches p (x # s) \<or> matches ((c, k) # p) s)"

lemma kinds [simp]: "patMatch \<noteq> patOne" "patMatch \<noteq> patAny" "patOne \<noteq> patAny" "patOne \<noteq> patMatch" "patAny \<noteq> patMatch" "patAny \<noteq> patOne"
  by (simp_all add: pat_defs)

lemma any_more: "matches ((c, patAny) # p) t \<Longrightarrow> matches ((c, patAny) # p) (u @ t)"
  by (induction u) auto

lemma any_iff: "matches ((c, patAny) # p) s \<longleftrightarrow> (\<exists>k \<le> length s. matches p (drop k s))"
proof (induction s)
  case (Cons x s)
  have "(\<exists>k \<le> length (x # s). matches p (drop k (x # s))) \<longleftrightarrow> matches p (x # s) \<or> (\<exists>k \<le> length s. matches p (drop k s))"
  proof
    assume "\<exists>k \<le> length (x # s). matches p (drop k (x # s))"
    then obtain k where k: "k \<le> length (x # s)" "matches p (drop k (x # s))" by blast
    then show "matches p (x # s) \<or> (\<exists>k \<le> length s. matches p (drop k s))" by (cases k) auto
  qed (force intro: exI [of _ "Suc _"])
  then show ?case using Cons by simp
qed simp

lemma single_step:
  assumes "k \<noteq> patAny" "matches ((c, k) # p) s" shows "s \<noteq> [] \<and> matches p (tl s)"
  using assms by (cases s) auto

text \<open>Where the loop is: what is left of the pattern and of the string.\<close>

definition left_over :: "bytes \<Rightarrow> bytes \<Rightarrow> bytes \<Rightarrow> nat \<Rightarrow> nat \<Rightarrow> bool" where
  "left_over s pc pt p i = matches (drop p (zip pc pt)) (drop i s)"

lemma left_over_end: "length pc \<le> p \<Longrightarrow> left_over s pc pt p i \<longleftrightarrow> length s \<le> i"
  by (simp add: left_over_def)

lemma zip_drop: "length pt = length pc \<Longrightarrow> p < length pc \<Longrightarrow> drop p (zip pc pt) = (pc ! p, pt ! p) # drop (p + 1) (zip pc pt)"
  by (simp add: Cons_nth_drop_Suc [symmetric])

lemma left_over_single:
  assumes "length pt = length pc" "p < length pc" "pt ! p \<noteq> patAny"
  shows "left_over s pc pt p i \<longleftrightarrow>
    i < length s \<and> (pt ! p = patMatch \<and> s ! i = pc ! p \<or> pt ! p = patOne) \<and> left_over s pc pt (p + 1) (i + 1)"
proof (cases "i < length s")
  case True
  then have "drop i s = s ! i # drop (i + 1) s" by (simp add: Cons_nth_drop_Suc)
  then show ?thesis using assms True by (auto simp: left_over_def zip_drop)
next
  case False
  then show ?thesis using assms by (simp add: left_over_def zip_drop)
qed

lemma left_over_any:
  assumes "length pt = length pc" "p < length pc" "pt ! p = patAny"
  shows "left_over s pc pt p i \<longleftrightarrow> left_over s pc pt (p + 1) i \<or> i < length s \<and> left_over s pc pt p (i + 1)"
proof (cases "i < length s")
  case True
  then have "drop i s = s ! i # drop (i + 1) s" by (simp add: Cons_nth_drop_Suc)
  then show ?thesis using assms True by (simp add: left_over_def zip_drop)
next
  case False
  then show ?thesis using assms by (simp add: left_over_def zip_drop)
qed

lemma singles:
  assumes "length pt = length pc" "p + m \<le> length pc" "\<forall>j. p \<le> j \<and> j < p + m \<longrightarrow> pt ! j \<noteq> patAny" "left_over s pc pt p i"
  shows "left_over s pc pt (p + m) (i + m)"
  using assms(2-4)
proof (induction m)
  case (Suc m)
  then have "left_over s pc pt (p + m) (i + m)" "pt ! (p + m) \<noteq> patAny" by simp_all
  then show ?case using left_over_single [OF assms(1), of "p + m" s "i + m"] Suc.prems(1) by simp
qed simp

text \<open>
  The place to go back to is a percent sign in front of the current place; the characters between were matched
  one to one, or the loop has just gone back.
\<close>

definition loop_inv :: "bytes \<Rightarrow> bytes \<Rightarrow> bytes \<Rightarrow> nat \<Rightarrow> nat \<Rightarrow> nat \<Rightarrow> nat \<Rightarrow> bool" where
  "loop_inv s pc pt i p ns np \<longleftrightarrow> length pt = length pc \<and> p \<le> length pc \<and> i \<le> length s \<and>
     (ns = 0 \<or> np < length pc \<and> pt ! np = patAny \<and> ns \<le> length s + 1 \<and>
        (p = np \<and> i = ns \<or> np < p \<and> i + np + 2 = ns + p \<and> (\<forall>j. np < j \<and> j < p \<longrightarrow> pt ! j \<noteq> patAny)))"

text \<open>A match that goes back to an earlier percent sign is one that goes on from a later one.\<close>

lemma later_any:
  assumes "loop_inv s pc pt i p ns np" "p < length pc" "pt ! p = patAny" "0 < ns" "left_over s pc pt np ns"
  shows "left_over s pc pt p i"
proof (cases "p = np \<and> i = ns")
  case False
  then have inv: "length pt = length pc" "np < p" "i + np + 2 = ns + p" "\<forall>j. np < j \<and> j < p \<longrightarrow> pt ! j \<noteq> patAny" "pt ! np = patAny"
    using assms(1,4) by (auto simp: loop_inv_def)
  have "np < length pc" using inv(2) assms(2) by simp
  then have "matches ((pc ! np, patAny) # drop (np + 1) (zip pc pt)) (drop ns s)"
    using assms(5) inv(5) zip_drop [OF inv(1), of np] by (simp add: left_over_def)
  then obtain k where "left_over s pc pt (np + 1) (ns + k)" by (auto simp: any_iff left_over_def add.commute)
  then have "left_over s pc pt (np + 1 + (p - np - 1)) (ns + k + (p - np - 1))"
    using inv assms(2) by (intro singles) auto
  moreover have "np + 1 + (p - np - 1) = p" "ns + k + (p - np - 1) = i + 1 + k" using inv(2,3) by simp_all
  ultimately have "matches (drop p (zip pc pt)) (drop (i + 1 + k) s)" by (simp add: left_over_def)
  moreover have "drop i s = take (k + 1) (drop i s) @ drop (i + 1 + k) s" by (metis add.commute add.left_commute append_take_drop_id drop_drop)
  ultimately show ?thesis using any_more zip_drop [OF inv(1) assms(2)] assms(3) by (metis left_over_def)
qed (use assms(5) in simp)

text \<open>The loop goes on until the place to go back to moves right, or the current one does.\<close>

definition loop_measure :: "bytes \<Rightarrow> bytes \<Rightarrow> (nat \<times> nat \<times> nat \<times> nat) rel" where
  "loop_measure s pc = measures
     [\<lambda>(i, p, ns, np). 2 * (length s + 2 - ns) + (if ns \<noteq> 0 \<and> p = np then 0 else 1), \<lambda>(i, p, ns, np). length pc - p + (length s - i)]"

definition outcome :: "bytes \<Rightarrow> bytes \<Rightarrow> bytes \<Rightarrow> nat \<Rightarrow> nat \<Rightarrow> nat \<Rightarrow> nat \<Rightarrow> bool" where
  "outcome s pc pt i p ns np \<longleftrightarrow> left_over s pc pt p i \<or> 0 < ns \<and> ns \<le> length s \<and> left_over s pc pt np ns"

lemma step_any:
  assumes "loop_inv s pc pt i p ns np" "p < length pc" "pt ! p = patAny"
  shows "loop_inv s pc pt i (p + 1) (i + 1) p" "((i, p + 1, i + 1, p), (i, p, ns, np)) \<in> loop_measure s pc"
    "outcome s pc pt i (p + 1) (i + 1) p = outcome s pc pt i p ns np"
proof -
  have inv: "length pt = length pc" using assms(1) by (simp add: loop_inv_def)
  show "loop_inv s pc pt i (p + 1) (i + 1) p" using assms by (auto simp: loop_inv_def)
  show "((i, p + 1, i + 1, p), (i, p, ns, np)) \<in> loop_measure s pc"
    using assms by (auto simp: loop_inv_def loop_measure_def)
  show "outcome s pc pt i (p + 1) (i + 1) p = outcome s pc pt i p ns np"
    using left_over_any [OF inv assms(2,3), of s i] later_any [OF assms] by (auto simp: outcome_def)
qed

lemma step_single:
  assumes "loop_inv s pc pt i p ns np" "p < length pc" "i < length s" "pt ! p = patMatch \<and> s ! i = pc ! p \<or> pt ! p = patOne"
  shows "loop_inv s pc pt (i + 1) (p + 1) ns np" "((i + 1, p + 1, ns, np), (i, p, ns, np)) \<in> loop_measure s pc"
    "outcome s pc pt (i + 1) (p + 1) ns np = outcome s pc pt i p ns np"
proof -
  have inv: "length pt = length pc" "pt ! p \<noteq> patAny" using assms(1,4) by (auto simp: loop_inv_def)
  then have np: "ns \<noteq> 0 \<Longrightarrow> np < p" using assms(1) by (auto simp: loop_inv_def)
  show "loop_inv s pc pt (i + 1) (p + 1) ns np" using assms inv np by (auto simp: loop_inv_def less_Suc_eq)
  show "((i + 1, p + 1, ns, np), (i, p, ns, np)) \<in> loop_measure s pc" using np assms(2,3) by (auto simp: loop_measure_def)
  show "outcome s pc pt (i + 1) (p + 1) ns np = outcome s pc pt i p ns np"
    using left_over_single [OF inv(1) assms(2) inv(2), of s i] assms(3,4) by (auto simp: outcome_def)
qed

lemma step_back:
  assumes "loop_inv s pc pt i p ns np" "\<not> (p < length pc \<and> pt ! p = patAny)" "0 < ns" "ns \<le> length s" "\<not> left_over s pc pt p i"
  shows "loop_inv s pc pt ns np ns np" "((ns, np, ns, np), (i, p, ns, np)) \<in> loop_measure s pc"
    "outcome s pc pt ns np ns np = outcome s pc pt i p ns np"
proof -
  have "np < p" using assms(1-3) by (auto simp: loop_inv_def)
  then show "((ns, np, ns, np), (i, p, ns, np)) \<in> loop_measure s pc" using assms(3,4) by (auto simp: loop_measure_def)
  show "loop_inv s pc pt ns np ns np" using assms(1,3,4) by (auto simp: loop_inv_def)
  show "outcome s pc pt ns np ns np = outcome s pc pt i p ns np" using assms(3-5) by (auto simp: outcome_def)
qed

lemma wf_loop: "wf (loop_measure s pc)"
  by (simp add: loop_measure_def)

theorem loop_decides: "loop_inv s pc pt i p ns np \<Longrightarrow> DoMatch_loop s pc pt i p ns np = Some (Some (outcome s pc pt i p ns np))"
proof (induction "(i, p, ns, np)" arbitrary: i p ns np rule: wf_induct_rule [OF wf_loop [of s pc]])
  case 1
  note inv = 1(2) and IH = 1(1)
  have len: "length pt = length pc" "p \<le> length pc" "i \<le> length s" using inv by (simp_all add: loop_inv_def)
  note unfold = DoMatch_loop.simps [of s pc pt i p ns np]
  consider (Any) "p < length pc" "pt ! p = patAny"
    | (Single) "p < length pc" "i < length s" "pt ! p = patMatch \<and> s ! i = pc ! p \<or> pt ! p = patOne"
    | (Over) "p = length pc" "i = length s"
    | (Mismatch) "\<not> (p < length pc \<and> pt ! p = patAny)" "p < length pc \<or> i < length s"
        "\<not> (p < length pc \<and> i < length s \<and> (pt ! p = patMatch \<and> s ! i = pc ! p \<or> pt ! p = patOne))"
    using len by force
  then show ?case
  proof cases
    case Any
    then show ?thesis using IH [OF step_any(2,1) [OF inv]] step_any(3) [OF inv] len(1) by (simp add: unfold)
  next
    case Single
    then show ?thesis using IH [OF step_single(2,1) [OF inv]] step_single(3) [OF inv] len(1) by (auto simp: unfold matchByteCI_def)
  next
    case Over
    then show ?thesis by (subst DoMatch_loop.simps) (simp add: outcome_def left_over_end)
  next
    case Mismatch
    have no: "\<not> left_over s pc pt p i"
    proof (cases "p < length pc")
      case True
      then show ?thesis using Mismatch left_over_single [OF len(1) True, of s i] by auto
    next
      case False
      then show ?thesis using Mismatch(2) len by (simp add: left_over_end)
    qed
    have "DoMatch_loop s pc pt i p ns np = (if 0 < ns \<and> ns \<le> length s then DoMatch_loop s pc pt ns np ns np else Some (Some False))"
      using Mismatch len(1) by (auto simp: unfold matchByteCI_def)
    then show ?thesis using IH [OF step_back(2,1) [OF inv Mismatch(1) _ _ no]] step_back(3) [OF inv Mismatch(1) _ _ no] no
      by (auto simp: outcome_def)
  qed
qed

text \<open>C25: The matching loop ends on every string and every compiled pattern, and it answers whether the pattern
  matches the string, although it goes back to the last percent sign only.\<close>

theorem DoMatch_decides:
  assumes "length patTypes = length patChars"
  shows "DoMatch s patChars patTypes = Some (Some (matches (zip patChars patTypes) s))"
  using loop_decides [of s patChars patTypes 0 0 0 0] assms by (simp add: DoMatch_def loop_inv_def outcome_def left_over_def)

theorem DoMatch_decides_witness:
  "DoMatch [0x61, 0x62, 0x61, 0x63] [percent, 0x61, 0x63] [patAny, patMatch, patMatch] = Some (Some True)"
  using DoMatch_decides [of "[patAny, patMatch, patMatch]" "[percent, 0x61, 0x63]" "[0x61, 0x62, 0x61, 0x63]"] by simp

section \<open>The compilation keeps the meaning\<close>

text \<open>A pattern as it is written: an escaped wildcard or escape is a character, any other escape stands for itself.\<close>

fun like_tokens :: "byte \<Rightarrow> bytes \<Rightarrow> (byte \<times> byte) list" where
  "like_tokens escape [] = []"
| "like_tokens escape (c # pattern) =
     (if c = escape then
        (case pattern of
           [] \<Rightarrow> [(c, patMatch)]
         | d # rest \<Rightarrow>
             if d = escape \<or> d = underscore \<or> d = percent then (d, patMatch) # like_tokens escape rest
             else (c, patMatch) # like_tokens escape pattern)
      else (c, if c = underscore then patOne else if c = percent then patAny else patMatch) # like_tokens escape pattern)"

definition like :: "byte \<Rightarrow> bytes \<Rightarrow> bytes \<Rightarrow> bool" where
  "like escape pattern s = matches (like_tokens escape pattern) s"

text \<open>The compilation leaves out the wildcards that follow a percent sign.\<close>

fun squash :: "bool \<Rightarrow> (byte \<times> byte) list \<Rightarrow> (byte \<times> byte) list" where
  "squash lastAny [] = []"
| "squash lastAny ((c, k) # ts) =
     (if k = patMatch then (c, k) # squash False ts
      else if lastAny then squash lastAny ts else (c, k) # squash (k = patAny) ts)"

text \<open>No underscore follows a percent sign.\<close>

fun no_any_one :: "bool \<Rightarrow> (byte \<times> byte) list \<Rightarrow> bool" where
  "no_any_one lastAny [] \<longleftrightarrow> True"
| "no_any_one lastAny ((c, k) # ts) \<longleftrightarrow> (if k = patMatch then no_any_one False ts else if k = patAny then no_any_one True ts else \<not> lastAny \<and> no_any_one lastAny ts)"

lemma compile_squash:
  "CompilePattern_loop pattern escape i lastAny (map fst acc, map snd acc) =
     (map fst (acc @ squash lastAny (like_tokens escape (drop i pattern))), map snd (acc @ squash lastAny (like_tokens escape (drop i pattern))))"
proof (induction "length pattern - i" arbitrary: i lastAny acc rule: less_induct)
  case less
  show ?case
  proof (cases "i < length pattern")
    case True
    have d: "drop i pattern = pattern ! i # drop (i + 1) pattern" using True by (simp add: Cons_nth_drop_Suc)
    have d2: "drop (i + 1) pattern = (if i < length pattern - 1 then pattern ! (i + 1) # drop (i + 2) pattern else [])"
      using True by (simp add: Cons_nth_drop_Suc)
    let ?sq = "\<lambda>j la. squash la (like_tokens escape (drop j pattern))"
    have skip: "CompilePattern_loop pattern escape (Suc i) la (map fst acc, map snd acc) = (map fst (acc @ ?sq (Suc i) la), map snd (acc @ ?sq (Suc i) la))" for la
      using less [of "Suc i" la acc] True by simp
    have one: "CompilePattern_loop pattern escape j la (map fst acc @ [c], map snd acc @ [k]) =
        (map fst acc @ c # map fst (?sq j la), map snd acc @ k # map snd (?sq j la))" if "j = Suc i \<or> j = Suc (Suc i)" for j la c k
      using less [of j la "acc @ [(c, k)]"] True that by auto
    show ?thesis
    proof (cases "pattern ! i = escape")
      case esc: True
      show ?thesis using True esc d d2 one by (subst CompilePattern_loop.simps) (simp add: Let_def del: CompilePattern_loop.simps)
    next
      case False
      then show ?thesis using True d one skip by (subst CompilePattern_loop.simps) (simp add: Let_def del: CompilePattern_loop.simps)
    qed
  next
    case False
    then show ?thesis by (subst CompilePattern_loop.simps) simp
  qed
qed

lemma matches_Cons_cong: "(\<And>u. matches p u = matches q u) \<Longrightarrow> matches ((c, k) # p) s = matches ((c, k) # q) s"
  by (induction s) auto

lemma any_any: "matches ((c, patAny) # (d, patAny) # p) s = matches ((e, patAny) # p) s"
proof
  assume "matches ((c, patAny) # (d, patAny) # p) s"
  then obtain j k where "j \<le> length s" "k \<le> length s - j" "matches p (drop (j + k) s)" by (auto simp: any_iff add.commute)
  then show "matches ((e, patAny) # p) s" unfolding any_iff by (intro exI [of _ "j + k"]) simp
next
  assume "matches ((e, patAny) # p) s"
  then obtain k where "k \<le> length s" "matches p (drop k s)" by (auto simp: any_iff)
  then show "matches ((c, patAny) # (d, patAny) # p) s" unfolding any_iff by (intro exI [of _ k]) (auto intro: exI [of _ 0])
qed

definition kinds_ok :: "(byte \<times> byte) list \<Rightarrow> bool" where
  "kinds_ok ts \<longleftrightarrow> (\<forall>t \<in> set ts. snd t = patMatch \<or> snd t = patOne \<or> snd t = patAny)"

lemma like_tokens_kinds: "kinds_ok (like_tokens escape pattern)"
  by (induction escape pattern rule: like_tokens.induct) (auto simp: kinds_ok_def split: list.splits)

lemma squash_same:
  "kinds_ok ts \<Longrightarrow> (no_any_one False ts \<longrightarrow> (\<forall>s. matches (squash False ts) s = matches ts s)) \<and>
     (no_any_one True ts \<longrightarrow> (\<forall>e s. matches ((e, patAny) # squash True ts) s = matches ((e, patAny) # ts) s))"
proof (induction ts)
  case (Cons t ts)
  obtain c k where t: "t = (c, k)" by fastforce
  have IH: "no_any_one False ts \<Longrightarrow> matches (squash False ts) s = matches ts s"
    "no_any_one True ts \<Longrightarrow> matches ((e, patAny) # squash True ts) s = matches ((e, patAny) # ts) s" for e s
    using Cons by (simp_all add: kinds_ok_def)
  have k: "k = patMatch \<or> k = patOne \<or> k = patAny" using Cons.prems t by (simp add: kinds_ok_def)
  have same: "matches ((c, k) # squash False ts) s = matches ((c, k) # ts) s" if "no_any_one False ts" for s
    by (rule matches_Cons_cong) (rule IH(1) [OF that])
  have "matches ((e, patAny) # (c, k) # squash False ts) s = matches ((e, patAny) # (c, k) # ts) s" if "no_any_one False ts" for e s
    by (rule matches_Cons_cong) (rule same [OF that])
  moreover have "matches ((e, patAny) # (c, patAny) # ts) s = matches ((e, patAny) # ts) s" for e s by (rule any_any)
  ultimately show ?case using k IH(2) same unfolding t by (elim disjE) simp_all
qed simp

lemma any_one: "matches ((e, patAny) # (c, patOne) # p) s \<Longrightarrow> matches ((e, patAny) # p) s"
proof -
  assume "matches ((e, patAny) # (c, patOne) # p) s"
  then obtain k where k: "matches ((c, patOne) # p) (drop k s)" by (auto simp: any_iff)
  have "matches p (drop (Suc k) s)" "drop k s \<noteq> []" using single_step [OF _ k] by (auto simp: drop_Suc tl_drop)
  then show ?thesis unfolding any_iff by (intro exI [of _ "Suc k"]) auto
qed

lemma matches_Cons_mono: "(\<And>u. matches p u \<Longrightarrow> matches q u) \<Longrightarrow> matches ((c, k) # p) s \<Longrightarrow> matches ((c, k) # q) s"
  by (induction s) auto

lemma squash_more:
  "kinds_ok ts \<Longrightarrow> (matches ts s \<longrightarrow> matches (squash False ts) s) \<and> (matches ((e, patAny) # ts) s \<longrightarrow> matches ((e, patAny) # squash True ts) s)"
proof (induction ts arbitrary: e s)
  case (Cons t ts)
  obtain c k where t: "t = (c, k)" by fastforce
  have IH: "matches ts u \<Longrightarrow> matches (squash False ts) u" "matches ((d, patAny) # ts) u \<Longrightarrow> matches ((d, patAny) # squash True ts) u" for d u
    using Cons by (auto simp: kinds_ok_def)
  have k: "k = patMatch \<or> k = patOne \<or> k = patAny" using Cons.prems t by (simp add: kinds_ok_def)
  have one: "matches ((c, k) # ts) u \<Longrightarrow> matches ((c, k) # squash False ts) u" for u by (rule matches_Cons_mono [OF IH(1)])
  have "matches ((e, patAny) # (c, k) # ts) s \<Longrightarrow> matches ((e, patAny) # (c, k) # squash False ts) s" by (rule matches_Cons_mono [OF one])
  then show ?case using k one IH(2) any_any [of e c ts s e] any_one [of e c ts s] unfolding t by auto
qed simp

text \<open>C27: A string that matches a pattern as it is written is matched by the compiled pattern, and the match ends.
  The compiled pattern matches no other strings when no underscore follows a percent sign; in that case
  the underscore is lost: the pattern \<open>%_\<close>, which asks for one character at least, matches the empty string.\<close>

theorem like_compiled:
  defines "compiled \<equiv> CompilePattern"
  shows "(\<exists>r. DoMatch s (fst (compiled pattern escape)) (snd (compiled pattern escape)) = Some (Some r) \<and>
      (like escape pattern s \<longrightarrow> r) \<and> (no_any_one False (like_tokens escape pattern) \<longrightarrow> r = like escape pattern s)) \<and>
    (escape \<noteq> percent \<and> escape \<noteq> underscore \<longrightarrow>
      \<not> like escape [percent, underscore] [] \<and> DoMatch [] (fst (compiled [percent, underscore] escape)) (snd (compiled [percent, underscore] escape)) = Some (Some True))"
proof -
  have c: "compiled p escape = (map fst (squash False (like_tokens escape p)), map snd (squash False (like_tokens escape p)))" for p
    using compile_squash [of p escape 0 False "[]"] by (simp add: compiled_def CompilePattern_def)
  have m: "DoMatch u (fst (compiled p escape)) (snd (compiled p escape)) = Some (Some (matches (squash False (like_tokens escape p)) u))" for u p
    using loop_decides [of u "fst (compiled p escape)" "snd (compiled p escape)" 0 0 0 0]
    by (simp add: c DoMatch_def loop_inv_def outcome_def left_over_def zip_map_fst_snd)
  show ?thesis
    using squash_more [OF like_tokens_kinds, of escape pattern s] squash_same [OF like_tokens_kinds, of escape pattern] unfolding m
    by (auto simp: like_def)
qed

theorem like_compiled_witness:
  "DoMatch [0x61, 0x25] (fst (CompilePattern [underscore, 0x5C, percent] 0x5C)) (snd (CompilePattern [underscore, 0x5C, percent] 0x5C)) = Some (Some True) \<and>
   DoMatch [] (fst (CompilePattern [percent, underscore] 0x5C)) (snd (CompilePattern [percent, underscore] 0x5C)) = Some (Some True)"
  using like_compiled [of "[0x61, 0x25]" "[underscore, 0x5C, percent]" "0x5C"] by (auto simp: like_def)

end
