(* ===== verification/Mv_Map.thy ===== *)
theory Mv_Map
  imports Prelude
begin

unbundle bit_operations_syntax

text \<open>
  The multi-value map of \<open>util/mvmap\<close>: entries and data are kept in slices that only grow, the entries of one hash
  are chained from the newest to the oldest.  An index out of range is a panic; the code may slice up to the
  capacity of a slice, which the model cuts at its length.
\<close>

section \<open>Operations\<close>

type_synonym u32 = "32 word"

record dataAddr =
  da_sliceIdx :: u32
  da_offset :: u32

record entryAddr =
  ea_sliceIdx :: u32
  ea_offset :: u32

record entry =
  e_addr :: dataAddr
  e_keyLen :: u32
  e_valLen :: u32
  e_next :: entryAddr

record entryStore =
  es_slices :: "entry list list"
  es_sliceIdx :: u32
  es_sliceLen :: u32

record dataStore =
  ds_slices :: "bytes list"
  ds_sliceIdx :: u32
  ds_sliceLen :: u32

definition maxDataSliceLen :: u32 where "maxDataSliceLen = 64 * 1024"
definition maxEntrySliceLen :: u32 where "maxEntrySliceLen = 8 * 1024"

definition offset64 :: u64 where "offset64 = 14695981039346656037"
definition prime64 :: u64 where "prime64 = 1099511628211"

definition fnvHash64 :: "bytes \<Rightarrow> u64" where
  "fnvHash64 data = foldl (\<lambda>hash c. (hash * prime64) XOR ucast c) offset64 data"

definition ds_put :: "dataStore \<Rightarrow> bytes \<Rightarrow> bytes \<Rightarrow> (dataAddr \<times> dataStore) option" where
  "ds_put ds key v =
     (let dataLen = of_nat (length key + length v);
          ds = (if ds_sliceLen ds \<noteq> 0 \<and> ds_sliceLen ds + dataLen > maxDataSliceLen
                then ds\<lparr>ds_slices := ds_slices ds @ [[]], ds_sliceLen := 0, ds_sliceIdx := ds_sliceIdx ds + 1\<rparr> else ds);
          addr = \<lparr>da_sliceIdx = ds_sliceIdx ds, da_offset = ds_sliceLen ds\<rparr>;
          i = unat (ds_sliceIdx ds)
      in if i < length (ds_slices ds)
         then Some (addr, ds\<lparr>ds_slices := (ds_slices ds)[i := ds_slices ds ! i @ key @ v], ds_sliceLen := ds_sliceLen ds + dataLen\<rparr>)
         else None)"

text \<open>\<open>slice[lo:hi]\<close>.\<close>

definition subslice :: "bytes \<Rightarrow> u32 \<Rightarrow> u32 \<Rightarrow> bytes option" where
  "subslice b lo hi = (if lo \<le> hi \<and> unat hi \<le> length b then Some (take (unat hi - unat lo) (drop (unat lo) b)) else None)"

text \<open>The inner option is nil.\<close>

definition ds_get :: "dataStore \<Rightarrow> entry \<Rightarrow> bytes \<Rightarrow> bytes option option" where
  "ds_get ds e key =
     (if unat (da_sliceIdx (e_addr e)) < length (ds_slices ds) then
        (let slice = ds_slices ds ! unat (da_sliceIdx (e_addr e));
             valOffset = da_offset (e_addr e) + e_keyLen e
         in case subslice slice (da_offset (e_addr e)) valOffset of
              None \<Rightarrow> None
            | Some k \<Rightarrow> if key \<noteq> k then Some None else map_option Some (subslice slice valOffset (valOffset + e_valLen e)))
      else None)"

definition getEntryData :: "dataStore \<Rightarrow> entry \<Rightarrow> (bytes \<times> bytes) option" where
  "getEntryData ds e =
     (if unat (da_sliceIdx (e_addr e)) < length (ds_slices ds) then
        (let slice = ds_slices ds ! unat (da_sliceIdx (e_addr e));
             keyOffset = da_offset (e_addr e);
             valOffset = da_offset (e_addr e) + e_keyLen e
         in case (subslice slice keyOffset (keyOffset + e_keyLen e), subslice slice valOffset (valOffset + e_valLen e)) of
              (Some key, Some v) \<Rightarrow> Some (key, v)
            | _ \<Rightarrow> None)
      else None)"

definition nullEntryAddr :: entryAddr where
  "nullEntryAddr = \<lparr>ea_sliceIdx = 0, ea_offset = 0\<rparr>"

definition zeroEntry :: entry where
  "zeroEntry = \<lparr>e_addr = \<lparr>da_sliceIdx = 0, da_offset = 0\<rparr>, e_keyLen = 0, e_valLen = 0, e_next = nullEntryAddr\<rparr>"

definition es_put :: "entryStore \<Rightarrow> entry \<Rightarrow> (entryAddr \<times> entryStore) option" where
  "es_put es e =
     (let es = (if es_sliceLen es = maxEntrySliceLen
                then es\<lparr>es_slices := es_slices es @ [[]], es_sliceLen := 0, es_sliceIdx := es_sliceIdx es + 1\<rparr> else es);
          addr = \<lparr>ea_sliceIdx = es_sliceIdx es, ea_offset = es_sliceLen es\<rparr>;
          i = unat (es_sliceIdx es)
      in if i < length (es_slices es)
         then Some (addr, es\<lparr>es_slices := (es_slices es)[i := es_slices es ! i @ [e]], es_sliceLen := es_sliceLen es + 1\<rparr>)
         else None)"

definition es_get :: "entryStore \<Rightarrow> entryAddr \<Rightarrow> entry option" where
  "es_get es addr =
     (let i = unat (ea_sliceIdx addr); j = unat (ea_offset addr) in
      if i < length (es_slices es) \<and> j < length (es_slices es ! i) then Some (es_slices es ! i ! j) else None)"

record MVMap =
  mv_entries :: entryStore
  mv_data :: dataStore
  hashTable :: "u64 \<rightharpoonup> entryAddr"
  mv_length :: int

definition NewMVMap :: "MVMap option" where
  "NewMVMap =
     (case es_put \<lparr>es_slices = [[]], es_sliceIdx = 0, es_sliceLen = 0\<rparr> zeroEntry of
        None \<Rightarrow> None
      | Some (_, es) \<Rightarrow>
          Some \<lparr>mv_entries = es, mv_data = \<lparr>ds_slices = [[]], ds_sliceIdx = 0, ds_sliceLen = 0\<rparr>, hashTable = Map.empty, mv_length = 0\<rparr>)"

text \<open>A read of the hash table that finds nothing gives the zero address.\<close>

definition chain_start :: "MVMap \<Rightarrow> u64 \<Rightarrow> entryAddr" where
  "chain_start m h = (case hashTable m h of None \<Rightarrow> nullEntryAddr | Some a \<Rightarrow> a)"

definition mv_Put :: "MVMap \<Rightarrow> bytes \<Rightarrow> bytes \<Rightarrow> MVMap option" where
  "mv_Put m key v =
     (let hashKey = fnvHash64 key; oldEntryAddr = chain_start m hashKey in
      case ds_put (mv_data m) key v of
        None \<Rightarrow> None
      | Some (dataAddr, ds) \<Rightarrow>
          (case es_put (mv_entries m) \<lparr>e_addr = dataAddr, e_keyLen = of_nat (length key), e_valLen = of_nat (length v), e_next = oldEntryAddr\<rparr> of
             None \<Rightarrow> None
           | Some (newEntryAddr, es) \<Rightarrow>
               Some (m\<lparr>mv_data := ds, mv_entries := es, hashTable := (hashTable m)(hashKey \<mapsto> newEntryAddr), mv_length := mv_length m + 1\<rparr>)))"

text \<open>\<open>None\<close> is a chain that does not end, \<open>Some None\<close> a panic.\<close>

partial_function (option) mv_Get_loop :: "MVMap \<Rightarrow> bytes \<Rightarrow> entryAddr \<Rightarrow> bytes list \<Rightarrow> bytes list option option" where
  "mv_Get_loop m key addr values =
     (if addr \<noteq> nullEntryAddr then
        (case es_get (mv_entries m) addr of
           None \<Rightarrow> Some None
         | Some e \<Rightarrow>
             (case ds_get (mv_data m) e key of
                None \<Rightarrow> Some None
              | Some None \<Rightarrow> mv_Get_loop m key (e_next e) values
              | Some (Some v) \<Rightarrow> mv_Get_loop m key (e_next e) (values @ [v])))
      else Some (Some values))"

text \<open>The loop that swaps the elements from both ends.\<close>

definition swap_at :: "bytes list \<Rightarrow> nat \<Rightarrow> bytes list" where
  "swap_at vs i = (let j = length vs - 1 - i in vs[i := vs ! j, j := vs ! i])"

definition swap_ends :: "bytes list \<Rightarrow> bytes list" where
  "swap_ends values = foldl swap_at values [0..<length values div 2]"

definition mv_Get :: "MVMap \<Rightarrow> bytes \<Rightarrow> bytes list \<Rightarrow> bytes list option option" where
  "mv_Get m key values = map_option (map_option swap_ends) (mv_Get_loop m key (chain_start m (fnvHash64 key)) values)"

definition mv_Len :: "MVMap \<Rightarrow> int" where
  "mv_Len m = mv_length m"

record mv_iter =
  sliceCur :: nat
  entryCur :: nat

definition mv_NewIterator :: mv_iter where
  "mv_NewIterator = \<lparr>sliceCur = 0, entryCur = 1\<rparr>"

text \<open>\<open>Inr None\<close> stands for the pair of nils at the end, \<open>Inl\<close> for a panic.\<close>

function mv_Next :: "MVMap \<Rightarrow> mv_iter \<Rightarrow> (unit + (bytes \<times> bytes) option) \<times> mv_iter" where
  "mv_Next m it =
     (if sliceCur it \<ge> length (es_slices (mv_entries m)) then (Inr None, it)
      else
        let entrySlice = es_slices (mv_entries m) ! sliceCur it in
        if entryCur it \<ge> length entrySlice then mv_Next m (it\<lparr>sliceCur := sliceCur it + 1, entryCur := 0\<rparr>)
        else case getEntryData (mv_data m) (entrySlice ! entryCur it) of
          None \<Rightarrow> (Inl (), it)
        | Some kv \<Rightarrow> (Inr (Some kv), it\<lparr>entryCur := entryCur it + 1\<rparr>))"
  by pat_completeness auto
termination
  by (relation "measure (\<lambda>(m, it). length (es_slices (mv_entries m)) - sliceCur it)") auto

declare mv_Next.simps [simp del]

section \<open>The data store\<close>

text \<open>The bytes \<open>b\<close> are in the slices at an address.\<close>

definition slice_at :: "bytes list \<Rightarrow> dataAddr \<Rightarrow> bytes \<Rightarrow> bool" where
  "slice_at ss a b \<longleftrightarrow> unat (da_sliceIdx a) < length ss \<and>
     (\<exists>front rest. ss ! unat (da_sliceIdx a) = front @ b @ rest \<and> length front = unat (da_offset a))"

definition ds_ok :: "dataStore \<Rightarrow> bool" where
  "ds_ok ds \<longleftrightarrow> ds_slices ds \<noteq> [] \<and> unat (ds_sliceIdx ds) = length (ds_slices ds) - 1 \<and>
     unat (ds_sliceLen ds) = length (last (ds_slices ds)) \<and> (\<forall>s \<in> set (ds_slices ds). length s < 2 ^ 31)"

lemma unat_add_small: "unat a + n < 2 ^ 32 \<Longrightarrow> unat (a + of_nat n :: u32) = unat a + n"
  by (simp add: unat_word_ariths unat_of_nat)

lemma unat_less: "unat (n :: u32) < 2 ^ 32"
  using unsigned_less [of n] by simp

lemma slice_at_append: "slice_at ss a b \<Longrightarrow> slice_at (ss @ [s]) a b"
  by (auto simp: slice_at_def nth_append)

lemma slice_at_extend: "slice_at ss a b \<Longrightarrow> i < length ss \<Longrightarrow> slice_at (ss[i := ss ! i @ x]) a b"
  by (fastforce simp: slice_at_def nth_list_update)

lemma ds_put_last:
  assumes "ds_ok ds" "length key + length v < 2 ^ 31" "length (last (ds_slices ds)) + length key + length v < 2 ^ 31"
  defines "i \<equiv> length (ds_slices ds) - 1"
  defines "a \<equiv> \<lparr>da_sliceIdx = ds_sliceIdx ds, da_offset = ds_sliceLen ds\<rparr>"
    and "ds' \<equiv> ds\<lparr>ds_slices := (ds_slices ds)[i := ds_slices ds ! i @ key @ v], ds_sliceLen := ds_sliceLen ds + of_nat (length key + length v)\<rparr>"
  shows "ds_ok ds'" "slice_at (ds_slices ds') a (key @ v)" "\<And>b x. slice_at (ds_slices ds) b x \<Longrightarrow> slice_at (ds_slices ds') b x"
proof -
  have ok: "ds_slices ds \<noteq> []" "unat (ds_sliceIdx ds) = i" "unat (ds_sliceLen ds) = length (last (ds_slices ds))" "\<forall>s \<in> set (ds_slices ds). length s < 2 ^ 31"
    using assms(1) by (simp_all add: ds_ok_def i_def)
  have i: "i < length (ds_slices ds)" "ds_slices ds ! i = last (ds_slices ds)" using ok(1) by (simp_all add: i_def last_conv_nth)
  have l: "last ((ds_slices ds)[i := ds_slices ds ! i @ key @ v]) = ds_slices ds ! i @ key @ v"
    using ok(1) i(1) by (simp add: last_conv_nth i_def)
  have "unat (ds_sliceLen ds + of_nat (length key + length v)) = length (ds_slices ds ! i @ key @ v)"
    using unat_add_small [of "ds_sliceLen ds" "length key + length v"] assms(3) ok(3) i(2) by simp
  moreover have "\<forall>s \<in> set ((ds_slices ds)[i := ds_slices ds ! i @ key @ v]). length s < 2 ^ 31"
    using ok(4) i assms(3) by (auto dest!: set_update_subset_insert [THEN subsetD])
  ultimately show "ds_ok ds'" using ok(1,2) l by (simp add: ds_ok_def ds'_def i_def)
  show "slice_at (ds_slices ds') a (key @ v)" unfolding slice_at_def
    using i ok(2,3) by (intro conjI exI [of _ "ds_slices ds ! i"] exI [of _ "[]"]) (simp_all add: ds'_def a_def)
  show "slice_at (ds_slices ds') b x" if "slice_at (ds_slices ds) b x" for b x
    using slice_at_extend [OF that i(1)] by (simp add: ds'_def)
qed

lemma ds_put_ok:
  assumes "ds_ok ds" "length key + length v < 2 ^ 31" "length (ds_slices ds) < 2 ^ 32"
  shows "\<exists>a ds'. ds_put ds key v = Some (a, ds') \<and> ds_ok ds' \<and> slice_at (ds_slices ds') a (key @ v) \<and>
    (\<forall>b x. slice_at (ds_slices ds) b x \<longrightarrow> slice_at (ds_slices ds') b x) \<and> length (ds_slices ds') \<le> length (ds_slices ds) + 1"
proof -
  define n where "n = length key + length v"
  define ds1 where "ds1 = (if ds_sliceLen ds \<noteq> 0 \<and> ds_sliceLen ds + of_nat n > maxDataSliceLen
      then ds\<lparr>ds_slices := ds_slices ds @ [[]], ds_sliceLen := 0, ds_sliceIdx := ds_sliceIdx ds + 1\<rparr> else ds)"
  have ok: "ds_slices ds \<noteq> []" "unat (ds_sliceIdx ds) = length (ds_slices ds) - 1" "unat (ds_sliceLen ds) = length (last (ds_slices ds))"
    "\<forall>s \<in> set (ds_slices ds). length s < 2 ^ 31" using assms(1) by (simp_all add: ds_ok_def)
  have l: "length (last (ds_slices ds)) < 2 ^ 31" using ok(1,4) by simp
  have sum: "unat (ds_sliceLen ds + of_nat n) = length (last (ds_slices ds)) + n"
    using unat_add_small [of "ds_sliceLen ds" n] ok(3) l assms(2) by (simp add: n_def)
  have idx: "unat (ds_sliceIdx ds + 1) = length (ds_slices ds)"
    using unat_add_small [of "ds_sliceIdx ds" 1] ok(1,2) assms(3) by (cases "ds_slices ds") simp_all
  have 1: "ds_ok ds1" using assms(1) ok idx by (auto simp: ds1_def ds_ok_def)
  have 2: "length (last (ds_slices ds1)) + length key + length v < 2 ^ 31"
  proof (cases "ds_sliceLen ds = 0")
    case True
    then show ?thesis using assms(2) ok(3) by (simp add: ds1_def)
  next
    case False
    then show ?thesis using assms(2) sum by (auto simp: ds1_def n_def maxDataSliceLen_def word_less_nat_alt)
  qed
  have 3: "slice_at (ds_slices ds) b x \<Longrightarrow> slice_at (ds_slices ds1) b x" for b x by (auto simp: ds1_def intro: slice_at_append)
  have 4: "unat (ds_sliceIdx ds1) = length (ds_slices ds1) - 1" "unat (ds_sliceIdx ds1) < length (ds_slices ds1)" using 1 by (auto simp: ds_ok_def)
  have 5: "length (ds_slices ds1) \<le> length (ds_slices ds) + 1" by (simp add: ds1_def)
  have p: "ds_put ds key v = Some (\<lparr>da_sliceIdx = ds_sliceIdx ds1, da_offset = ds_sliceLen ds1\<rparr>,
      ds1\<lparr>ds_slices := (ds_slices ds1)[length (ds_slices ds1) - 1 := ds_slices ds1 ! (length (ds_slices ds1) - 1) @ key @ v],
        ds_sliceLen := ds_sliceLen ds1 + of_nat (length key + length v)\<rparr>)"
    unfolding ds_put_def Let_def n_def [symmetric] ds1_def [symmetric] using 4 by simp
  show ?thesis by (rule exI, rule exI, intro conjI, rule p) (use ds_put_last [OF 1 assms(2) 2] 3 5 in auto)
qed

text \<open>An entry that says where a pair is gives the pair.\<close>

definition entry_at :: "bytes list \<Rightarrow> entry \<Rightarrow> bytes \<times> bytes \<Rightarrow> bool" where
  "entry_at ss e kv \<longleftrightarrow> slice_at ss (e_addr e) (fst kv @ snd kv) \<and> e_keyLen e = of_nat (length (fst kv)) \<and> e_valLen e = of_nat (length (snd kv))"

lemma subslice_at:
  assumes "sl = front @ b @ rest" "length sl < 2 ^ 32" "unat lo = length front"
  shows "subslice sl lo (lo + of_nat (length b)) = Some b"
proof -
  have "unat (lo + of_nat (length b)) = length front + length b" using unat_add_small [of lo "length b"] assms by simp
  then show ?thesis using assms by (simp add: subslice_def word_le_nat_alt)
qed

lemma entry_data:
  assumes "ds_ok ds" "entry_at (ds_slices ds) e (k, v)"
  shows "getEntryData ds e = Some (k, v)" "ds_get ds e key = Some (if key = k then Some v else None)"
proof -
  define sl where "sl = ds_slices ds ! unat (da_sliceIdx (e_addr e))"
  obtain front rest where s: "unat (da_sliceIdx (e_addr e)) < length (ds_slices ds)" "sl = front @ (k @ v) @ rest" "length front = unat (da_offset (e_addr e))"
    using assms(2) by (auto simp: entry_at_def slice_at_def sl_def)
  have "length sl < 2 ^ 31" using assms(1) s(1) by (auto simp: ds_ok_def sl_def)
  then have l: "length sl < 2 ^ 32" by simp
  have 1: "subslice sl (da_offset (e_addr e)) (da_offset (e_addr e) + of_nat (length k)) = Some k"
    by (rule subslice_at [where front = front and rest = "v @ rest"]) (use s l in simp_all)
  have "unat (da_offset (e_addr e) + of_nat (length k)) = length (front @ k)"
    using unat_add_small [of "da_offset (e_addr e)" "length k"] s(2,3) l by simp
  then have 2: "subslice sl (da_offset (e_addr e) + of_nat (length k)) (da_offset (e_addr e) + of_nat (length k) + of_nat (length v)) = Some v"
    by (intro subslice_at [where front = "front @ k" and rest = rest]) (use s l in simp_all)
  show "getEntryData ds e = Some (k, v)" using s(1) 1 2 assms(2) by (simp add: getEntryData_def entry_at_def Let_def sl_def [symmetric])
  show "ds_get ds e key = Some (if key = k then Some v else None)" using s(1) 1 2 assms(2) by (simp add: ds_get_def entry_at_def Let_def sl_def [symmetric])
qed

section \<open>The entry store\<close>

text \<open>All slices but the last one are full; entry \<open>n\<close> is at the address \<open>entry_addr n\<close>.\<close>

definition entry_addr :: "nat \<Rightarrow> entryAddr" where
  "entry_addr n = \<lparr>ea_sliceIdx = of_nat (n div 8192), ea_offset = of_nat (n mod 8192)\<rparr>"

definition es_rep :: "entryStore \<Rightarrow> entry list \<Rightarrow> bool" where
  "es_rep es flat \<longleftrightarrow> es_slices es \<noteq> [] \<and> concat (es_slices es) = flat \<and> (\<forall>s \<in> set (butlast (es_slices es)). length s = 8192) \<and>
     length (last (es_slices es)) \<le> 8192 \<and> unat (es_sliceIdx es) = length (es_slices es) - 1 \<and> unat (es_sliceLen es) = length (last (es_slices es))"

lemma full_slices:
  assumes "\<forall>s \<in> set (butlast ss). length s = c" "0 < c" "n < length (concat ss)" "length (last ss) \<le> c"
  shows "n div c < length ss \<and> n mod c < length (ss ! (n div c)) \<and> ss ! (n div c) ! (n mod c) = concat ss ! n"
  using assms
proof (induction ss arbitrary: n)
  case (Cons s ss)
  show ?case
  proof (cases "ss = []")
    case True
    show ?thesis
    proof (cases "n < c")
      case True
      then show ?thesis using Cons.prems \<open>ss = []\<close> by simp
    next
      case False
      then show ?thesis using Cons.prems \<open>ss = []\<close> by simp
    qed
  next
    case False
    then have l: "length s = c" "\<forall>s \<in> set (butlast ss). length s = c" "length (last ss) \<le> c" using Cons.prems by auto
    show ?thesis
    proof (cases "n < c")
      case True
      then show ?thesis using l(1) by (simp add: nth_append)
    next
      case False
      then have "n - c < length (concat ss)" using Cons.prems(3) l(1) by simp
      from Cons.IH [OF l(2) Cons.prems(2) this l(3)] have "(n - c) div c < length ss" "(n - c) mod c < length (ss ! ((n - c) div c))"
        "ss ! ((n - c) div c) ! ((n - c) mod c) = concat ss ! (n - c)" by auto
      moreover have "n div c = Suc ((n - c) div c)" "n mod c = (n - c) mod c" using False Cons.prems(2) by (simp_all add: le_div_geq le_mod_geq)
      ultimately show ?thesis using False l(1) by (simp add: nth_append)
    qed
  qed
qed simp

lemma length_concat_full:
  assumes "ss \<noteq> []" "\<forall>s \<in> set (butlast ss). length s = c"
  shows "length (concat ss) = c * (length ss - 1) + length (last ss)"
proof -
  have "\<forall>s \<in> set xs. length s = c \<Longrightarrow> length (concat xs) = c * length xs" for xs :: "'a list list" by (induction xs) auto
  from this [of "butlast ss"] show ?thesis using assms by (cases ss rule: rev_cases) auto
qed

lemma entry_addr_unat: "n < 2 ^ 32 \<Longrightarrow> unat (ea_sliceIdx (entry_addr n)) = n div 8192" "unat (ea_offset (entry_addr n)) = n mod 8192"
proof -
  have "n mod 8192 < 2 ^ 32" by (rule less_trans [of _ 8192]) simp_all
  then show "unat (ea_offset (entry_addr n)) = n mod 8192" by (simp add: entry_addr_def unat_of_nat)
  show "unat (ea_sliceIdx (entry_addr n)) = n div 8192" if "n < 2 ^ 32"
    using that div_le_dividend [of n 8192] by (simp add: entry_addr_def unat_of_nat)
qed

lemma entry_addr_null: "n < 2 ^ 32 \<Longrightarrow> entry_addr n = nullEntryAddr \<longleftrightarrow> n = 0"
proof -
  assume n: "n < 2 ^ 32"
  have "n div 8192 = 0 \<and> n mod 8192 = 0 \<longleftrightarrow> n = 0" by (metis div_mult_mod_eq div_0 mod_0 mult_0 add_0)
  moreover have "entry_addr n = nullEntryAddr \<longleftrightarrow> unat (ea_sliceIdx (entry_addr n)) = 0 \<and> unat (ea_offset (entry_addr n)) = 0"
    by (cases "entry_addr n") (simp add: nullEntryAddr_def unat_eq_zero)
  ultimately show ?thesis using entry_addr_unat [of n] n by simp
qed

lemma es_get_entry: "es_rep es flat \<Longrightarrow> n < length flat \<Longrightarrow> length flat < 2 ^ 32 \<Longrightarrow> es_get es (entry_addr n) = Some (flat ! n)"
  using full_slices [of "es_slices es" 8192 n] entry_addr_unat [of n] by (auto simp: es_rep_def es_get_def Let_def)

lemma es_put_last:
  assumes "es_rep es flat" "length (last (es_slices es)) < 8192"
  defines "i \<equiv> length (es_slices es) - 1"
  shows "es_rep (es\<lparr>es_slices := (es_slices es)[i := es_slices es ! i @ [e]], es_sliceLen := es_sliceLen es + 1\<rparr>) (flat @ [e])"
    "length flat = 8192 * i + length (last (es_slices es))"
proof -
  obtain ss s where ss: "es_slices es = ss @ [s]" using assms(1) by (cases "es_slices es" rule: rev_cases) (auto simp: es_rep_def)
  have "unat (es_sliceLen es + 1) = length s + 1"
    using unat_add_small [of "es_sliceLen es" 1] assms(1,2) ss by (simp add: es_rep_def)
  then show "es_rep (es\<lparr>es_slices := (es_slices es)[i := es_slices es ! i @ [e]], es_sliceLen := es_sliceLen es + 1\<rparr>) (flat @ [e])"
    using assms(1,2) ss by (auto simp: es_rep_def i_def)
  show "length flat = 8192 * i + length (last (es_slices es))"
    using length_concat_full [of "es_slices es" 8192] assms(1) by (simp add: es_rep_def i_def)
qed

lemma es_put_ok:
  assumes "es_rep es flat" "length flat < 2 ^ 32"
  shows "\<exists>es'. es_put es e = Some (entry_addr (length flat), es') \<and> es_rep es' (flat @ [e])"
proof -
  define es1 where "es1 = (if es_sliceLen es = maxEntrySliceLen
      then es\<lparr>es_slices := es_slices es @ [[]], es_sliceLen := 0, es_sliceIdx := es_sliceIdx es + 1\<rparr> else es)"
  have ok: "es_slices es \<noteq> []" "unat (es_sliceIdx es) = length (es_slices es) - 1" "unat (es_sliceLen es) = length (last (es_slices es))"
    "length (last (es_slices es)) \<le> 8192" using assms(1) by (simp_all add: es_rep_def)
  have full: "es_sliceLen es = maxEntrySliceLen \<longleftrightarrow> length (last (es_slices es)) = 8192"
  proof -
    have "unat maxEntrySliceLen = 8192" by (simp add: maxEntrySliceLen_def)
    then show ?thesis using ok(3) by (metis word_unat_eq_iff)
  qed
  have n: "length flat = 8192 * (length (es_slices es) - 1) + length (last (es_slices es))"
    using length_concat_full [of "es_slices es" 8192] assms(1) by (simp add: es_rep_def)
  then have "unat (es_sliceIdx es) + 1 < 2 ^ 32" using assms(2) ok(2) by simp
  then have idx: "unat (es_sliceIdx es + 1) = length (es_slices es)"
    using unat_add_small [of "es_sliceIdx es" 1] ok(1,2) by (cases "es_slices es") simp_all
  have 1: "es_rep es1 flat"
  proof (cases "es_sliceLen es = maxEntrySliceLen")
    case True
    obtain ss s where ss: "es_slices es = ss @ [s]" using ok(1) by (cases "es_slices es" rule: rev_cases) auto
    have "butlast (ss @ [s, []]) = ss @ [s]" by (simp add: butlast_append)
    then show ?thesis using ss True full assms(1) idx by (auto simp: es1_def es_rep_def)
  next
    case False
    then show ?thesis using assms(1) by (simp add: es1_def)
  qed
  have 2: "length (last (es_slices es1)) < 8192" using full ok(4) by (auto simp: es1_def)
  note 3 = es_put_last [OF 1 2]
  have 4: "unat (es_sliceIdx es1) = length (es_slices es1) - 1" "unat (es_sliceIdx es1) < length (es_slices es1)" "unat (es_sliceLen es1) = length (last (es_slices es1))"
    using 1 by (auto simp: es_rep_def)
  have a: "entry_addr (length flat) = \<lparr>ea_sliceIdx = es_sliceIdx es1, ea_offset = es_sliceLen es1\<rparr>"
    using 2 unfolding entry_addr_def 3(2) 4(1,3) [symmetric] by simp
  show ?thesis unfolding a es_put_def Let_def es1_def [symmetric] using 4 3(1) by simp
qed

section \<open>The map\<close>

text \<open>The position, counted from one, of the last pair whose key has the hash, or zero.\<close>

fun last_pos :: "u64 \<Rightarrow> (bytes \<times> bytes) list \<Rightarrow> nat" where
  "last_pos h [] = 0"
| "last_pos h ((k, v) # rest) = (if fnvHash64 k = h then length rest + 1 else last_pos h rest)"

definition last_with :: "u64 \<Rightarrow> (bytes \<times> bytes) list \<Rightarrow> nat" where
  "last_with h kvs = last_pos h (rev kvs)"

lemma last_with_simps [simp]:
  "last_with h [] = 0" "last_with h (kvs @ [(k, v)]) = (if fnvHash64 k = h then length kvs + 1 else last_with h kvs)"
  by (simp_all add: last_with_def)

lemma last_with_le: "last_with h kvs \<le> length kvs"
  by (induction kvs rule: rev_induct) auto

text \<open>The map holds the pairs in the order in which they were put.\<close>

definition mv_rep :: "MVMap \<Rightarrow> (bytes \<times> bytes) list \<Rightarrow> bool" where
  "mv_rep m kvs \<longleftrightarrow>
     (\<exists>es. es_rep (mv_entries m) (zeroEntry # es) \<and> length es = length kvs \<and> ds_ok (mv_data m) \<and>
        length (ds_slices (mv_data m)) \<le> length kvs + 1 \<and> mv_length m = int (length kvs) \<and>
        (\<forall>h. chain_start m h = entry_addr (last_with h kvs)) \<and>
        (\<forall>i < length kvs. entry_at (ds_slices (mv_data m)) (es ! i) (kvs ! i) \<and>
           e_next (es ! i) = entry_addr (last_with (fnvHash64 (fst (kvs ! i))) (take i kvs))))"

lemma New_mv_rep: "\<exists>m. NewMVMap = Some m \<and> mv_rep m []"
  by (simp add: NewMVMap_def es_put_def maxEntrySliceLen_def mv_rep_def es_rep_def ds_ok_def chain_start_def entry_addr_def nullEntryAddr_def)

lemma Put_mv_rep:
  assumes "mv_rep m kvs" "length kvs + 2 < 2 ^ 32" "length key + length v < 2 ^ 31"
  shows "\<exists>m'. mv_Put m key v = Some m' \<and> mv_rep m' (kvs @ [(key, v)])"
proof -
  obtain es where r: "es_rep (mv_entries m) (zeroEntry # es)" "length es = length kvs" "ds_ok (mv_data m)"
    "length (ds_slices (mv_data m)) \<le> length kvs + 1" "mv_length m = int (length kvs)" "\<forall>h. chain_start m h = entry_addr (last_with h kvs)"
    and e: "\<forall>i < length kvs. entry_at (ds_slices (mv_data m)) (es ! i) (kvs ! i) \<and>
           e_next (es ! i) = entry_addr (last_with (fnvHash64 (fst (kvs ! i))) (take i kvs))"
    using assms(1) by (auto simp: mv_rep_def)
  obtain a ds where d: "ds_put (mv_data m) key v = Some (a, ds)" "ds_ok ds" "slice_at (ds_slices ds) a (key @ v)"
    "\<forall>b x. slice_at (ds_slices (mv_data m)) b x \<longrightarrow> slice_at (ds_slices ds) b x" "length (ds_slices ds) \<le> length (ds_slices (mv_data m)) + 1"
    using ds_put_ok [OF r(3) assms(3)] r(4) assms(2) by auto
  define new where "new = \<lparr>e_addr = a, e_keyLen = of_nat (length key), e_valLen = of_nat (length v), e_next = chain_start m (fnvHash64 key)\<rparr>"
  obtain es' where p: "es_put (mv_entries m) new = Some (entry_addr (length kvs + 1), es')" "es_rep es' (zeroEntry # es @ [new])"
    using es_put_ok [OF r(1), of new] r(2) assms(2) by auto
  define m' where "m' = m\<lparr>mv_data := ds, mv_entries := es', hashTable := (hashTable m)(fnvHash64 key \<mapsto> entry_addr (length kvs + 1)), mv_length := mv_length m + 1\<rparr>"
  have put: "mv_Put m key v = Some m'" using d(1) p(1) by (simp add: mv_Put_def new_def m'_def Let_def)
  have "chain_start m' h = entry_addr (last_with h (kvs @ [(key, v)]))" for h
    using r(6) by (auto simp: chain_start_def m'_def)
  moreover have "entry_at (ds_slices ds) ((es @ [new]) ! i) ((kvs @ [(key, v)]) ! i) \<and>
      e_next ((es @ [new]) ! i) = entry_addr (last_with (fnvHash64 (fst ((kvs @ [(key, v)]) ! i))) (take i (kvs @ [(key, v)])))" if "i < length kvs + 1" for i
  proof (cases "i = length kvs")
    case True
    then show ?thesis using d(3) r(2,6) by (simp add: entry_at_def new_def nth_append)
  next
    case False
    then have "i < length kvs" using that by simp
    then show ?thesis using e d(4) r(2) by (simp add: entry_at_def nth_append)
  qed
  ultimately have "mv_rep m' (kvs @ [(key, v)])" unfolding mv_rep_def
    using p(2) r d by (intro exI [of _ "es @ [new]"]) (simp add: m'_def)
  then show ?thesis using put by blast
qed

lemma length_swap_at [simp]: "length (swap_at vs i) = length vs"
  by (simp add: swap_at_def Let_def)

lemma length_swaps [simp]: "length (foldl swap_at vs is) = length vs"
  by (induction "is" arbitrary: vs) simp_all

lemma swap_at_nth:
  "i < length vs \<Longrightarrow> j < length vs \<Longrightarrow> swap_at vs i ! j = (if j = i \<or> j = length vs - 1 - i then vs ! (length vs - 1 - j) else vs ! j)"
  by (auto simp: swap_at_def Let_def nth_list_update)

lemma swaps_nth:
  "m \<le> length vs div 2 \<Longrightarrow> j < length vs \<Longrightarrow>
   foldl swap_at vs [0..<m] ! j = (if j < m \<or> length vs - m \<le> j then vs ! (length vs - 1 - j) else vs ! j)"
proof (induction m arbitrary: j)
  case (Suc m)
  have m: "m < length vs" "m \<le> length vs div 2" "length vs - 1 - m < length vs" "length vs - 1 - j < length vs" using Suc.prems by linarith+
  have "foldl swap_at vs [0..<Suc m] ! j = swap_at (foldl swap_at vs [0..<m]) m ! j" by simp
  also have "\<dots> = (if j = m \<or> j = length vs - 1 - m then foldl swap_at vs [0..<m] ! (length vs - 1 - j) else foldl swap_at vs [0..<m] ! j)"
    using swap_at_nth [of m "foldl swap_at vs [0..<m]" j] m(1) Suc.prems(2) by simp
  finally show ?case using Suc.IH [OF m(2,4)] Suc.IH [OF m(2) Suc.prems(2)] Suc.prems by (auto split: if_splits)
qed simp

lemma swap_ends_rev: "swap_ends vs = rev vs"
proof (rule nth_equalityI)
  show "length (swap_ends vs) = length (rev vs)" by (simp add: swap_ends_def)
  fix j assume "j < length (swap_ends vs)"
  then have j: "j < length vs" by (simp add: swap_ends_def)
  have "length vs - 1 - j = j" if "\<not> (j < length vs div 2 \<or> length vs - length vs div 2 \<le> j)" using that j by linarith
  then show "swap_ends vs ! j = rev vs ! j" using swaps_nth [of "length vs div 2" vs j] j by (auto simp: swap_ends_def rev_nth)
qed

definition values_of :: "bytes \<Rightarrow> (bytes \<times> bytes) list \<Rightarrow> bytes list" where
  "values_of key kvs = map snd (filter (\<lambda>kv. fst kv = key) kvs)"

lemma Get_chain:
  assumes "mv_rep m kvs" "length kvs + 1 < 2 ^ 32" "n \<le> length kvs"
  shows "mv_Get_loop m key (entry_addr (last_with (fnvHash64 key) (take n kvs))) vals = Some (Some (vals @ rev (values_of key (take n kvs))))"
  using assms(3)
proof (induction n arbitrary: vals)
  case 0
  then show ?case by (subst mv_Get_loop.simps) (simp add: entry_addr_null values_of_def)
next
  case (Suc n)
  obtain es where r: "es_rep (mv_entries m) (zeroEntry # es)" "length es = length kvs" "ds_ok (mv_data m)"
    and e: "entry_at (ds_slices (mv_data m)) (es ! n) (kvs ! n)" "e_next (es ! n) = entry_addr (last_with (fnvHash64 (fst (kvs ! n))) (take n kvs))"
    using assms(1) Suc.prems by (auto simp: mv_rep_def)
  obtain k v where kv: "kvs ! n = (k, v)" by fastforce
  have t: "take (Suc n) kvs = take n kvs @ [(k, v)]" "length (take n kvs) = n" using Suc.prems kv by (simp_all add: take_Suc_conv_app_nth)
  show ?case
  proof (cases "fnvHash64 k = fnvHash64 key")
    case False
    then have "k \<noteq> key" by auto
    then show ?thesis using Suc.IH Suc.prems False unfolding t(1) by (simp add: values_of_def)
  next
    case True
    have g: "es_get (mv_entries m) (entry_addr (n + 1)) = Some (es ! n)" using es_get_entry [OF r(1), of "n + 1"] r(2) assms(2) Suc.prems by simp
    have d: "ds_get (mv_data m) (es ! n) key = Some (if key = k then Some v else None)" using entry_data(2) [OF r(3)] e(1) kv by simp
    have "entry_addr (n + 1) \<noteq> nullEntryAddr" using entry_addr_null [of "n + 1"] assms(2) Suc.prems by simp
    then have "mv_Get_loop m key (entry_addr (n + 1)) vals = mv_Get_loop m key (e_next (es ! n)) (if key = k then vals @ [v] else vals)"
      using g d by (subst mv_Get_loop.simps) simp
    moreover have "last_with (fnvHash64 key) (take n kvs @ [(k, v)]) = n + 1" using True t(2) by simp
    ultimately show ?thesis using Suc.IH Suc.prems True e(2) kv unfolding t(1) by (simp add: values_of_def)
  qed
qed

lemma Get_mv_rep:
  assumes "mv_rep m kvs" "length kvs + 1 < 2 ^ 32"
  shows "mv_Get m key vals = Some (Some (values_of key kvs @ rev vals))"
proof -
  have "chain_start m (fnvHash64 key) = entry_addr (last_with (fnvHash64 key) (take (length kvs) kvs))" using assms(1) by (auto simp: mv_rep_def)
  then show ?thesis using Get_chain [OF assms order_refl, of key vals] by (simp add: mv_Get_def swap_ends_rev)
qed

text \<open>What is left of an iteration over the entries.\<close>

definition it_left :: "MVMap \<Rightarrow> mv_iter \<Rightarrow> entry list" where
  "it_left m it = drop (entryCur it) (concat (take 1 (drop (sliceCur it) (es_slices (mv_entries m))))) @ concat (drop (sliceCur it + 1) (es_slices (mv_entries m)))"

lemma Next_left:
  "(case it_left m it of
      [] \<Rightarrow> \<exists>it'. mv_Next m it = (Inr None, it')
    | e # es \<Rightarrow> getEntryData (mv_data m) e = Some kv \<longrightarrow> (\<exists>it'. mv_Next m it = (Inr (Some kv), it') \<and> it_left m it' = es))"
proof (induction m it rule: mv_Next.induct)
  case (1 m it)
  let ?ss = "es_slices (mv_entries m)"
  show ?case
  proof (cases "sliceCur it < length ?ss")
    case False
    then show ?thesis by (simp add: it_left_def mv_Next.simps)
  next
    case True
    then have s: "take 1 (drop (sliceCur it) ?ss) = [?ss ! sliceCur it]" by (simp add: take_Suc hd_drop_conv_nth drop_Suc)
    show ?thesis
    proof (cases "entryCur it < length (?ss ! sliceCur it)")
      case False
      let ?it = "it\<lparr>sliceCur := sliceCur it + 1, entryCur := 0\<rparr>"
      have "it_left m it = it_left m ?it"
      proof (cases "sliceCur it + 1 < length ?ss")
        case True
        then have "drop (sliceCur it + 1) ?ss = ?ss ! (sliceCur it + 1) # drop (sliceCur it + 2) ?ss" by (simp add: Cons_nth_drop_Suc)
        then show ?thesis using False s by (simp add: it_left_def)
      next
        case nomore: False
        then show ?thesis using False s by (simp add: it_left_def)
      qed
      moreover have "mv_Next m it = mv_Next m ?it" using True False by (subst mv_Next.simps) (simp add: Let_def)
      ultimately show ?thesis using 1 [OF _ refl] True False by (simp only: not_le not_less)
    next
      case e: True
      have l: "it_left m it = ?ss ! sliceCur it ! entryCur it # it_left m (it\<lparr>entryCur := entryCur it + 1\<rparr>)"
        using e s by (simp add: it_left_def Cons_nth_drop_Suc [symmetric])
      then show ?thesis using True e by (simp add: mv_Next.simps [of m it] Let_def)
    qed
  qed
qed

text \<open>The calls of \<open>Next\<close> give these pairs, and then the end.\<close>

fun iterates :: "MVMap \<Rightarrow> mv_iter \<Rightarrow> (bytes \<times> bytes) list \<Rightarrow> bool" where
  "iterates m it [] \<longleftrightarrow> fst (mv_Next m it) = Inr None"
| "iterates m it (kv # kvs) \<longleftrightarrow> fst (mv_Next m it) = Inr (Some kv) \<and> iterates m (snd (mv_Next m it)) kvs"

lemma iterates_left:
  "list_all2 (\<lambda>e kv. getEntryData (mv_data m) e = Some kv) es kvs \<Longrightarrow> it_left m it = es \<Longrightarrow> iterates m it kvs"
proof (induction es kvs arbitrary: it rule: list_all2_induct)
  case Nil
  then show ?case using Next_left [of m it undefined] by auto
next
  case (Cons e es kv kvs)
  then obtain it' where "mv_Next m it = (Inr (Some kv), it')" "it_left m it' = es" using Next_left [of m it kv] by auto
  then show ?case using Cons.IH by simp
qed

lemma it_left_start:
  assumes "es_rep (mv_entries m) (zeroEntry # es)" shows "it_left m mv_NewIterator = es"
proof -
  obtain s ss where s: "es_slices (mv_entries m) = s # ss" using assms by (cases "es_slices (mv_entries m)") (auto simp: es_rep_def)
  have "s \<noteq> []" using assms s by (auto simp: es_rep_def split: if_splits)
  then obtain x xs where "s = x # xs" by (cases s) auto
  then show ?thesis using assms s by (simp add: it_left_def mv_NewIterator_def es_rep_def)
qed

lemma iterate_mv_rep:
  assumes "mv_rep m kvs" shows "iterates m mv_NewIterator kvs"
proof -
  obtain es where r: "es_rep (mv_entries m) (zeroEntry # es)" "length es = length kvs" "ds_ok (mv_data m)"
    "\<forall>i < length kvs. entry_at (ds_slices (mv_data m)) (es ! i) (kvs ! i)"
    using assms by (auto simp: mv_rep_def)
  have "getEntryData (mv_data m) (es ! i) = Some (kvs ! i)" if "i < length kvs" for i
    using entry_data(1) [OF r(3), of "es ! i" "fst (kvs ! i)" "snd (kvs ! i)"] r(4) that by simp
  then have "list_all2 (\<lambda>e kv. getEntryData (mv_data m) e = Some kv) es kvs" using r(2) by (simp add: list_all2_conv_all_nth)
  then show ?thesis using it_left_start [OF r(1)] by (rule iterates_left)
qed

section \<open>What the map promises\<close>

text \<open>C24: The maps that are built are well-formed.  A new map holds no pair, and \<open>Put\<close> of a pair of less than 2 GiB into a
  well-formed map with room for the entry does not panic and gives a well-formed map with the pair added
  behind the others: every entry addresses its own bytes, and every chain links the entries of one hash.\<close>

theorem mv_Put_wf:
  "(\<exists>m. NewMVMap = Some m \<and> mv_rep m []) \<and>
   (mv_rep m kvs \<and> length kvs + 2 < 2 ^ 32 \<and> length key + length v < 2 ^ 31 \<longrightarrow>
      (\<exists>m'. mv_Put m key v = Some m' \<and> mv_rep m' (kvs @ [(key, v)])))"
  using New_mv_rep Put_mv_rep by blast

theorem mv_Put_wf_witness:
  "\<exists>m m'. NewMVMap = Some m \<and> mv_Put m [1] [2, 3] = Some m' \<and> mv_rep m' [([1], [2, 3])]"
proof -
  obtain m where "NewMVMap = Some m" "mv_rep m []" using mv_Put_wf by blast
  then show ?thesis using mv_Put_wf [of m "[]" "[1]" "[2, 3]"] by auto
qed

text \<open>C23: The map refines the list of the pairs that were put.  \<open>Get\<close> ends and returns the values of a key in the order
  in which they were put, also when other keys have the same hash, \<open>Len\<close> is the number of pairs, and an iterator gives
  every pair in order and then the end.  Values that \<open>Get\<close> is to append to come back behind the others, reversed.\<close>

theorem mvmap_refines:
  assumes "mv_rep m kvs" "length kvs + 1 < 2 ^ 32"
  shows "mv_Get m key [] = Some (Some (values_of key kvs)) \<and> mv_Get m key vals = Some (Some (values_of key kvs @ rev vals)) \<and>
    mv_Len m = int (length kvs) \<and> iterates m mv_NewIterator kvs"
  using Get_mv_rep [OF assms] iterate_mv_rep [OF assms(1)] assms(1) by (auto simp: mv_Len_def mv_rep_def)

theorem mvmap_refines_witness:
  "\<exists>m m1 m2. NewMVMap = Some m \<and> mv_Put m [1] [2] = Some m1 \<and> mv_Put m1 [1] [3] = Some m2 \<and>
     mv_Get m2 [1] [] = Some (Some [[2], [3]]) \<and> mv_Len m2 = 2 \<and> iterates m2 mv_NewIterator [([1], [2]), ([1], [3])]"
proof -
  obtain m where m: "NewMVMap = Some m" "mv_rep m []" using New_mv_rep by blast
  obtain m1 where m1: "mv_Put m [1] [2] = Some m1" "mv_rep m1 [([1], [2])]" using Put_mv_rep [OF m(2), of "[1]" "[2]"] by auto
  obtain m2 where m2: "mv_Put m1 [1] [3] = Some m2" "mv_rep m2 [([1], [2]), ([1], [3])]" using Put_mv_rep [OF m1(2), of "[1]" "[3]"] by auto
  from mvmap_refines [OF m2(2), of "[1]" "[]"] show ?thesis using m(1) m1(1) m2(1) by (auto simp: values_of_def)
qed

end
