(* ===== verification/Spec2Isabelle.thy ===== *)
theory Spec2Isabelle
  imports Table_Codec Mvcc_Correct Autoid_Correct Overflow Like_Match Mv_Map
begin

text \<open>
  \<^bold>\<open>Verification of the storage side of tinysql.\<close>

  \<^bold>\<open>The program.\<close>  tinysql is a SQL server over a transactional key-value store.  Rows and index entries of tables are
  encoded into ordered byte strings (\<open>src/util/codec\<close>, \<open>src/tablecodec\<close>).  A transaction reads a snapshot and collects
  its writes in memory (\<open>src/kv\<close>, \<open>src/kv/memdb\<close>).  Lists, hashes and counters are laid out over a transaction
  (\<open>src/structure\<close>); the catalogue of databases, tables and DDL jobs is kept in them (\<open>src/meta\<close>), and the
  auto-increment IDs of a table are allocated from a counter of the catalogue (\<open>src/meta/autoid\<close>).  The store under
  the transactions is, in this repository, the multi-version store of \<open>src/store/mockstore/mocktikv\<close> over LevelDB.

  \<^bold>\<open>Conventions.\<close>  \<open>Prelude\<close> names the types: byte strings are lists of 8-bit words in lexicographic order, 64-bit
  integers are words, read by \<open>uint\<close> or \<open>sint\<close> as the type in the source says.  Structs are records, errors are
  values of sum or option types, and every early return is a branch.  A panic is an error value (\<open>Crash\<close> in package
  \<open>kv\<close>, a result of its own elsewhere).  A loop is a recursive function with a termination proof; where the source may
  loop forever it is a \<open>partial_function (option)\<close>, whose value \<open>None\<close> is not returning, and the theorems say that it
  returns.  No definition uses fuel; the one bound is \<open>maxRetryCnt\<close> of \<open>RunInNewTxn\<close>, which is the source's.

  \<^bold>\<open>Encodings.\<close>  \<open>Number_Codec\<close>, \<open>Bytes_Codec\<close> and \<open>Float_Codec\<close> model \<open>number.go\<close>, \<open>bytes.go\<close> and \<open>float.go\<close> of
  \<open>src/util/codec\<close>; the locales \<open>memcomparable\<close> and \<open>memcomparable_pair\<close> state that an encoding is injective, prefix
  free and ordered like the values, and the memory-comparable encodings are interpretations.  \<open>Datum_Codec\<close> (\<open>codec.go\<close>) shows
  the round trip and the order of encoded rows of datums, \<open>Kv_Key\<close> (\<open>src/kv/key.go\<close>) the successors of keys,
  \<open>Table_Codec\<close> (\<open>tablecodec.go\<close>) the order, the ranges and the decoding of row and index keys and of rows
  (the handle range of a table excludes its end, the row with the largest handle),
  \<open>Oracle\<close> (\<open>src/store/tikv/oracle\<close>) the timestamps.

  \<^bold>\<open>The multi-version store.\<close>  \<open>Mvcc_Codec\<close> (\<open>mvcc.go\<close>) has the formats of locks, versions and storage keys, and
  \<open>Mvcc_Store\<close> (\<open>mvcc_leveldb.go\<close>) every request as a function of the database.  LevelDB is a parameter: the
  locale \<open>leveldb\<close> (\<open>Mvcc_Layout\<close>) states its documented behaviour without I/O errors, \<open>Mvcc_Memory\<close> interprets it.  \<open>Mvcc_Layout\<close>
  relates a database to an abstract store of locks and versions, \<open>Mvcc_Read\<close>, \<open>Mvcc_Write\<close> and \<open>Mvcc_Range\<close> show
  that each request does to the database what the abstract request does to the store, \<open>Mvcc_Txn\<close> and
  \<open>Mvcc_Snapshot\<close> prove the invariant of reachable stores and what requests do to snapshots.  \<open>Mvcc_Correct\<close>
  states the results of the operations themselves: atomic commits, no lost updates, repeatable reads, safe garbage
  collection, final rollbacks, complete resolution of locks.

  \<^bold>\<open>The transaction buffer.\<close>  \<open>Memdb_Arena\<close> and \<open>Memdb\<close> model \<open>src/kv/memdb\<close>, the skip list in an arena with its
  iterators; \<open>Memdb_Search\<close>, \<open>Memdb_Update\<close> and \<open>Memdb_Correct\<close> show that it is a sorted map.  \<open>Kv_Iter\<close> and \<open>Kv_Store\<close>
  model the iterators, the memory buffer and the union store of \<open>src/kv\<close>; the interfaces of the package are the locales
  \<open>kv_iterator\<close>, \<open>union_iterators\<close>, \<open>retriever\<close> and \<open>retriever_mutator\<close>, interpreted in \<open>Kv_Store_Correct\<close> by the
  iterators of the memory buffer, the mock snapshot and the union store.  A union store reads as its snapshot with the writes applied.
  \<open>Kv_Utils\<close> has the decimal counters, \<open>Kv_Txn\<close> the retry loop of \<open>src/kv/txn.go\<close>.

  \<^bold>\<open>Structures, catalogue, allocators.\<close>  \<open>Structure\<close> models \<open>src/structure\<close> over any retriever and mutator.
  \<open>Structure_Layout\<close> sees a store as slots with distinct keys, \<open>Structure_List\<close> and \<open>Structure_Hash\<close> prove the operations
  inside the locale \<open>retriever_mutator\<close>, \<open>Structure_Correct\<close> states that lists are double-ended queues and that the
  field count of a hash is always right.  \<open>Meta\<close> models \<open>src/meta/meta.go\<close>, \<open>Meta_Layout\<close> and \<open>Meta_Correct\<close> show that tables
  are a map and a list of DDL jobs is a queue; JSON is a parameter, used through what decoding gives for the
  bytes of a value.  \<open>Autoid\<close> models \<open>src/meta/autoid\<close>; \<open>Autoid_Counter\<close> and \<open>Autoid_Correct\<close> prove, for any storage that
  commits or leaves its state, that no ID is handed out twice, by an invariant of the steps of many allocators,
  and exactly when a fresh allocator succeeds: for at most 2000000 IDs, the largest step of the source, if so many are left.

  \<^bold>\<open>Utilities.\<close>  \<open>Overflow\<close> models the checked arithmetic of \<open>src/types/overflow.go\<close> and compares it with the exact
  integers, \<open>Like_Match\<close> the LIKE patterns of \<open>src/util/stringutil\<close> with a reference matcher, and \<open>Mv_Map\<close> the multi-value
  hash map of \<open>src/util/mvmap\<close> with the list of the pairs that were put.

  \<^bold>\<open>Bounds.\<close>  Theorems about writes assume that the writes stay within the limits of the buffer (\<open>fits\<close>); \<open>Memdb_Correct\<close>
  assumes keys shorter than 65536 bytes and values shorter than 4 GiB, the widths of the length fields of a node,
  and fewer than \<open>2^32\<close> blocks.  List indices stay inside \<open>int64\<close>, what the list and hash readers
  return fits an allocation of \<open>2^48\<close> bytes, field counts below \<open>2^63\<close>, and the number of IDs asked
  for of an allocator below \<open>2^62\<close>, as the source computes twice that number.  A multi-value map holds fewer than
  \<open>2^32\<close> pairs of less than \<open>2^31\<close> bytes each, the widths of its addresses.

  \<^bold>\<open>Not modelled.\<close>  Parser, planner, executor and expressions (a generated parser, and rewriting and evaluation over
  interfaces with parts that the repository leaves to be written); the DDL worker, domain, owner, session and server
  (goroutines, timers, etcd and network); statistics (floating point estimates); the TiKV client, whose
  two-phase commit is left open in this repository, so that the commit of a transaction is a parameter of \<open>Kv_Txn\<close>;
  the simulated cluster and its coprocessor; chunks, which use unsafe pointers; the second row format; index ranges.
  In the modelled files: logging, metrics and mutexes have no effect on the model, a call under a mutex is one step;
  \<open>HClear\<close> and \<open>DropDatabase\<close>, which delete under a running iteration, are modelled without a theorem, as the
  iterator interface promises nothing for that case; the floating point product in \<open>NextStep\<close> is an argument.
\<close>

end
